(* ===== verification/Vc_Prelude.thy ===== *)
theory Vc_Prelude
  imports Main "HOL-Library.Word" "HOL-Library.AList"
begin

text \<open>
  Shared vocabulary of the development: the machine types of the C++ sources, the
  little-endian memory layout of integer fields, the two container models
  (\<^verbatim>\<open>std::map\<close> as a key-sorted association list, \<^verbatim>\<open>std::unordered_map\<close> as an
  association list with distinct keys) and the outcome type of operations that can trap.
  Generic lemmas about them are declared here once, for all component theories.
\<close>

section \<open>Machine types and outcomes\<close>

type_synonym u8 = "8 word"
type_synonym u16 = "16 word"
type_synonym u32 = "32 word"
type_synonym u64 = "64 word"

text \<open>\<^verbatim>\<open>std::vector<char>\<close> and every raw buffer of the sources is a list of octets.\<close>

type_synonym bytes = "u8 list"

text \<open>Undefined behaviour that the sources can reach is made a value: the operation traps.\<close>

datatype fault = DivisionByZero | OutOfBounds | NullPointer | NegativeShift | SignedOverflow | SelfJoin | Terminate

type_synonym 'a outcome = "fault + 'a"

text \<open>Sequencing: a trap ends the operation.\<close>

definition and_then :: "'a outcome \<Rightarrow> ('a \<Rightarrow> 'b outcome) \<Rightarrow> 'b outcome" where
  "and_then x f = (case x of Inl e \<Rightarrow> Inl e | Inr a \<Rightarrow> f a)"

lemma and_then_simps [simp]:
  "and_then (Inl e) f = Inl e" "and_then (Inr a) f = f a"
  by (simp_all add: and_then_def)

lemma and_then_eq_Inr: "and_then x f = Inr b \<longleftrightarrow> (\<exists>a. x = Inr a \<and> f a = Inr b)"
  by (cases x) simp_all

text \<open>\<^verbatim>\<open>steady_clock\<close> instants and durations are counted in nanoseconds.\<close>

type_synonym time = int

definition ms :: "int \<Rightarrow> time" where
  "ms k = k * 1000000"

lemma ms_mono [simp]: "ms a \<le> ms b \<longleftrightarrow> a \<le> b" "ms a < ms b \<longleftrightarrow> a < b"
  by (simp_all add: ms_def)

named_theorems layout_simps "sizes and field offsets of the wire structs"
named_theorems inv_intros "preservation of component invariants"

lemma small_less_max [simp]: "0 < (- 1 :: u64)" "1 < (- 1 :: u64)"
  by (simp_all add: word_less_nat_alt unsigned_minus_1_eq_mask mask_eq_exp_minus_1)

section \<open>Little-endian integer fields\<close>

text \<open>
  Integer fields are written by storing the object representation
  (\<^verbatim>\<open>memcpy\<close>, \<^verbatim>\<open>reinterpret_cast\<close>); on the supported little-endian targets the least
  significant octet comes first.
\<close>

lemma unat_less_2p: "unat (w :: 'a::len word) < 2 ^ LENGTH('a)"
  by (rule unsigned_less)

fun le_bytes :: "nat \<Rightarrow> nat \<Rightarrow> bytes" where
  "le_bytes 0 v = []"
| "le_bytes (Suc n) v = word_of_nat (v mod 256) # le_bytes n (v div 256)"

fun le_val :: "bytes \<Rightarrow> nat" where
  "le_val [] = 0"
| "le_val (b # bs) = unat b + 256 * le_val bs"

lemma length_le_bytes [simp]: "length (le_bytes n v) = n"
  by (induction n arbitrary: v) simp_all

lemma le_val_le_bytes: "le_val (le_bytes n v) = v mod 256 ^ n"
proof (induction n arbitrary: v)
  case 0
  then show ?case by simp
next
  case (Suc n)
  have "unat (word_of_nat (v mod 256) :: u8) = v mod 256"
    by (simp add: unat_of_nat)
  then show ?case
    by (simp add: Suc mod_mult2_eq)
qed

lemma le_val_less: "le_val bs < 256 ^ length bs"
proof (induction bs)
  case Nil
  then show ?case by simp
next
  case (Cons b bs)
  have "unat b < 256"
    using unat_less_2p [of b] by simp
  moreover from Cons have "256 * le_val bs + 256 \<le> 256 * 256 ^ length bs"
    by (metis add.commute less_eq_Suc_le mult_Suc_right mult_le_mono2)
  ultimately show ?case by simp
qed

lemma le_bytes_le_val: "le_bytes (length bs) (le_val bs) = bs"
proof (induction bs)
  case Nil
  then show ?case by simp
next
  case (Cons b bs)
  have "unat b < 256"
    using unat_less_2p [of b] by simp
  then have "(unat b + 256 * le_val bs) mod 256 = unat b"
    and "(unat b + 256 * le_val bs) div 256 = le_val bs"
    by simp_all
  then show ?case using Cons by simp
qed

definition put_u16 :: "u16 \<Rightarrow> bytes" where "put_u16 w = le_bytes 2 (unat w)"
definition put_u32 :: "u32 \<Rightarrow> bytes" where "put_u32 w = le_bytes 4 (unat w)"
definition put_u64 :: "u64 \<Rightarrow> bytes" where "put_u64 w = le_bytes 8 (unat w)"

definition get_u16 :: "bytes \<Rightarrow> u16" where "get_u16 bs = word_of_nat (le_val (take 2 bs))"
definition get_u32 :: "bytes \<Rightarrow> u32" where "get_u32 bs = word_of_nat (le_val (take 4 bs))"
definition get_u64 :: "bytes \<Rightarrow> u64" where "get_u64 bs = word_of_nat (le_val (take 8 bs))"

lemma length_put [simp]:
  "length (put_u16 a) = 2" "length (put_u32 b) = 4" "length (put_u64 c) = 8"
  by (simp_all add: put_u16_def put_u32_def put_u64_def)

lemma get_put_u16 [simp]: "get_u16 (put_u16 w @ r) = w"
proof -
  have "unat w < 256 ^ 2"
    using unat_less_2p [of w] by simp
  then show ?thesis
    by (simp add: get_u16_def put_u16_def le_val_le_bytes)
qed

lemma get_put_u32 [simp]: "get_u32 (put_u32 w @ r) = w"
proof -
  have "unat w < 256 ^ 4"
    using unat_less_2p [of w] by simp
  then show ?thesis
    by (simp add: get_u32_def put_u32_def le_val_le_bytes)
qed

lemma get_put_u64 [simp]: "get_u64 (put_u64 w @ r) = w"
proof -
  have "unat w < 256 ^ 8"
    using unat_less_2p [of w] by simp
  then show ?thesis
    by (simp add: get_u64_def put_u64_def le_val_le_bytes)
qed

lemmas get_put_nil [simp] =
  get_put_u16 [where r = "[]", simplified]
  get_put_u32 [where r = "[]", simplified]
  get_put_u64 [where r = "[]", simplified]

text \<open>Reading a field depends only on its own octets.\<close>

lemma get_append [simp]:
  "2 \<le> length bs \<Longrightarrow> get_u16 (bs @ r) = get_u16 bs"
  "4 \<le> length bs \<Longrightarrow> get_u32 (bs @ r) = get_u32 bs"
  "8 \<le> length bs \<Longrightarrow> get_u64 (bs @ r) = get_u64 bs"
  by (simp_all add: get_u16_def get_u32_def get_u64_def)

text \<open>A 16-bit length field of a container shorter than 65536 octets loses nothing.\<close>

lemma unat_word16_length [simp]: "n < 65536 \<Longrightarrow> unat (word_of_nat n :: u16) = n"
  by (simp add: unat_of_nat)

lemma unat_word8_small [simp]: "n < 256 \<Longrightarrow> unat (word_of_nat n :: u8) = n"
  by (simp add: unat_of_nat)

section \<open>Arrays of 64-bit fields\<close>

definition put_u64s :: "u64 list \<Rightarrow> bytes" where
  "put_u64s ws = concat (map put_u64 ws)"

fun get_u64s :: "nat \<Rightarrow> bytes \<Rightarrow> u64 list" where
  "get_u64s 0 bs = []"
| "get_u64s (Suc n) bs = get_u64 bs # get_u64s n (drop 8 bs)"

lemma length_put_u64s [simp]: "length (put_u64s ws) = 8 * length ws"
  by (induction ws) (simp_all add: put_u64s_def)

lemma get_put_u64s [simp]: "get_u64s (length ws) (put_u64s ws @ r) = ws"
  by (induction ws) (simp_all add: put_u64s_def)

lemma get_u64s_append [simp]:
  "8 * n \<le> length bs \<Longrightarrow> get_u64s n (bs @ r) = get_u64s n bs"
proof (induction n arbitrary: bs)
  case 0
  then show ?case by simp
next
  case (Suc n)
  then have "8 \<le> length bs" and "8 * n \<le> length (drop 8 bs)" by simp_all
  with Suc.IH [of "drop 8 bs"] show ?case by simp
qed

section \<open>Ordered maps\<close>

text \<open>
  \<^verbatim>\<open>std::map\<close> keeps its entries sorted by key; iteration, \<^verbatim>\<open>begin()\<close> and
  \<^verbatim>\<open>std::prev(end())\<close> follow that order. \<open>omap_try_emplace\<close> is \<^verbatim>\<open>try_emplace\<close>: an existing
  entry is left as it is.
\<close>

type_synonym ('k, 'v) omap = "('k \<times> 'v) list"

definition omap_ok :: "('k::linorder, 'v) omap \<Rightarrow> bool" where
  "omap_ok m \<longleftrightarrow> sorted_wrt (<) (map fst m)"

fun omap_try_emplace :: "'k::linorder \<Rightarrow> 'v \<Rightarrow> ('k, 'v) omap \<Rightarrow> ('k, 'v) omap" where
  "omap_try_emplace k v [] = [(k, v)]"
| "omap_try_emplace k v ((a, b) # m) =
     (if k < a then (k, v) # (a, b) # m
      else if k = a then (a, b) # m
      else (a, b) # omap_try_emplace k v m)"

definition omap_erase :: "'k \<Rightarrow> ('k, 'v) omap \<Rightarrow> ('k, 'v) omap" where
  "omap_erase k m = filter (\<lambda>p. fst p \<noteq> k) m"

lemma set_try_emplace:
  "fst ` set (omap_try_emplace k v m) = insert k (fst ` set m)"
  by (induction m rule: omap_try_emplace.induct) auto

lemma omap_ok_Nil [simp, intro]: "omap_ok []"
  by (simp add: omap_ok_def)

lemma omap_ok_try_emplace [intro, inv_intros]: "omap_ok m \<Longrightarrow> omap_ok (omap_try_emplace k v m)"
proof (induction k v m rule: omap_try_emplace.induct)
  case (1 k v)
  then show ?case by (simp add: omap_ok_def)
next
  case (2 k v a b m)
  then have keys: "\<forall>x \<in> fst ` set m. a < x" and "omap_ok m"
    by (auto simp: omap_ok_def)
  consider "k < a" | "k = a" | "a < k" by force
  then show ?case
  proof cases
    case 1
    with 2 keys show ?thesis by (auto simp: omap_ok_def)
  next
    case 2
    with \<open>omap_ok ((a, b) # m)\<close> show ?thesis by simp
  next
    case 3
    with 2 \<open>omap_ok m\<close> have "omap_ok (omap_try_emplace k v m)" by auto
    moreover from 3 keys have "\<forall>x \<in> fst ` set (omap_try_emplace k v m). a < x"
      by (auto simp: set_try_emplace)
    ultimately show ?thesis using 3 by (auto simp: omap_ok_def)
  qed
qed

lemma sorted_wrt_map_filter: "sorted_wrt P (map f m) \<Longrightarrow> sorted_wrt P (map f (filter Q m))"
  by (induction m) auto

lemma omap_ok_erase [intro, inv_intros]: "omap_ok m \<Longrightarrow> omap_ok (omap_erase k m)"
  by (simp add: omap_ok_def omap_erase_def sorted_wrt_map_filter)

lemma map_of_omap_erase [simp]: "map_of (omap_erase k m) = (map_of m)(k := None)"
  by (induction m) (auto simp: omap_erase_def fun_eq_iff)

lemma map_of_try_emplace:
  "omap_ok m \<Longrightarrow>
   map_of (omap_try_emplace k v m) = (if k \<in> dom (map_of m) then map_of m else (map_of m)(k \<mapsto> v))"
proof (induction k v m rule: omap_try_emplace.induct)
  case (1 k v)
  then show ?case by simp
next
  case (2 k v a b m)
  then have keys: "\<forall>x \<in> fst ` set m. a < x" and ok: "omap_ok m"
    by (auto simp: omap_ok_def)
  then have "k < a \<Longrightarrow> map_of m k = None"
    by (metis map_of_eq_None_iff order.asym)
  with 2 ok show ?case
    by (auto simp: fun_eq_iff dom_def split: if_splits)
qed

lemma fst_set_omap_erase [simp]: "fst ` set (omap_erase k m) = fst ` set m - {k}"
  by (auto simp: omap_erase_def)

lemma length_omap_erase_less: "map_of m k = Some v \<Longrightarrow> length (omap_erase k m) < length m"
proof -
  assume "map_of m k = Some v"
  then have "(k, v) \<in> set m" by (rule map_of_SomeD)
  then have "length (filter (\<lambda>p. fst p \<noteq> k) m) < length m"
    by (rule length_filter_less) simp
  then show ?thesis by (simp add: omap_erase_def)
qed

lemma omap_ok_hd_min: "omap_ok m \<Longrightarrow> m \<noteq> [] \<Longrightarrow> k \<in> fst ` set m \<Longrightarrow> fst (hd m) \<le> k"
  by (cases m) (auto simp: omap_ok_def)

lemma omap_ok_last_max: "omap_ok m \<Longrightarrow> m \<noteq> [] \<Longrightarrow> k \<in> fst ` set m \<Longrightarrow> k \<le> fst (last m)"
proof (induction m)
  case Nil
  then show ?case by simp
next
  case (Cons p m)
  show ?case
  proof (cases "m = []")
    case True
    with Cons.prems show ?thesis by simp
  next
    case False
    then have "last m \<in> set m" by simp
    with Cons.prems(1) have "fst p < fst (last m)" and "omap_ok m"
      by (simp_all add: omap_ok_def)
    with Cons.IH Cons.prems(3) False show ?thesis by auto
  qed
qed

section \<open>Unordered maps\<close>

text \<open>
  \<^verbatim>\<open>std::unordered_map\<close>: an association list with distinct keys, updated and erased by the
  library's \<open>AList.update\<close> and \<open>AList.delete\<close>; the order of entries carries no meaning.
\<close>

type_synonym ('k, 'v) umap = "('k \<times> 'v) list"

abbreviation umap_ok :: "('k, 'v) umap \<Rightarrow> bool" where
  "umap_ok m \<equiv> distinct (map fst m)"

lemmas umap_simps [simp] = update_conv' delete_conv'

section \<open>Lists\<close>

lemma append_eq_longer:
  assumes "xs @ ys = us @ vs" and "length us \<le> length xs"
  obtains zs where "xs = us @ zs" and "zs @ ys = vs"
  using assms by (metis append_eq_append_conv append_eq_append_conv_if append_take_drop_id)

lemma append_eq_shorter:
  assumes "xs @ ys = us @ vs" and "length xs < length us"
  obtains zs where "us = xs @ zs" and "zs \<noteq> []"
  using assms by (metis append_eq_append_conv_if append_take_drop_id append_Nil2 less_irrefl less_imp_le_nat)

lemma mod_wrap: "a < 2 * n \<Longrightarrow> a mod n = (if a < n then a else a - (n :: nat))"
  by (simp add: le_mod_geq)

lemma strict_sorted_distinct: "sorted_wrt (<) (xs :: 'a::linorder list) \<Longrightarrow> distinct xs"
  by (induction xs) auto

end
