(* ===== verification/Vc_Socket.thy ===== *)
theory Vc_Socket
  imports Vc_Prelude
begin

text \<open>
  The socket layer, \<^verbatim>\<open>src/src/common/Socket.cpp\<close> (POSIX branches). The kernel is not part of
  the sources: what a system call answered is an argument, \<open>Inl e\<close> for a return of
  \<open>-1\<close> with \<^verbatim>\<open>errno = e\<close> and \<open>Inr x\<close> for success. The wrappers below decide how
  the rest of the program sees that answer.
\<close>

section \<open>Result codes\<close>

datatype errno = EAGAIN | EWOULDBLOCK | EINTR | EINPROGRESS | ETIMEDOUT | ECONNRESET | EPIPE | EOTHER

definition SOCKET_ERROR_NONE :: int where "SOCKET_ERROR_NONE = 0"
definition SOCKET_ERROR_WOULD_BLOCK :: int where "SOCKET_ERROR_WOULD_BLOCK = -1"
definition SOCKET_ERROR_TIMEOUT :: int where "SOCKET_ERROR_TIMEOUT = -2"
definition SOCKET_ERROR_CLOSED :: int where "SOCKET_ERROR_CLOSED = -3"
definition SOCKET_ERROR_INTERRUPTED :: int where "SOCKET_ERROR_INTERRUPTED = -4"
definition SOCKET_ERROR_OTHER :: int where "SOCKET_ERROR_OTHER = -5"

lemmas socket_codes = SOCKET_ERROR_NONE_def SOCKET_ERROR_WOULD_BLOCK_def SOCKET_ERROR_TIMEOUT_def
  SOCKET_ERROR_CLOSED_def SOCKET_ERROR_INTERRUPTED_def SOCKET_ERROR_OTHER_def

section \<open>Direct non-blocking I/O\<close>

text \<open>\<^verbatim>\<open>send()\<close> answers the number of octets the kernel took.\<close>

definition SendTcpDirect :: "errno + nat \<Rightarrow> int" where
  "SendTcpDirect answer =
     (case answer of
        Inl e \<Rightarrow>
          if e = EAGAIN \<or> e = EWOULDBLOCK then SOCKET_ERROR_WOULD_BLOCK
          else if e = EINTR then SOCKET_ERROR_INTERRUPTED
          else SOCKET_ERROR_CLOSED
      | Inr bytesSent \<Rightarrow> int bytesSent)"

text \<open>\<^verbatim>\<open>recv()\<close> answers the octets it copied; an empty answer is the peer's end of stream.\<close>

definition RecvTcpDirect :: "errno + bytes \<Rightarrow> int \<times> bytes" where
  "RecvTcpDirect answer =
     (case answer of
        Inl e \<Rightarrow>
          (if e = EAGAIN \<or> e = EWOULDBLOCK then SOCKET_ERROR_WOULD_BLOCK
           else if e = EINTR then SOCKET_ERROR_INTERRUPTED
           else SOCKET_ERROR_CLOSED, [])
      | Inr bs \<Rightarrow> if bs = [] then (SOCKET_ERROR_CLOSED, []) else (int (length bs), bs))"

lemma SendTcpDirect_pos: "0 < SendTcpDirect a \<longleftrightarrow> (\<exists>n > 0. a = Inr n)"
  by (auto simp: SendTcpDirect_def socket_codes split: sum.splits)

lemma RecvTcpDirect_pos: "0 < fst (RecvTcpDirect a) \<longleftrightarrow> (\<exists>bs. bs \<noteq> [] \<and> a = Inr bs)"
  by (auto simp: RecvTcpDirect_def socket_codes split: sum.splits)

lemma RecvTcpDirect_bytes: "0 < fst (RecvTcpDirect a) \<Longrightarrow> a = Inr (snd (RecvTcpDirect a))"
  by (auto simp: RecvTcpDirect_def socket_codes split: sum.splits if_splits)

text \<open>
  The classification never produces \<^verbatim>\<open>SOCKET_ERROR_TIMEOUT\<close> or \<^verbatim>\<open>SOCKET_ERROR_OTHER\<close>, and a dead
  connection is never reported as \<^verbatim>\<open>SOCKET_ERROR_WOULD_BLOCK\<close>.
\<close>

lemma RecvTcpDirect_range:
  "fst (RecvTcpDirect a) \<in>
     {SOCKET_ERROR_WOULD_BLOCK, SOCKET_ERROR_INTERRUPTED, SOCKET_ERROR_CLOSED} \<union> {0<..}"
  by (auto simp: RecvTcpDirect_def socket_codes split: sum.splits)

lemma SendTcpDirect_range:
  "SendTcpDirect a \<in>
     {SOCKET_ERROR_WOULD_BLOCK, SOCKET_ERROR_INTERRUPTED, SOCKET_ERROR_CLOSED} \<union> {0..}"
  by (auto simp: SendTcpDirect_def socket_codes split: sum.splits)

text \<open>
  Transient conditions and dead connections are told apart on both directions. A reset,
  broken or timed-out connection is always reported as closed, and would-block is reported
  exactly for the two would-block error numbers.
\<close>

theorem direct_io_classification:
  "(SendTcpDirect x = SOCKET_ERROR_CLOSED \<longleftrightarrow> (\<exists>e. x = Inl e \<and> e \<notin> {EAGAIN, EWOULDBLOCK, EINTR})) \<and>
   (SendTcpDirect x = SOCKET_ERROR_WOULD_BLOCK \<longleftrightarrow> x = Inl EAGAIN \<or> x = Inl EWOULDBLOCK) \<and>
   (fst (RecvTcpDirect y) = SOCKET_ERROR_CLOSED \<longleftrightarrow>
      y = Inr [] \<or> (\<exists>e. y = Inl e \<and> e \<notin> {EAGAIN, EWOULDBLOCK, EINTR})) \<and>
   (fst (RecvTcpDirect y) = SOCKET_ERROR_WOULD_BLOCK \<longleftrightarrow> y = Inl EAGAIN \<or> y = Inl EWOULDBLOCK)"
  by (auto simp: SendTcpDirect_def RecvTcpDirect_def socket_codes split: sum.splits if_splits)

section \<open>Reading a fixed amount\<close>

text \<open>
  \<^verbatim>\<open>RecvTcpDataWithSize\<close> loops over \<^verbatim>\<open>recv()\<close>. The list holds the kernel's successive answers;
  \<open>None\<close> means the call is still blocked when the list ends. The result is the return value
  with the octets placed into the caller's buffer so far.
\<close>

fun RecvTcpDataWithSize :: "(errno + bytes) list \<Rightarrow> nat \<Rightarrow> bytes \<Rightarrow> (int \<times> bytes) option" where
  "RecvTcpDataWithSize answers bytesToRead got =
     (if length got < bytesToRead then
        (case answers of
           [] \<Rightarrow> None
         | Inl e # _ \<Rightarrow> Some (-1, got)
         | Inr bs # rest \<Rightarrow>
             if bs = [] then Some (int (length got), got)
             else RecvTcpDataWithSize rest bytesToRead (got @ bs))
      else Some (int (length got), got))"

declare RecvTcpDataWithSize.simps [simp del]

text \<open>The kernel never returns more octets than it was asked for.\<close>

fun recv_respects :: "bytes list \<Rightarrow> nat \<Rightarrow> bool" where
  "recv_respects [] n = True"
| "recv_respects (c # cs) n = (c \<noteq> [] \<and> length c \<le> n \<and> recv_respects cs (n - length c))"

lemma RecvTcpDataWithSize_chunks:
  "recv_respects cs (n - length got) \<Longrightarrow> length got + length (concat cs) = n \<Longrightarrow>
   RecvTcpDataWithSize (map Inr cs @ rest) n got = Some (int n, got @ concat cs)"
proof (induction cs arbitrary: got)
  case Nil
  then show ?case by (simp add: RecvTcpDataWithSize.simps)
next
  case (Cons c cs)
  from Cons.prems have "length got < n" and "c \<noteq> []" by (cases c; simp)+
  moreover have "RecvTcpDataWithSize (map Inr cs @ rest) n (got @ c) = Some (int n, (got @ c) @ concat cs)"
    using Cons.prems by (intro Cons.IH) auto
  ultimately show ?case by (simp add: RecvTcpDataWithSize.simps [of "Inr c # _"])
qed

end
