(* ===== verification/Uvt_Protocol.thy ===== *)
theory Uvt_Protocol
  imports Vc_Prelude
begin

unbundle bit_operations_syntax

text \<open>
  The UVT framing layer and the bind handshake messages,
  \<^verbatim>\<open>src/src/common/Protocol.h\<close> and \<^verbatim>\<open>Protocol.cpp\<close>: the xor checksum, the datagram frames
  \<^verbatim>\<open>AppendUdpData\<close>/\<^verbatim>\<open>ExtractUdpData\<close>, and the object representations of \<^verbatim>\<open>MsgBind\<close> and
  \<^verbatim>\<open>MsgBindResponse\<close> that client and server exchange.
\<close>

section \<open>Checksum\<close>

fun xor_loop :: "u8 \<Rightarrow> bytes \<Rightarrow> u8" where
  "xor_loop xor_val [] = xor_val"
| "xor_loop xor_val (b # bs) = xor_loop (xor_val XOR b) bs"

text \<open>The buffer and its length are one list here: the first \<open>length\<close> octets are read.\<close>

definition xor_checksum :: "bytes \<Rightarrow> u8" where
  "xor_checksum buffer = xor_loop 0 buffer"

definition validateChecksum :: "bytes \<Rightarrow> u8 \<Rightarrow> bool" where
  "validateChecksum buffer checksum \<longleftrightarrow> xor_checksum buffer = checksum"

lemma xor_loop_acc: "xor_loop a bs = a XOR xor_loop 0 bs"
proof (induction bs arbitrary: a)
  case Nil
  then show ?case by simp
next
  case (Cons b bs)
  have "xor_loop (a XOR b) bs = (a XOR b) XOR xor_loop 0 bs" by (rule Cons)
  also have "\<dots> = a XOR (b XOR xor_loop 0 bs)" by (simp add: ac_simps)
  also have "b XOR xor_loop 0 bs = xor_loop b bs" by (rule Cons [symmetric])
  finally show ?case by simp
qed

lemma xor_checksum_Cons: "xor_checksum (b # bs) = b XOR xor_checksum bs"
  by (simp add: xor_checksum_def xor_loop_acc [of b])

lemma xor_checksum_Nil [simp]: "xor_checksum [] = 0"
  by (simp add: xor_checksum_def)

lemma xor_checksum_append: "xor_checksum (xs @ ys) = xor_checksum xs XOR xor_checksum ys"
  by (induction xs) (simp_all add: xor_checksum_Cons ac_simps)

lemma xor_left_cancel: "(a :: u8) XOR b = a XOR c \<longleftrightarrow> b = c"
  by (metis bit.xor_self bit.xor_left_self)

section \<open>Datagram frames\<close>

text \<open>
  \<^verbatim>\<open>UvtHeader\<close>: a 16-bit size in network byte order, the id and the checksum; four octets, no
  padding. \<^verbatim>\<open>htons\<close> swaps the two octets on a little-endian host, so the size is stored
  most significant octet first.
\<close>

definition htons :: "u16 \<Rightarrow> u16" where
  "htons x = word_of_nat ((unat x mod 256) * 256 + unat x div 256)"

definition ntohs :: "u16 \<Rightarrow> u16" where
  "ntohs x = word_of_nat ((unat x mod 256) * 256 + unat x div 256)"

record UvtHeader =
  uvt_size :: u16
  uvt_id :: u8
  uvt_checksum :: u8

definition HEADER_SIZE :: nat where
  "HEADER_SIZE = 4"

definition UvtHeader_bytes :: "UvtHeader \<Rightarrow> bytes" where
  "UvtHeader_bytes h = put_u16 (uvt_size h) @ [uvt_id h, uvt_checksum h]"

definition UvtHeader_at :: "bytes \<Rightarrow> UvtHeader" where
  "UvtHeader_at bs = \<lparr>uvt_size = get_u16 bs, uvt_id = bs ! 2, uvt_checksum = bs ! 3\<rparr>"

definition AppendUdpData :: "bytes \<Rightarrow> u8 \<Rightarrow> bytes \<Rightarrow> bytes" where
  "AppendUdpData data i outputBuffer =
     (let header = \<lparr>uvt_size = htons (word_of_nat (length data)), uvt_id = i,
                    uvt_checksum = xor_checksum data\<rparr>
      in outputBuffer @ UvtHeader_bytes header @ data)"

text \<open>
  \<^verbatim>\<open>ExtractUdpData\<close> throws on a checksum mismatch; otherwise it returns the octets not yet
  extracted, with the datagram in \<open>outputBuffer\<close> (empty when no full frame is there).
\<close>

datatype uvt_error = ChecksumVerifyFailed

definition ExtractUdpData :: "bytes \<Rightarrow> uvt_error + (bytes \<times> bytes)" where
  "ExtractUdpData data =
     (if length data < HEADER_SIZE then Inr (data, [])
      else let header = UvtHeader_at data;
               messageLength = unat (ntohs (uvt_size header))
           in if HEADER_SIZE + messageLength > length data then Inr (data, [])
              else let messageData = take messageLength (drop HEADER_SIZE data);
                       checksum = xor_checksum messageData
                   in if checksum = uvt_checksum header
                      then Inr (drop (HEADER_SIZE + messageLength) data, messageData)
                      else Inl ChecksumVerifyFailed)"

lemma unat_htons: "unat (htons x) = (unat x mod 256) * 256 + unat x div 256"
proof -
  have "unat x < 256 * 256"
    using unat_less_2p [of x] by simp
  then have "unat x div 256 < 256"
    by (simp add: less_mult_imp_div_less)
  then have "(unat x mod 256) * 256 + unat x div 256 < 65536"
    by (simp add: mod_less_divisor less_eq_Suc_le [symmetric] algebra_simps)
  then show ?thesis
    unfolding htons_def unat_of_nat by simp
qed

lemma ntohs_htons [simp]: "ntohs (htons x) = x"
proof -
  have "unat x < 256 * 256"
    using unat_less_2p [of x] by simp
  then have d: "unat x div 256 < 256"
    by (simp add: less_mult_imp_div_less)
  have "(unat (htons x)) mod 256 = unat x div 256"
    using d by (simp add: unat_htons)
  moreover have "(unat (htons x)) div 256 = unat x mod 256"
    using d by (simp add: unat_htons)
  ultimately show ?thesis by (simp add: ntohs_def)
qed

lemma UvtHeader_at_bytes [simp]: "UvtHeader_at (UvtHeader_bytes h @ r) = h"
  by (simp add: UvtHeader_at_def UvtHeader_bytes_def nth_append)

lemma length_UvtHeader_bytes [simp]: "length (UvtHeader_bytes h) = HEADER_SIZE"
  by (simp add: UvtHeader_bytes_def HEADER_SIZE_def)

lemma drop_UvtHeader [simp]: "drop HEADER_SIZE (UvtHeader_bytes h @ r) = r"
  by simp

text \<open>What a frame decodes to, for every payload length: the header carries the length modulo 65536.\<close>

lemma ExtractUdpData_frame:
  fixes data rest :: bytes
  defines "n \<equiv> length data mod 65536"
  shows "ExtractUdpData (AppendUdpData data i [] @ rest) =
     (if xor_checksum (take n data) = xor_checksum data
      then Inr (drop n data @ rest, take n data) else Inl ChecksumVerifyFailed)"
proof -
  have "n \<le> length data" by (simp add: n_def)
  then show ?thesis
    by (simp add: ExtractUdpData_def AppendUdpData_def Let_def unat_of_nat n_def [symmetric] drop_drop [symmetric]
        del: drop_drop)
qed

section \<open>Bind messages\<close>

text \<open>
  \<^verbatim>\<open>MsgBind\<close> is copied as a whole object: \<^verbatim>\<open>clientId\<close> at offset 0, \<^verbatim>\<open>slotIndex\<close> at 4, three
  padding octets whose contents are unspecified (\<open>pad\<close>), \<^verbatim>\<open>connectionId\<close> at 8. Its size is 12.
  The signed 8-bit \<^verbatim>\<open>slotIndex\<close> is a word read with \<open>sint\<close>.
\<close>

record MsgBind =
  mb_clientId :: u32
  mb_slotIndex :: u8
  mb_connectionId :: u32

definition sizeof_MsgBind :: nat where
  "sizeof_MsgBind = 12"

definition MsgBind_bytes :: "bytes \<Rightarrow> MsgBind \<Rightarrow> bytes" where
  "MsgBind_bytes pad b =
     put_u32 (mb_clientId b) @ [mb_slotIndex b] @ take 3 (pad @ [0, 0, 0]) @ put_u32 (mb_connectionId b)"

definition AppendMsgBind :: "bytes \<Rightarrow> MsgBind \<Rightarrow> bytes \<Rightarrow> bytes" where
  "AppendMsgBind pad b outputBuffer = outputBuffer @ MsgBind_bytes pad b"

definition ExtractMsgBind :: "bytes \<Rightarrow> MsgBind option" where
  "ExtractMsgBind data =
     (if length data < sizeof_MsgBind then None
      else Some \<lparr>mb_clientId = get_u32 data, mb_slotIndex = data ! 4,
                 mb_connectionId = get_u32 (drop 8 data)\<rparr>)"

record MsgBindResponse =
  mbr_connectionId :: u32

definition sizeof_MsgBindResponse :: nat where
  "sizeof_MsgBindResponse = 4"

definition AppendMsgBindResponse :: "MsgBindResponse \<Rightarrow> bytes \<Rightarrow> bytes" where
  "AppendMsgBindResponse r outputBuffer = outputBuffer @ put_u32 (mbr_connectionId r)"

definition ExtractMsgBindResponse :: "bytes \<Rightarrow> MsgBindResponse option" where
  "ExtractMsgBindResponse data =
     (if length data < sizeof_MsgBindResponse then None
      else Some \<lparr>mbr_connectionId = get_u32 data\<rparr>)"

lemma length_MsgBind_bytes [simp]: "length (MsgBind_bytes pad b) = sizeof_MsgBind"
  by (simp add: MsgBind_bytes_def sizeof_MsgBind_def)

lemma MsgBind_fields:
  "get_u32 (MsgBind_bytes pad b @ r) = mb_clientId b"
  "(MsgBind_bytes pad b @ r) ! 4 = mb_slotIndex b"
  "get_u32 (drop 8 (MsgBind_bytes pad b @ r)) = mb_connectionId b"
  by (simp_all add: MsgBind_bytes_def nth_append)

section \<open>Properties\<close>

lemma xor_checksum_update:
  assumes "i < length bs"
  shows "xor_checksum (bs[i := b]) = xor_checksum bs \<longleftrightarrow> b = bs ! i"
proof -
  have split: "bs = take i bs @ bs ! i # drop (Suc i) bs"
    using assms by (rule id_take_nth_drop)
  have "xor_checksum (bs[i := b]) = xor_checksum (take i bs) XOR (b XOR xor_checksum (drop (Suc i) bs))"
    using assms by (simp add: upd_conv_take_nth_drop xor_checksum_append xor_checksum_Cons)
  moreover have "xor_checksum bs = xor_checksum (take i bs) XOR (bs ! i XOR xor_checksum (drop (Suc i) bs))"
    by (subst split) (simp add: xor_checksum_append xor_checksum_Cons del: append_take_drop_id)
  ultimately show ?thesis
    by (simp add: xor_left_cancel) (metis bit.xor_left_self xor.commute)
qed

text \<open>
  C34: a datagram of fewer than 65536 octets survives framing: extracting from a stream that
  starts with its frame yields exactly the datagram and leaves exactly the rest of the stream.
\<close>

theorem uvt_frame_roundtrip:
  assumes "length data < 65536"
  shows "ExtractUdpData (AppendUdpData data i [] @ rest) = Inr (rest, data)"
  using assms by (simp add: ExtractUdpData_frame)

theorem uvt_frame_roundtrip_witness:
  "length [7, 9 :: u8] < 65536 \<and> ExtractUdpData (AppendUdpData [7, 9] 1 [] @ [5]) = Inr ([5], [7, 9])"
  using uvt_frame_roundtrip [of "[7, 9]" 1 "[5]"] by simp

text \<open>
  C35: changing any single payload octet of a frame in transit is always detected: extraction
  throws instead of delivering the corrupted datagram.
\<close>

theorem uvt_corruption_detected:
  assumes "length data < 65536" and "k < length data" and "b \<noteq> data ! k"
  shows "ExtractUdpData ((AppendUdpData data i [])[HEADER_SIZE + k := b] @ rest) = Inl ChecksumVerifyFailed"
proof -
  let ?h = "\<lparr>uvt_size = htons (word_of_nat (length data)), uvt_id = i, uvt_checksum = xor_checksum data\<rparr>"
  have frame: "(AppendUdpData data i [])[HEADER_SIZE + k := b] = UvtHeader_bytes ?h @ data[k := b]"
    by (simp add: AppendUdpData_def Let_def list_update_append)
  show ?thesis
    unfolding frame using assms xor_checksum_update [of k data b]
    by (simp add: ExtractUdpData_def Let_def)
qed

theorem uvt_corruption_detected_witness:
  "ExtractUdpData ((AppendUdpData [7, 9] 1 [])[HEADER_SIZE + 1 := 8] @ [5]) = Inl ChecksumVerifyFailed"
  using uvt_corruption_detected [of "[7, 9]" 1 8 1 "[5]"] by simp

text \<open>
  A bind message is recovered unchanged on the other side, whatever the padding octets of
  the sender's object and whatever follows it in the stream.
\<close>

theorem msg_bind_roundtrip:
  "ExtractMsgBind (AppendMsgBind pad b [] @ rest) = Some b"
  by (simp add: ExtractMsgBind_def AppendMsgBind_def MsgBind_fields del: drop_append)

lemma msg_bind_response_roundtrip:
  "ExtractMsgBindResponse (AppendMsgBindResponse r [] @ rest) = Some r"
  by (simp add: ExtractMsgBindResponse_def AppendMsgBindResponse_def sizeof_MsgBindResponse_def)

end
