(* ===== verification/Vc_Protocol.thy ===== *)
theory Vc_Protocol
  imports Vc_Prelude
begin

text \<open>
  The virtual-channel wire format, \<^verbatim>\<open>src/src/common/VcProtocol.h\<close>. All structs are packed to one
  octet, so a struct's object representation is the concatenation of its fields. Constants
  keep their source names; connection indices are C++ \<^verbatim>\<open>int\<close>s.
\<close>

section \<open>Packet types and sizes\<close>

datatype VcPacketType = DATA | RESEND_REQUEST | RESEND_RESPONSE | MISSING_NOTIFY

fun type_code :: "VcPacketType \<Rightarrow> u8" where
  "type_code DATA = 0"
| "type_code RESEND_REQUEST = 1"
| "type_code RESEND_RESPONSE = 2"
| "type_code MISSING_NOTIFY = 3"

record VCHeader =
  hdr_type :: VcPacketType
  hdr_messageId :: u64

definition sizeof_VCHeader :: nat where "sizeof_VCHeader = 9"
definition sizeof_VCDataPacket :: nat where "sizeof_VCDataPacket = 11"
definition sizeof_VCResendRequest :: nat where "sizeof_VCResendRequest = 17"
definition sizeof_VCResendResponse :: nat where "sizeof_VCResendResponse = 11"

definition VC_MAX_MISSING_IDS_PER_NOTIFY :: nat where "VC_MAX_MISSING_IDS_PER_NOTIFY = 64"

definition sizeof_VCMissingNotify :: nat where
  "sizeof_VCMissingNotify = sizeof_VCHeader + 1 + VC_MAX_MISSING_IDS_PER_NOTIFY * 8"

definition VC_MIN_DATA_PACKET_SIZE :: nat where "VC_MIN_DATA_PACKET_SIZE = sizeof_VCDataPacket"
definition VC_MIN_RESEND_REQUEST_SIZE :: nat where "VC_MIN_RESEND_REQUEST_SIZE = sizeof_VCResendRequest"
definition VC_MIN_MISSING_NOTIFY_SIZE :: nat where "VC_MIN_MISSING_NOTIFY_SIZE = sizeof_VCMissingNotify"
definition VC_MAX_DATA_PAYLOAD_SIZE :: nat where "VC_MAX_DATA_PAYLOAD_SIZE = 2000"
definition VC_TCP_CONNECTIONS :: nat where "VC_TCP_CONNECTIONS = 32"
definition VC_RESEND_CONN_COUNT :: nat where "VC_RESEND_CONN_COUNT = 8"

definition VC_FIRST_RESEND_CONN_INDEX :: nat where
  "VC_FIRST_RESEND_CONN_INDEX = VC_TCP_CONNECTIONS - VC_RESEND_CONN_COUNT"

definition SEND_QUEUE_DROP_THRESHOLD :: nat where "SEND_QUEUE_DROP_THRESHOLD = 1000"

definition IsResendConnectionIndex :: "int \<Rightarrow> bool" where
  "IsResendConnectionIndex index \<longleftrightarrow>
     int VC_FIRST_RESEND_CONN_INDEX \<le> index \<and> index < int VC_TCP_CONNECTIONS"

lemmas vc_sizes [layout_simps] = sizeof_VCHeader_def sizeof_VCDataPacket_def sizeof_VCResendRequest_def
  sizeof_VCResendResponse_def sizeof_VCMissingNotify_def VC_MAX_MISSING_IDS_PER_NOTIFY_def
  VC_MIN_DATA_PACKET_SIZE_def VC_MIN_RESEND_REQUEST_SIZE_def VC_MIN_MISSING_NOTIFY_SIZE_def
  VC_MAX_DATA_PAYLOAD_SIZE_def

section \<open>Object representations\<close>

definition VCHeader_bytes :: "VCHeader \<Rightarrow> bytes" where
  "VCHeader_bytes h = type_code (hdr_type h) # put_u64 (hdr_messageId h)"

text \<open>\<^verbatim>\<open>dataLength\<close> is the payload size cast to 16 bits.\<close>

definition VCDataPacket_bytes :: "u64 \<Rightarrow> bytes \<Rightarrow> bytes" where
  "VCDataPacket_bytes messageId data =
     VCHeader_bytes \<lparr>hdr_type = DATA, hdr_messageId = messageId\<rparr>
       @ put_u16 (word_of_nat (length data)) @ data"

definition VCResendRequest_bytes :: "u64 \<Rightarrow> u64 \<Rightarrow> bytes" where
  "VCResendRequest_bytes messageId missingMessageId =
     VCHeader_bytes \<lparr>hdr_type = RESEND_REQUEST, hdr_messageId = messageId\<rparr> @ put_u64 missingMessageId"

text \<open>The id array of \<^verbatim>\<open>VCMissingNotify\<close> goes on the wire only up to \<^verbatim>\<open>count\<close>.\<close>

definition VCMissingNotify_bytes :: "u64 list \<Rightarrow> bytes" where
  "VCMissingNotify_bytes missingIds =
     VCHeader_bytes \<lparr>hdr_type = MISSING_NOTIFY, hdr_messageId = 0\<rparr>
       @ word_of_nat (length missingIds) # put_u64s missingIds"

text \<open>Reading the fields back through a pointer to the start of a packet.\<close>

definition pkt_type_octet :: "bytes \<Rightarrow> u8" where "pkt_type_octet b = b ! 0"
definition pkt_messageId :: "bytes \<Rightarrow> u64" where "pkt_messageId b = get_u64 (drop 1 b)"
definition pkt_dataLength :: "bytes \<Rightarrow> nat" where "pkt_dataLength b = unat (get_u16 (drop 9 b))"
definition pkt_data :: "bytes \<Rightarrow> bytes" where "pkt_data b = drop 11 b"
definition pkt_missingMessageId :: "bytes \<Rightarrow> u64" where "pkt_missingMessageId b = get_u64 (drop 9 b)"
definition pkt_count :: "bytes \<Rightarrow> nat" where "pkt_count b = unat (b ! 9)"
definition pkt_missingIds :: "bytes \<Rightarrow> u64 list" where "pkt_missingIds b = get_u64s (pkt_count b) (drop 10 b)"

lemmas pkt_defs = pkt_type_octet_def pkt_messageId_def pkt_dataLength_def pkt_data_def
  pkt_missingMessageId_def pkt_count_def pkt_missingIds_def

lemma length_packets [simp]:
  "length (VCHeader_bytes h) = 9"
  "length (VCDataPacket_bytes m d) = 11 + length d"
  "length (VCResendRequest_bytes m r) = 17"
  "length (VCMissingNotify_bytes ids) = 10 + 8 * length ids"
  by (simp_all add: VCHeader_bytes_def VCDataPacket_bytes_def VCResendRequest_bytes_def
      VCMissingNotify_bytes_def)

lemma pkt_VCDataPacket [simp]:
  "pkt_type_octet (VCDataPacket_bytes m d @ r) = 0"
  "pkt_messageId (VCDataPacket_bytes m d @ r) = m"
  "length d < 65536 \<Longrightarrow> pkt_dataLength (VCDataPacket_bytes m d @ r) = length d"
  "pkt_data (VCDataPacket_bytes m d @ r) = d @ r"
  by (simp_all add: pkt_defs VCDataPacket_bytes_def VCHeader_bytes_def)

lemma pkt_VCResendRequest [simp]:
  "pkt_type_octet (VCResendRequest_bytes m x @ r) = 1"
  "pkt_missingMessageId (VCResendRequest_bytes m x @ r) = x"
  by (simp_all add: pkt_defs VCResendRequest_bytes_def VCHeader_bytes_def)

lemma pkt_VCMissingNotify [simp]:
  "pkt_type_octet (VCMissingNotify_bytes ids @ r) = 3"
  "length ids < 256 \<Longrightarrow> pkt_count (VCMissingNotify_bytes ids @ r) = length ids"
  "length ids < 256 \<Longrightarrow> pkt_missingIds (VCMissingNotify_bytes ids @ r) = ids"
  by (simp_all add: pkt_defs VCMissingNotify_bytes_def VCHeader_bytes_def nth_append)

lemmas pkt_VC_nil [simp] =
  pkt_VCDataPacket [where r = "[]", simplified]
  pkt_VCResendRequest [where r = "[]", simplified]
  pkt_VCMissingNotify [where r = "[]", simplified]

text \<open>Each field depends only on its own octets.\<close>

lemma pkt_append [simp]:
  "1 \<le> length b \<Longrightarrow> pkt_type_octet (b @ r) = pkt_type_octet b"
  "9 \<le> length b \<Longrightarrow> pkt_messageId (b @ r) = pkt_messageId b"
  "11 \<le> length b \<Longrightarrow> pkt_dataLength (b @ r) = pkt_dataLength b"
  "17 \<le> length b \<Longrightarrow> pkt_missingMessageId (b @ r) = pkt_missingMessageId b"
  "10 \<le> length b \<Longrightarrow> pkt_count (b @ r) = pkt_count b"
  "11 \<le> length b \<Longrightarrow> pkt_data (b @ r) = pkt_data b @ r"
  by (auto simp: pkt_defs nth_append)

section \<open>Packets\<close>

text \<open>
  What a conforming sender puts on the wire: payloads within \<^verbatim>\<open>VC_MAX_DATA_PAYLOAD_SIZE\<close>,
  notifications with 1 to 64 ids.
\<close>

datatype vc_packet = PData u64 bytes | PResendRequest u64 u64 | PMissingNotify "u64 list"

fun packet_bytes :: "vc_packet \<Rightarrow> bytes" where
  "packet_bytes (PData m d) = VCDataPacket_bytes m d"
| "packet_bytes (PResendRequest m x) = VCResendRequest_bytes m x"
| "packet_bytes (PMissingNotify ids) = VCMissingNotify_bytes ids"

fun packet_ok :: "vc_packet \<Rightarrow> bool" where
  "packet_ok (PData m d) \<longleftrightarrow> length d \<le> VC_MAX_DATA_PAYLOAD_SIZE"
| "packet_ok (PResendRequest m x) \<longleftrightarrow> True"
| "packet_ok (PMissingNotify ids) \<longleftrightarrow> 0 < length ids \<and> length ids \<le> VC_MAX_MISSING_IDS_PER_NOTIFY"

abbreviation stream_bytes :: "vc_packet list \<Rightarrow> bytes" where
  "stream_bytes ps \<equiv> concat (map packet_bytes ps)"

lemma packet_bytes_min: "packet_ok p \<Longrightarrow> VC_MIN_DATA_PACKET_SIZE \<le> length (packet_bytes p)"
  by (cases p) (auto simp: layout_simps Suc_le_eq)

end
