(* ===== verification/Io_Parser.thy ===== *)
theory Io_Parser
  imports Vc_Protocol Vc_Socket
begin

text \<open>
  The receive path of one connection, \<^verbatim>\<open>TcpVCIoThread::readFromConnection\<close> and its
  \<^verbatim>\<open>ReadBuffer\<close> (\<^verbatim>\<open>src/src/common/TcpVCIoThread.h\<close>, \<^verbatim>\<open>TcpVCIoThread.cpp\<close>): draining the socket,
  the offset-and-compaction read buffer, and the packet loop. Callback invocations are
  returned as events in the order the code makes them; none of them touches the buffer.
\<close>

section \<open>The read buffer\<close>

record ReadBuffer =
  rb_data :: bytes
  rb_readOffset :: nat

definition empty_ReadBuffer :: ReadBuffer where
  "empty_ReadBuffer = \<lparr>rb_data = [], rb_readOffset = 0\<rparr>"

definition available :: "ReadBuffer \<Rightarrow> nat" where
  "available rb = length (rb_data rb) - rb_readOffset rb"

text \<open>The octets from \<^verbatim>\<open>begin()\<close> to the end of the vector.\<close>

definition rb_begin :: "ReadBuffer \<Rightarrow> bytes" where
  "rb_begin rb = drop (rb_readOffset rb) (rb_data rb)"

definition consume :: "nat \<Rightarrow> ReadBuffer \<Rightarrow> ReadBuffer" where
  "consume n rb =
     (let off = rb_readOffset rb + n
      in if off > 4096 \<and> off \<ge> length (rb_data rb) div 2
         then \<lparr>rb_data = drop off (rb_data rb), rb_readOffset = 0\<rparr>
         else rb\<lparr>rb_readOffset := off\<rparr>)"

definition rb_ok :: "ReadBuffer \<Rightarrow> bool" where
  "rb_ok rb \<longleftrightarrow> rb_readOffset rb \<le> length (rb_data rb)"

lemma length_rb_begin [simp]: "length (rb_begin rb) = available rb"
  by (simp add: rb_begin_def available_def)

lemma rb_ok_empty [simp, inv_intros]: "rb_ok empty_ReadBuffer"
  by (simp add: rb_ok_def empty_ReadBuffer_def)

lemma rb_begin_empty [simp]: "rb_begin empty_ReadBuffer = []"
  by (simp add: rb_begin_def empty_ReadBuffer_def)

lemma rb_ok_consume [inv_intros]: "rb_ok rb \<Longrightarrow> n \<le> available rb \<Longrightarrow> rb_ok (consume n rb)"
  by (auto simp: rb_ok_def consume_def available_def Let_def)

lemma rb_begin_consume [simp]: "rb_begin (consume n rb) = drop n (rb_begin rb)"
  by (simp add: consume_def rb_begin_def Let_def add.commute)

lemma available_consume [simp]: "available (consume n rb) = available rb - n"
  by (metis length_drop length_rb_begin rb_begin_consume)

lemma rb_begin_append [simp]:
  "rb_ok rb \<Longrightarrow> rb_begin (rb\<lparr>rb_data := rb_data rb @ bs\<rparr>) = rb_begin rb @ bs"
  by (simp add: rb_begin_def rb_ok_def)

section \<open>Packet loop\<close>

datatype io_event =
    DataCallback u64 bytes int
  | ResendRequestCallback u64
  | MissingNotifyCallback "u64 list"
  | ConnectionClosed

datatype 'b parse_result = Return 'b | Handled io_event 'b

text \<open>One iteration of the \<^verbatim>\<open>while\<close> loop: the body of the \<^verbatim>\<open>switch\<close>.\<close>

definition parse_switch :: "int \<Rightarrow> ReadBuffer \<Rightarrow> ReadBuffer parse_result" where
  "parse_switch connIndex rb =
     (let b = rb_begin rb; packetType = pkt_type_octet b
      in if packetType = type_code DATA then
           (if available rb < sizeof_VCDataPacket then Return rb
            else if pkt_dataLength b > VC_MAX_DATA_PAYLOAD_SIZE then Return rb
            else let totalSize = sizeof_VCDataPacket + pkt_dataLength b
                 in if available rb < totalSize then Return rb
                    else Handled (DataCallback (pkt_messageId b) (take (pkt_dataLength b) (pkt_data b)) connIndex)
                           (consume totalSize rb))
         else if packetType = type_code RESEND_REQUEST then
           (if available rb < sizeof_VCResendRequest then Return rb
            else Handled (ResendRequestCallback (pkt_missingMessageId b)) (consume sizeof_VCResendRequest rb))
         else if packetType = type_code MISSING_NOTIFY then
           (if available rb < sizeof_VCHeader + 1 then Return rb
            else if pkt_count b > VC_MAX_MISSING_IDS_PER_NOTIFY then Return empty_ReadBuffer
            else let expectedSize = sizeof_VCHeader + 1 + pkt_count b * 8
                 in if available rb < expectedSize then Return rb
                    else Handled (MissingNotifyCallback (pkt_missingIds b)) (consume expectedSize rb))
         else Return empty_ReadBuffer)"

lemma parse_switch_shrinks:
  "parse_switch ci rb = Handled e rb' \<Longrightarrow> VC_MIN_DATA_PACKET_SIZE \<le> available rb \<Longrightarrow> available rb' < available rb"
  by (auto simp: parse_switch_def Let_def layout_simps split: if_splits)

function parse_packets :: "int \<Rightarrow> ReadBuffer \<Rightarrow> io_event list \<times> ReadBuffer" where
  "parse_packets connIndex rb =
     (if available rb \<ge> VC_MIN_DATA_PACKET_SIZE then
        (case parse_switch connIndex rb of
           Return rb' \<Rightarrow> ([], rb')
         | Handled e rb' \<Rightarrow>
             let (es, rb'') = parse_packets connIndex rb' in (e # es, rb''))
      else ([], rb))"
  by pat_completeness auto
termination
  by (relation "measure (\<lambda>(ci, rb). available rb)") (auto dest: parse_switch_shrinks)

declare parse_packets.simps [simp del]

section \<open>Draining the socket\<close>

text \<open>
  The list holds the answers of the successive \<^verbatim>\<open>recv\<close> calls made while \<^verbatim>\<open>isRunning()\<close> holds; its
  end is the iteration at which \<^verbatim>\<open>isRunning()\<close> is false. The flag says that the connection was
  found closed (or failed), which ends the call.
\<close>

fun drain_socket :: "(errno + bytes) list \<Rightarrow> ReadBuffer \<Rightarrow> bool \<times> ReadBuffer" where
  "drain_socket [] rb = (False, rb)"
| "drain_socket (a # answers) rb =
     (let (n, temp) = RecvTcpDirect a
      in if n > 0 then drain_socket answers (rb\<lparr>rb_data := rb_data rb @ temp\<rparr>)
         else if n = SOCKET_ERROR_CLOSED then (True, rb)
         else if n = SOCKET_ERROR_WOULD_BLOCK \<or> n = SOCKET_ERROR_TIMEOUT \<or> n = SOCKET_ERROR_INTERRUPTED
         then (False, rb)
         else (True, rb))"

text \<open>
  \<open>ConnectionClosed\<close> stands for \<^verbatim>\<open>conn->disconnect()\<close> followed by the disconnect callback.
\<close>

definition readFromConnection ::
  "bool \<Rightarrow> (errno + bytes) list \<Rightarrow> int \<Rightarrow> ReadBuffer \<Rightarrow> io_event list \<times> ReadBuffer" where
  "readFromConnection connected answers connIndex rb =
     (if \<not> connected then ([], rb)
      else let (closed, rb1) = drain_socket answers rb
           in if closed then ([ConnectionClosed], rb1) else parse_packets connIndex rb1)"

section \<open>Reference parser on plain octets\<close>

text \<open>
  The same loop on the sequence of unread octets, without offset and compaction. It is the
  specification the buffer implementation is compared with.
\<close>

definition spec_switch :: "int \<Rightarrow> bytes \<Rightarrow> bytes parse_result" where
  "spec_switch ci b =
     (if pkt_type_octet b = 0 then
        (if VC_MAX_DATA_PAYLOAD_SIZE < pkt_dataLength b \<or> length b < 11 + pkt_dataLength b then Return b
         else Handled (DataCallback (pkt_messageId b) (take (pkt_dataLength b) (pkt_data b)) ci)
                (drop (11 + pkt_dataLength b) b))
      else if pkt_type_octet b = 1 then
        (if length b < 17 then Return b
         else Handled (ResendRequestCallback (pkt_missingMessageId b)) (drop 17 b))
      else if pkt_type_octet b = 3 then
        (if 64 < pkt_count b then Return []
         else if length b < 10 + 8 * pkt_count b then Return b
         else Handled (MissingNotifyCallback (pkt_missingIds b)) (drop (10 + 8 * pkt_count b) b))
      else Return [])"

function spec_parse :: "int \<Rightarrow> bytes \<Rightarrow> io_event list \<times> bytes" where
  "spec_parse ci b =
     (if 11 \<le> length b then
        (case spec_switch ci b of
           Return b' \<Rightarrow> ([], b')
         | Handled e b' \<Rightarrow> let (es, b'') = spec_parse ci b' in (e # es, b''))
      else ([], b))"
  by pat_completeness auto
termination
  by (relation "measure (\<lambda>(ci, b). length b)") (auto simp: spec_switch_def split: if_splits)

declare spec_parse.simps [simp del]

lemma parse_switch_spec:
  assumes "rb_ok rb" and "11 \<le> available rb"
  shows "case parse_switch ci rb of
           Return rb' \<Rightarrow> rb_ok rb' \<and> spec_switch ci (rb_begin rb) = Return (rb_begin rb')
         | Handled e rb' \<Rightarrow> rb_ok rb' \<and> spec_switch ci (rb_begin rb) = Handled e (rb_begin rb')"
  using assms
  by (auto simp: parse_switch_def spec_switch_def Let_def layout_simps mult.commute intro!: rb_ok_consume)

lemma parse_packets_refines_spec:
  assumes "rb_ok rb"
  shows "rb_ok (snd (parse_packets ci rb)) \<and>
     spec_parse ci (rb_begin rb) = map_prod id rb_begin (parse_packets ci rb)"
  using assms
proof (induction ci rb rule: parse_packets.induct)
  case (1 ci rb)
  show ?case
  proof (cases "11 \<le> available rb")
    case False
    with 1 show ?thesis
      by (simp add: parse_packets.simps [of ci rb] spec_parse.simps [of ci "rb_begin rb"] layout_simps)
  next
    case True
    then have guard: "VC_MIN_DATA_PACKET_SIZE \<le> available rb" by (simp add: layout_simps)
    note step = parse_switch_spec [OF 1(2) True, of ci]
    show ?thesis
    proof (cases "parse_switch ci rb")
      case (Return rb')
      with step True guard show ?thesis
        by (simp add: parse_packets.simps [of ci rb] spec_parse.simps [of ci "rb_begin rb"])
    next
      case (Handled e rb')
      with step have ok: "rb_ok rb'" and sw: "spec_switch ci (rb_begin rb) = Handled e (rb_begin rb')"
        by simp_all
      from 1(1) [OF guard Handled ok] show ?thesis
        using True guard Handled sw
        by (auto simp: parse_packets.simps [of ci rb] spec_parse.simps [of ci "rb_begin rb"]
            split: prod.splits)
    qed
  qed
qed

section \<open>Streams of packets\<close>

fun packet_event :: "int \<Rightarrow> vc_packet \<Rightarrow> io_event" where
  "packet_event ci (PData m d) = DataCallback m d ci"
| "packet_event ci (PResendRequest m x) = ResendRequestCallback x"
| "packet_event ci (PMissingNotify ids) = MissingNotifyCallback ids"

lemma spec_switch_packet:
  "packet_ok p \<Longrightarrow> spec_switch ci (packet_bytes p @ r) = Handled (packet_event ci p) r"
  by (cases p) (auto simp: spec_switch_def layout_simps)

lemma spec_switch_strict_prefix:
  assumes "packet_ok p" and eq: "packet_bytes p = b @ x" and "x \<noteq> []" and len: "11 \<le> length b"
  shows "spec_switch ci b = Return b"
proof -
  have longer: "length b < length (packet_bytes p)" using assms by simp
  have "pkt_type_octet b = pkt_type_octet (packet_bytes p)" "pkt_dataLength b = pkt_dataLength (packet_bytes p)"
    "pkt_count b = pkt_count (packet_bytes p)"
    unfolding eq using len by simp_all
  with longer \<open>packet_ok p\<close> show ?thesis
    by (cases p) (auto simp: spec_switch_def layout_simps)
qed

text \<open>
  Parsing a prefix of a well-formed stream handles exactly the packets that lie completely
  inside the prefix and keeps the octets of the next one.
\<close>

lemma spec_parse_stream:
  assumes "list_all packet_ok ps" and "b @ later = stream_bytes ps"
  shows "\<exists>ps1 ps2 r. ps = ps1 @ ps2 \<and> spec_parse ci b = (map (packet_event ci) ps1, r) \<and>
     r @ later = stream_bytes ps2 \<and> (ps2 \<noteq> [] \<longrightarrow> length r < length (packet_bytes (hd ps2)))"
  using assms
proof (induction ps arbitrary: b)
  case Nil
  then show ?case by (simp add: spec_parse.simps [of ci "[]"])
next
  case (Cons p ps)
  then have p: "packet_ok p" and ps: "list_all packet_ok ps"
    and eq: "b @ later = packet_bytes p @ stream_bytes ps" by simp_all
  have min: "11 \<le> length (packet_bytes p)" using packet_bytes_min [OF p] by (simp add: layout_simps)
  show ?case
  proof (cases "length (packet_bytes p) \<le> length b")
    case True
    with eq obtain b' where b: "b = packet_bytes p @ b'" and rest: "b' @ later = stream_bytes ps"
      by (rule append_eq_longer)
    from Cons.IH [OF ps rest] obtain ps1 ps2 r where IH: "ps = ps1 @ ps2"
      "spec_parse ci b' = (map (packet_event ci) ps1, r)" "r @ later = stream_bytes ps2"
      "ps2 \<noteq> [] \<longrightarrow> length r < length (packet_bytes (hd ps2))" by blast
    have "spec_parse ci b = (map (packet_event ci) (p # ps1), r)"
      using IH(2) min p by (simp add: b spec_parse.simps [of ci "packet_bytes p @ b'"] spec_switch_packet)
    with IH show ?thesis by (intro exI [of _ "p # ps1"] exI [of _ ps2] exI [of _ r]) simp
  next
    case False
    then have "length b < length (packet_bytes p)" by simp
    with eq obtain x where x: "packet_bytes p = b @ x" "x \<noteq> []"
      by (rule append_eq_shorter)
    have "spec_parse ci b = ([], b)"
      using spec_switch_strict_prefix [OF p x, of ci] by (simp add: spec_parse.simps [of ci b])
    with eq False show ?thesis
      by (intro exI [of _ "[]"] exI [of _ "p # ps"] exI [of _ b]) simp
  qed
qed

section \<open>Successive reads\<close>

text \<open>
  One poll round reads the chunks the kernel has and stops at would-block. The invariants of
  the buffer are kept by every read.
\<close>

lemma drain_socket_chunks:
  "[] \<notin> set cs \<Longrightarrow>
   drain_socket (map Inr cs @ rest) rb = drain_socket rest (rb\<lparr>rb_data := rb_data rb @ concat cs\<rparr>)"
  by (induction cs arbitrary: rb) (auto simp: RecvTcpDirect_def)

lemma drain_socket_ok [inv_intros]: "rb_ok rb \<Longrightarrow> rb_ok (snd (drain_socket as rb))"
proof (induction "as" arbitrary: rb)
  case Nil
  then show ?case by simp
next
  case (Cons a "as")
  from Cons.prems have "rb_ok (rb\<lparr>rb_data := rb_data rb @ t\<rparr>)" for t by (simp add: rb_ok_def)
  with Cons show ?case by (simp add: split_beta Let_def)
qed

lemma readFromConnection_ok [inv_intros]:
  assumes "rb_ok rb" shows "rb_ok (snd (readFromConnection c as ci rb))"
proof -
  have "rb_ok (snd (parse_packets ci (snd (drain_socket as rb))))"
    using assms parse_packets_refines_spec drain_socket_ok by blast
  with assms drain_socket_ok [OF assms, of "as"] show ?thesis
    by (simp add: readFromConnection_def split_beta Let_def)
qed

lemma readFromConnection_spec:
  assumes "rb_ok rb" and "[] \<notin> set cs"
  shows "spec_parse ci (rb_begin rb @ concat cs) =
     map_prod id rb_begin (readFromConnection True (map Inr cs @ [Inl EAGAIN]) ci rb)"
proof -
  let ?rb = "rb\<lparr>rb_data := rb_data rb @ concat cs\<rparr>"
  have "rb_ok ?rb" using assms(1) by (simp add: rb_ok_def)
  from parse_packets_refines_spec [OF this, of ci] assms show ?thesis
    by (simp add: readFromConnection_def drain_socket_chunks RecvTcpDirect_def socket_codes)
qed

fun io_rounds :: "int \<Rightarrow> bytes list list \<Rightarrow> ReadBuffer \<Rightarrow> io_event list \<times> ReadBuffer" where
  "io_rounds ci [] rb = ([], rb)"
| "io_rounds ci (cs # rounds) rb =
     (let (es, rb1) = readFromConnection True (map Inr cs @ [Inl EAGAIN]) ci rb;
          (es', rb2) = io_rounds ci rounds rb1
      in (es @ es', rb2))"

lemma io_rounds_stream:
  assumes "rb_ok rb" and "list_all packet_ok ps" and "\<forall>cs \<in> set rounds. [] \<notin> set cs"
    and "rb_begin rb @ concat (concat rounds) = stream_bytes ps"
    and "ps \<noteq> [] \<longrightarrow> length (rb_begin rb) < length (packet_bytes (hd ps))"
  shows "fst (io_rounds ci rounds rb) = map (packet_event ci) ps \<and> rb_begin (snd (io_rounds ci rounds rb)) = []"
  using assms
proof (induction rounds arbitrary: rb ps)
  case Nil
  then show ?case by (cases ps) auto
next
  case (Cons cs rounds)
  let ?read = "readFromConnection True (map Inr cs @ [Inl EAGAIN]) ci rb"
  have "(rb_begin rb @ concat cs) @ concat (concat rounds) = stream_bytes ps"
    using Cons.prems(4) by simp
  from spec_parse_stream [OF Cons.prems(2) this, of ci] obtain ps1 ps2 r where split: "ps = ps1 @ ps2"
    and parse: "spec_parse ci (rb_begin rb @ concat cs) = (map (packet_event ci) ps1, r)"
    and rest: "r @ concat (concat rounds) = stream_bytes ps2"
    and short: "ps2 \<noteq> [] \<longrightarrow> length r < length (packet_bytes (hd ps2))" by blast
  have "[] \<notin> set cs" using Cons.prems(3) by simp
  from readFromConnection_spec [OF Cons.prems(1) this, of ci] parse
  have read: "fst ?read = map (packet_event ci) ps1" "rb_begin (snd ?read) = r"
    by (simp_all add: prod_eq_iff)
  have "fst (io_rounds ci rounds (snd ?read)) = map (packet_event ci) ps2 \<and>
      rb_begin (snd (io_rounds ci rounds (snd ?read))) = []"
    using Cons.prems readFromConnection_ok [OF Cons.prems(1)] read rest short split
    by (intro Cons.IH) auto
  with read split show ?case by (simp add: split_beta Let_def)
qed

text \<open>
  C10: packets arrive unchanged, in order and exactly once over one connection, however TCP
  splits the stream: for any sequence of poll rounds whose chunks make up the octets of a
  list of conforming packets, the callbacks invoked are those of the packets, one each in
  order, and no octet is left in the read buffer.
\<close>

theorem packet_stream_roundtrip:
  assumes "list_all packet_ok ps" and "\<forall>cs \<in> set rounds. [] \<notin> set cs"
    and "concat (concat rounds) = stream_bytes ps"
  shows "fst (io_rounds ci rounds empty_ReadBuffer) = map (packet_event ci) ps \<and>
     rb_begin (snd (io_rounds ci rounds empty_ReadBuffer)) = []"
proof -
  have "ps \<noteq> [] \<longrightarrow> 0 < length (packet_bytes (hd ps))"
    using assms(1) packet_bytes_min by (cases ps) (fastforce simp: layout_simps)+
  then show ?thesis using io_rounds_stream [of empty_ReadBuffer ps rounds ci] assms by simp
qed

theorem packet_stream_roundtrip_witness:
  "fst (io_rounds 3 [[[0, 5, 0, 0], [0, 0, 0]], [[0, 0, 2, 0, 7]], [[9, 1, 8, 0, 0, 0, 0, 0, 0, 0],
      [4, 0, 0, 0, 0, 0, 0, 0]]] empty_ReadBuffer) =
   [DataCallback 5 [7, 9] 3, ResendRequestCallback 4]"
proof -
  have "stream_bytes [PData 5 [7, 9], PResendRequest 8 4] =
      [0, 5, 0, 0, 0, 0, 0, 0, 0, 2, 0, 7, 9, 1, 8, 0, 0, 0, 0, 0, 0, 0, 4, 0, 0, 0, 0, 0, 0, 0]"
    by code_simp
  then show ?thesis
    using packet_stream_roundtrip [of "[PData 5 [7, 9], PResendRequest 8 4]"
      "[[[0, 5, 0, 0], [0, 0, 0]], [[0, 0, 2, 0, 7]], [[9, 1, 8, 0, 0, 0, 0, 0, 0, 0], [4, 0, 0, 0, 0, 0, 0, 0]]]" 3]
    by (simp add: layout_simps)
qed

text \<open>
  C30: the read buffer with its read offset and its occasional compaction behaves like the plain
  sequence of unread octets: the packet loop emits the same callbacks as the reference parser
  and leaves the same unread octets, and the offset stays inside the vector.
\<close>

theorem read_buffer_refinement:
  assumes "rb_ok rb"
  shows "rb_ok (snd (parse_packets ci rb)) \<and>
     spec_parse ci (rb_begin rb) = map_prod id rb_begin (parse_packets ci rb)"
  using assms by (rule parse_packets_refines_spec)

theorem read_buffer_refinement_witness:
  "rb_ok \<lparr>rb_data = [9, 0, 5, 0, 0, 0, 0, 0, 0, 0, 1, 0, 7], rb_readOffset = 1\<rparr> \<and>
   spec_parse 0 [0, 5, 0, 0, 0, 0, 0, 0, 0, 1, 0, 7] = ([DataCallback 5 [7] 0], [])"
proof -
  let ?rb = "\<lparr>rb_data = [9, 0, 5, 0, 0, 0, 0, 0, 0, 0, 1, 0, 7 :: u8], rb_readOffset = 1\<rparr>"
  have "rb_ok ?rb" by (simp add: rb_ok_def)
  from read_buffer_refinement [OF this, of 0] this show ?thesis
    by (simp add: rb_begin_def) code_simp
qed

section \<open>Malformed input and closing\<close>

text \<open>
  An oversized \<^verbatim>\<open>dataLength\<close> at the head of the buffer makes the loop return without consuming
  anything, on this and on every later read.
\<close>

definition oversized_head :: "bytes \<Rightarrow> bool" where
  "oversized_head b \<longleftrightarrow> 11 \<le> length b \<and> pkt_type_octet b = 0 \<and> VC_MAX_DATA_PAYLOAD_SIZE < pkt_dataLength b"

lemma spec_parse_oversized: "oversized_head b \<Longrightarrow> spec_parse ci (b @ bs) = ([], b @ bs)"
  by (simp add: spec_parse.simps [of ci "b @ bs"] spec_switch_def oversized_head_def)

text \<open>
  A DATA header whose length field exceeds the maximum stops the connection's receive path
  for good: whatever octets follow, in however many reads, no callback is ever invoked again
  and the buffer only grows.
\<close>

theorem oversized_data_wedges_connection:
  assumes "rb_ok rb" and "oversized_head (rb_begin rb)" and "\<forall>cs \<in> set rounds. [] \<notin> set cs"
  shows "fst (io_rounds ci rounds rb) = [] \<and>
     rb_begin (snd (io_rounds ci rounds rb)) = rb_begin rb @ concat (concat rounds)"
  using assms
proof (induction rounds arbitrary: rb)
  case Nil
  then show ?case by simp
next
  case (Cons cs rounds)
  let ?read = "readFromConnection True (map Inr cs @ [Inl EAGAIN]) ci rb"
  have "[] \<notin> set cs" using Cons.prems(3) by simp
  from readFromConnection_spec [OF Cons.prems(1) this, of ci] spec_parse_oversized [OF Cons.prems(2)]
  have read: "fst ?read = []" "rb_begin (snd ?read) = rb_begin rb @ concat cs"
    by (simp_all add: prod_eq_iff)
  moreover have "oversized_head (rb_begin (snd ?read))"
    using Cons.prems(2) by (simp add: read oversized_head_def)
  ultimately show ?case
    using Cons.IH [of "snd ?read"] Cons.prems readFromConnection_ok [OF Cons.prems(1)]
    by (simp add: split_beta Let_def)
qed

theorem oversized_data_wedges_connection_witness:
  "fst (io_rounds 0 [VCDataPacket_bytes 6 [1] # []]
      \<lparr>rb_data = [0, 5, 0, 0, 0, 0, 0, 0, 0, 209, 7], rb_readOffset = 0\<rparr>) = []"
proof -
  let ?rb = "\<lparr>rb_data = [0, 5, 0, 0, 0, 0, 0, 0, 0, 209, 7 :: u8], rb_readOffset = 0\<rparr>"
  have "rb_ok ?rb" and "oversized_head (rb_begin ?rb)"
    by (simp add: rb_ok_def) code_simp
  then show ?thesis
    using oversized_data_wedges_connection [of ?rb "[[VCDataPacket_bytes 6 [1]]]" 0]
    by (simp add: VCDataPacket_bytes_def)
qed

text \<open>
  Octets that arrive in the same read as the peer's end of stream are never parsed: the
  call reports the closed connection and returns before the packet loop, so complete packets
  received with it are not delivered.
\<close>

theorem packets_lost_on_close:
  assumes "[] \<notin> set cs"
  shows "readFromConnection True (map Inr cs @ Inr [] # rest) ci rb =
     ([ConnectionClosed], rb\<lparr>rb_data := rb_data rb @ concat cs\<rparr>)"
  using assms by (simp add: readFromConnection_def drain_socket_chunks RecvTcpDirect_def socket_codes)

theorem packets_lost_on_close_witness:
  "fst (readFromConnection True [Inr (VCDataPacket_bytes 5 [7, 9]), Inr []] 0 empty_ReadBuffer) = [ConnectionClosed]"
  using packets_lost_on_close [of "[VCDataPacket_bytes 5 [7, 9]]" "[]" 0 empty_ReadBuffer]
  by (simp add: VCDataPacket_bytes_def)

end
