(* ===== verification/Fifo_Spec.thy ===== *)
theory Fifo_Spec
  imports Vc_Prelude
begin

text \<open>
  The interface between the channel's threads and the queues they communicate through. A
  provider offers a try-enqueue and a try-dequeue; its \<open>contents\<close> is the list of elements a
  consumer will still see. The laws are what \<^verbatim>\<open>TcpVirtualChannel\<close> and \<^verbatim>\<open>TcpVCSendThread\<close> rely
  on; \<^verbatim>\<open>SpscQueue\<close> and \<^verbatim>\<open>BlockingQueue\<close> provide them.
\<close>

datatype 'a qop = Enq 'a | Deq

text \<open>Running a sequence of operations: the accepted elements, the elements taken out, the queue.\<close>

fun run_queue ::
  "('a \<Rightarrow> 'q \<Rightarrow> bool \<times> 'q) \<Rightarrow> ('q \<Rightarrow> 'a option \<times> 'q) \<Rightarrow> 'a qop list \<Rightarrow> 'q \<Rightarrow> 'a list \<times> 'a list \<times> 'q" where
  "run_queue enq deq [] q = ([], [], q)"
| "run_queue enq deq (Enq x # ops) q =
     (let (ok, q1) = enq x q; (acc, out, q2) = run_queue enq deq ops q1
      in ((if ok then x # acc else acc), out, q2))"
| "run_queue enq deq (Deq # ops) q =
     (let (r, q1) = deq q; (acc, out, q2) = run_queue enq deq ops q1
      in (acc, (case r of None \<Rightarrow> out | Some y \<Rightarrow> y # out), q2))"

text \<open>A consumer's \<^verbatim>\<open>while (try_dequeue(item))\<close> loop, with fuel.\<close>

fun drain_queue :: "('q \<Rightarrow> 'a option \<times> 'q) \<Rightarrow> nat \<Rightarrow> 'q \<Rightarrow> 'a list \<times> 'q" where
  "drain_queue deq 0 q = ([], q)"
| "drain_queue deq (Suc fuel) q =
     (case deq q of
        (None, q') \<Rightarrow> ([], q')
      | (Some x, q') \<Rightarrow> let (xs, q'') = drain_queue deq fuel q' in (x # xs, q''))"

locale fifo =
  fixes enq :: "'a \<Rightarrow> 'q \<Rightarrow> bool \<times> 'q"
    and deq :: "'q \<Rightarrow> 'a option \<times> 'q"
    and contents :: "'q \<Rightarrow> 'a list"
    and invar :: "'q \<Rightarrow> bool"
    and room :: "'q \<Rightarrow> bool"
  assumes enq_room: "invar q \<Longrightarrow> room q \<Longrightarrow>
      fst (enq x q) \<and> invar (snd (enq x q)) \<and> contents (snd (enq x q)) = contents q @ [x]"
    and enq_full: "invar q \<Longrightarrow> \<not> room q \<Longrightarrow> enq x q = (False, q)"
    and deq_empty: "invar q \<Longrightarrow> contents q = [] \<Longrightarrow> deq q = (None, q)"
    and deq_Cons: "invar q \<Longrightarrow> contents q = x # xs \<Longrightarrow>
      fst (deq q) = Some x \<and> invar (snd (deq q)) \<and> contents (snd (deq q)) = xs"
begin

lemma run_queue_fifo:
  assumes "invar q"
  shows "case run_queue enq deq ops q of (acc, out, q') \<Rightarrow>
     invar q' \<and> contents q @ acc = out @ contents q'"
  using assms
proof (induction ops arbitrary: q)
  case Nil
  then show ?case by simp
next
  case (Cons op ops)
  show ?case
  proof (cases op)
    case (Enq x)
    show ?thesis
    proof (cases "room q")
      case True
      with enq_room [OF Cons.prems True, of x] Cons.IH [of "snd (enq x q)"] Enq show ?thesis
        by (auto simp: split_beta Let_def)
    next
      case False
      with enq_full [OF Cons.prems False, of x] Cons.IH [OF Cons.prems] Enq show ?thesis
        by (auto simp: split_beta Let_def)
    qed
  next
    case Deq
    show ?thesis
    proof (cases "contents q")
      case Nil
      with deq_empty [OF Cons.prems Nil] Cons.IH [OF Cons.prems] Deq show ?thesis
        by (auto simp: split_beta Let_def)
    next
      case (Cons y ys)
      with deq_Cons [OF \<open>invar q\<close> Cons] Cons.IH [of "snd (deq q)"] Deq show ?thesis
        by (auto simp: split_beta Let_def)
    qed
  qed
qed

lemma drain_queue_all:
  assumes "invar q" and "length (contents q) \<le> fuel"
  shows "fst (drain_queue deq fuel q) = contents q \<and>
     invar (snd (drain_queue deq fuel q)) \<and> contents (snd (drain_queue deq fuel q)) = []"
  using assms
proof (induction fuel arbitrary: q)
  case 0
  then show ?case by simp
next
  case (Suc fuel)
  show ?case
  proof (cases "contents q")
    case Nil
    with deq_empty [OF Suc.prems(1) Nil] Suc.prems show ?thesis by simp
  next
    case (Cons y ys)
    with deq_Cons [OF Suc.prems(1) Cons] Suc.IH [of "snd (deq q)"] Suc.prems show ?thesis
      by (auto simp: split_beta Let_def split: prod.splits option.splits)
  qed
qed

end

end
