(* ===== verification/Blocking_Queue.thy ===== *)
theory Blocking_Queue
  imports Fifo_Spec
begin

text \<open>
  The mutex-protected queue between the application and the send thread,
  \<^verbatim>\<open>src/src/common/BlockingQueue.h\<close> and \<^verbatim>\<open>BlockingQueue.cpp\<close>. The operations first, each as one
  atomic function; then the lock-free size counter, which \<^verbatim>\<open>enqueue\<close> and \<^verbatim>\<open>dequeue\<close> update
  outside the lock, as a step relation over any number of threads.
\<close>

section \<open>Operations\<close>

record 'a BlockingQueue =
  bq_queue :: "'a list"
  bq_cancelled :: bool
  approxQueueSize :: u64
  enqueueNotifier :: bool

definition BlockingQueue_init :: "'a BlockingQueue" where
  "BlockingQueue_init = \<lparr>bq_queue = [], bq_cancelled = False, approxQueueSize = 0, enqueueNotifier = False\<rparr>"

definition bq_enqueue :: "'a \<Rightarrow> 'a BlockingQueue \<Rightarrow> 'a BlockingQueue" where
  "bq_enqueue x q = q\<lparr>bq_queue := bq_queue q @ [x], approxQueueSize := approxQueueSize q + 1\<rparr>"

text \<open>Whether the enqueue also invokes a registered wake-up callback.\<close>

definition bq_notifies :: "'a BlockingQueue \<Rightarrow> bool" where
  "bq_notifies q = enqueueNotifier q"

text \<open>
  \<^verbatim>\<open>dequeue\<close> waits until the queue is non-empty or cancelled: \<open>None\<close> is "still waiting". A
  cancelled queue answers \<^verbatim>\<open>nullptr\<close>, even when elements are left.
\<close>

definition bq_dequeue :: "'a BlockingQueue \<Rightarrow> ('a option \<times> 'a BlockingQueue) option" where
  "bq_dequeue q =
     (if bq_queue q = [] \<and> \<not> bq_cancelled q then None
      else if bq_cancelled q then Some (None, q)
      else Some (Some (hd (bq_queue q)),
                 q\<lparr>bq_queue := tl (bq_queue q), approxQueueSize := approxQueueSize q - 1\<rparr>))"

definition bq_tryDequeue :: "'a BlockingQueue \<Rightarrow> 'a option \<times> 'a BlockingQueue" where
  "bq_tryDequeue q =
     (if bq_queue q = [] \<or> bq_cancelled q then (None, q)
      else (Some (hd (bq_queue q)),
            q\<lparr>bq_queue := tl (bq_queue q), approxQueueSize := approxQueueSize q - 1\<rparr>))"

definition bq_cancelWait :: "'a BlockingQueue \<Rightarrow> 'a BlockingQueue" where
  "bq_cancelWait q = q\<lparr>bq_cancelled := True\<rparr>"

definition bq_size :: "'a BlockingQueue \<Rightarrow> nat" where
  "bq_size q = length (bq_queue q)"

definition bq_approxSize :: "'a BlockingQueue \<Rightarrow> u64" where
  "bq_approxSize q = approxQueueSize q"

definition bq_setEnqueueNotifier :: "bool \<Rightarrow> 'a BlockingQueue \<Rightarrow> 'a BlockingQueue" where
  "bq_setEnqueueNotifier registered q = q\<lparr>enqueueNotifier := registered\<rparr>"

lemmas bq_defs = bq_enqueue_def bq_dequeue_def bq_tryDequeue_def bq_cancelWait_def
  bq_size_def bq_approxSize_def bq_setEnqueueNotifier_def BlockingQueue_init_def

text \<open>With no operation in flight the counter is the size, modulo \<open>2^64\<close>.\<close>

definition bq_counted :: "'a BlockingQueue \<Rightarrow> bool" where
  "bq_counted q \<longleftrightarrow> approxQueueSize q = word_of_nat (bq_size q)"

lemma bq_counted_ops [inv_intros]:
  "bq_counted BlockingQueue_init"
  "bq_counted q \<Longrightarrow> bq_counted (bq_enqueue x q)"
  "bq_counted q \<Longrightarrow> bq_counted (snd (bq_tryDequeue q))"
  "bq_counted q \<Longrightarrow> bq_dequeue q = Some (r, q') \<Longrightarrow> bq_counted q'"
  "bq_counted q \<Longrightarrow> bq_counted (bq_cancelWait q)"
  "bq_counted q \<Longrightarrow> bq_counted (bq_setEnqueueNotifier b q)"
  by (cases "bq_queue q"; auto simp: bq_counted_def bq_defs split: if_splits)+

text \<open>A queue that is not cancelled provides the FIFO interface and never refuses an element.\<close>

definition bq_live :: "'a BlockingQueue \<Rightarrow> bool" where
  "bq_live q \<longleftrightarrow> \<not> bq_cancelled q \<and> bq_counted q"

definition bq_offer :: "'a \<Rightarrow> 'a BlockingQueue \<Rightarrow> bool \<times> 'a BlockingQueue" where
  "bq_offer x q = (True, bq_enqueue x q)"

interpretation bq: fifo bq_offer bq_tryDequeue bq_queue bq_live "\<lambda>_. True"
proof (unfold_locales, goal_cases)
  case (1 q x)
  then show ?case
    by (simp add: bq_live_def bq_offer_def bq_counted_ops(2)) (simp add: bq_enqueue_def)
next
  case (2 q x)
  then show ?case by simp
next
  case (3 q)
  then show ?case by (simp add: bq_tryDequeue_def)
next
  case (4 q x xs)
  then show ?case
    using bq_counted_ops(3) [of q] by (auto simp: bq_live_def) (simp_all add: bq_tryDequeue_def)
qed

text \<open>
  The send queue is a FIFO queue that never drops: for every sequence of operations on a
  fresh queue, the packets taken out followed by those still queued are exactly the packets
  enqueued, in order, and the lock-free size counter equals the number of packets queued.
\<close>

theorem blocking_queue_fifo:
  "case run_queue bq_offer bq_tryDequeue ops BlockingQueue_init of (acc, out, q) \<Rightarrow>
     [x. Enq x \<leftarrow> ops] = out @ bq_queue q \<and> bq_approxSize q = word_of_nat (bq_size q)"
proof -
  have acc: "fst (run_queue bq_offer bq_tryDequeue ops q) = [x. Enq x \<leftarrow> ops]" for q :: "'a BlockingQueue"
  proof (induction ops arbitrary: q)
    case Nil
    then show ?case by simp
  next
    case (Cons op ops)
    then show ?case by (cases op) (simp_all add: bq_offer_def split_beta Let_def)
  qed
  have "bq_live BlockingQueue_init" by (simp add: bq_live_def bq_counted_def bq_defs)
  from bq.run_queue_fifo [OF this, of ops] acc [of BlockingQueue_init] show ?thesis
    by (auto simp: bq_live_def bq_counted_def bq_approxSize_def BlockingQueue_init_def)
qed

section \<open>Cancellation\<close>

text \<open>
  Once cancelled, a queue never hands out another element and never blocks a consumer
  again: both dequeue operations return \<^verbatim>\<open>nullptr\<close> at once and leave the queue unchanged,
  whatever is enqueued afterwards.
\<close>

theorem cancelled_queue_yields_nothing:
  "bq_dequeue (fold bq_enqueue xs (bq_cancelWait q)) = Some (None, fold bq_enqueue xs (bq_cancelWait q)) \<and>
   bq_tryDequeue (fold bq_enqueue xs (bq_cancelWait q)) = (None, fold bq_enqueue xs (bq_cancelWait q))"
proof -
  have "bq_cancelled (fold bq_enqueue xs p) = bq_cancelled p" for p :: "'a BlockingQueue"
    by (induction xs arbitrary: p) (simp_all add: bq_enqueue_def)
  then have "bq_cancelled (fold bq_enqueue xs (bq_cancelWait q))" by (simp add: bq_cancelWait_def)
  then show ?thesis by (simp add: bq_dequeue_def bq_tryDequeue_def)
qed

section \<open>The lock-free counter under concurrency\<close>

text \<open>
  \<^verbatim>\<open>enqueue\<close> pushes under the lock and adds to the counter after releasing it; \<^verbatim>\<open>dequeue\<close>
  likewise subtracts after releasing it; \<^verbatim>\<open>tryDequeue\<close> subtracts under the lock. \<open>adding\<close> and
  \<open>subtracting\<close> count the threads between the two parts.
\<close>

record 'a bq_sys =
  bqs :: "'a BlockingQueue"
  adding :: nat
  subtracting :: nat

inductive bq_step :: "'a bq_sys \<Rightarrow> 'a bq_sys \<Rightarrow> bool" where
  enq_push: "bq_step s (s\<lparr>bqs := (bqs s)\<lparr>bq_queue := bq_queue (bqs s) @ [x]\<rparr>, adding := adding s + 1\<rparr>)"
| enq_count: "0 < adding s \<Longrightarrow>
    bq_step s (s\<lparr>bqs := (bqs s)\<lparr>approxQueueSize := approxQueueSize (bqs s) + 1\<rparr>, adding := adding s - 1\<rparr>)"
| deq_pop: "bq_queue (bqs s) \<noteq> [] \<Longrightarrow> \<not> bq_cancelled (bqs s) \<Longrightarrow>
    bq_step s (s\<lparr>bqs := (bqs s)\<lparr>bq_queue := tl (bq_queue (bqs s))\<rparr>, subtracting := subtracting s + 1\<rparr>)"
| deq_count: "0 < subtracting s \<Longrightarrow>
    bq_step s (s\<lparr>bqs := (bqs s)\<lparr>approxQueueSize := approxQueueSize (bqs s) - 1\<rparr>, subtracting := subtracting s - 1\<rparr>)"
| try_deq: "bq_step s (s\<lparr>bqs := snd (bq_tryDequeue (bqs s))\<rparr>)"
| cancel: "bq_step s (s\<lparr>bqs := bq_cancelWait (bqs s)\<rparr>)"

inductive bq_reachable :: "'a bq_sys \<Rightarrow> bool" where
  bq_start: "bq_reachable \<lparr>bqs = BlockingQueue_init, adding = 0, subtracting = 0\<rparr>"
| bq_next: "bq_reachable s \<Longrightarrow> bq_step s t \<Longrightarrow> bq_reachable t"

definition bq_sys_inv :: "'a bq_sys \<Rightarrow> bool" where
  "bq_sys_inv s \<longleftrightarrow>
     approxQueueSize (bqs s) + word_of_nat (adding s) =
     word_of_nat (bq_size (bqs s)) + word_of_nat (subtracting s)"

lemma bq_step_inv: "bq_step s t \<Longrightarrow> bq_sys_inv s \<Longrightarrow> bq_sys_inv t"
proof (induction rule: bq_step.induct)
  case (enq_count s)
  then obtain n where "adding s = Suc n" by (auto simp: gr0_conv_Suc)
  with enq_count show ?case by (simp add: bq_sys_inv_def bq_size_def algebra_simps)
next
  case (deq_pop s)
  then obtain y ys where "bq_queue (bqs s) = y # ys" by (auto simp: neq_Nil_conv)
  with deq_pop show ?case by (simp add: bq_sys_inv_def bq_size_def algebra_simps)
next
  case (deq_count s)
  then obtain n where "subtracting s = Suc n" by (auto simp: gr0_conv_Suc)
  with deq_count show ?case by (simp add: bq_sys_inv_def bq_size_def algebra_simps)
next
  case (try_deq s)
  then show ?case
    by (cases "bq_queue (bqs s)") (simp_all add: bq_sys_inv_def bq_size_def bq_tryDequeue_def algebra_simps)
qed (simp_all add: bq_sys_inv_def bq_size_def bq_cancelWait_def algebra_simps)

lemma bq_reachable_inv: "bq_reachable s \<Longrightarrow> bq_sys_inv s"
proof (induction rule: bq_reachable.induct)
  case bq_start
  then show ?case by (simp add: bq_sys_inv_def bq_size_def BlockingQueue_init_def)
next
  case (bq_next s t)
  then show ?case by (blast intro: bq_step_inv)
qed

text \<open>
  Under every interleaving of threads the counter differs from the true size exactly by
  the additions and subtractions still pending, modulo \<open>2^64\<close>; with none pending it is exact.
\<close>

theorem approx_size_drift:
  assumes "bq_reachable s"
  shows "bq_approxSize (bqs s) =
     word_of_nat (bq_size (bqs s)) + word_of_nat (subtracting s) - word_of_nat (adding s)"
  using bq_reachable_inv [OF assms] by (simp add: bq_sys_inv_def bq_approxSize_def algebra_simps)

text \<open>One push overtaken by a non-blocking dequeue before its counter update.\<close>

lemma bq_underflow_reachable:
  "bq_reachable \<lparr>bqs = \<lparr>bq_queue = [], bq_cancelled = False, approxQueueSize = - 1, enqueueNotifier = False\<rparr>,
     adding = 1, subtracting = 0 :: nat\<rparr>"
proof -
  let ?s0 = "\<lparr>bqs = BlockingQueue_init, adding = 0, subtracting = 0\<rparr> :: 'a bq_sys"
  have "bq_reachable (?s0\<lparr>bqs := (bqs ?s0)\<lparr>bq_queue := bq_queue (bqs ?s0) @ [undefined]\<rparr>, adding := adding ?s0 + 1\<rparr>)"
    by (rule bq_next [OF bq_start]) (rule enq_push)
  from bq_next [OF this try_deq] show ?thesis
    by (simp add: BlockingQueue_init_def bq_tryDequeue_def)
qed

theorem approx_size_drift_witness:
  "bq_approxSize \<lparr>bq_queue = [] :: nat list, bq_cancelled = False, approxQueueSize = - 1, enqueueNotifier = False\<rparr> = - 1"
  using approx_size_drift [OF bq_underflow_reachable, where 'a = nat] by (simp add: bq_size_def)

text \<open>
  The counter can underflow: there is an interleaving after which the queue is empty and
  the counter reads \<open>2^64 - 1\<close>, far above the drop threshold of the send path.
\<close>

theorem approx_size_underflow:
  "\<exists>s :: 'a bq_sys. bq_reachable s \<and> bq_size (bqs s) = 0 \<and> unat (bq_approxSize (bqs s)) = 2 ^ 64 - 1"
  using bq_underflow_reachable
  by (intro exI conjI, assumption) (simp_all add: bq_size_def bq_approxSize_def unsigned_minus_1_eq_mask mask_eq_exp_minus_1)

end
