(* ===== verification/Sent_Cache.thy ===== *)
theory Sent_Cache
  imports Vc_Prelude
begin

text \<open>
  The copies of sent messages kept for resending: \<^verbatim>\<open>SentDataCache\<close>
  (\<^verbatim>\<open>src/src/common/TcpVirtualChannel.h\<close> and \<^verbatim>\<open>.cpp\<close>). The shard index is computed modulo the
  number of shards, which traps when there are none.
\<close>

section \<open>Sent-data cache\<close>

record ConnShard =
  sh_items :: "(u64, bytes) umap"
  sh_insertionOrder :: "u64 list"

record SentDataCache =
  sdc_shards :: "ConnShard list"
  sdc_capacityPerConn :: nat

definition empty_shard :: ConnShard where
  "empty_shard = \<lparr>sh_items = [], sh_insertionOrder = []\<rparr>"

definition SentDataCache_init :: "nat \<Rightarrow> nat \<Rightarrow> SentDataCache" where
  "SentDataCache_init numConns capacityPerConn =
     \<lparr>sdc_shards = replicate numConns empty_shard, sdc_capacityPerConn = capacityPerConn\<rparr>"

text \<open>The default-constructed member before \<^verbatim>\<open>open()\<close>.\<close>

definition SentDataCache_default :: SentDataCache where
  "SentDataCache_default = \<lparr>sdc_shards = [], sdc_capacityPerConn = 128\<rparr>"

definition shard_insert :: "nat \<Rightarrow> u64 \<Rightarrow> bytes \<Rightarrow> ConnShard \<Rightarrow> ConnShard" where
  "shard_insert capacityPerConn messageId data shard =
     (let items = AList.update messageId data (sh_items shard);
          order = sh_insertionOrder shard @ [messageId]
      in if length order > capacityPerConn
         then \<lparr>sh_items = AList.delete (hd order) items, sh_insertionOrder = tl order\<rparr>
         else \<lparr>sh_items = items, sh_insertionOrder = order\<rparr>)"

definition sdc_insert :: "u64 \<Rightarrow> bytes \<Rightarrow> SentDataCache \<Rightarrow> SentDataCache outcome" where
  "sdc_insert messageId data c =
     (if length (sdc_shards c) = 0 then Inl DivisionByZero
      else let idx = unat messageId mod length (sdc_shards c)
           in Inr (c\<lparr>sdc_shards := (sdc_shards c)
                [idx := shard_insert (sdc_capacityPerConn c) messageId data (sdc_shards c ! idx)]\<rparr>))"

definition sdc_find :: "u64 \<Rightarrow> SentDataCache \<Rightarrow> bytes option outcome" where
  "sdc_find messageId c =
     (if length (sdc_shards c) = 0 then Inl DivisionByZero
      else let idx = unat messageId mod length (sdc_shards c)
           in Inr (map_of (sh_items (sdc_shards c ! idx)) messageId))"

definition sdc_clear :: "SentDataCache \<Rightarrow> SentDataCache" where
  "sdc_clear c = c\<lparr>sdc_shards := map (\<lambda>_. empty_shard) (sdc_shards c)\<rparr>"

subsection \<open>One shard is a sliding window\<close>

fun shard_fill :: "nat \<Rightarrow> (u64 \<times> bytes) list \<Rightarrow> ConnShard \<Rightarrow> ConnShard" where
  "shard_fill cap [] s = s"
| "shard_fill cap ((m, d) # xs) s = shard_fill cap xs (shard_insert cap m d s)"

lemma shard_fill_append: "shard_fill cap (xs @ ys) s = shard_fill cap ys (shard_fill cap xs s)"
  by (induction cap xs s rule: shard_fill.induct) simp_all

definition last_n :: "nat \<Rightarrow> 'a list \<Rightarrow> 'a list" where
  "last_n n xs = drop (length xs - n) xs"

lemma last_n_0 [simp]: "last_n 0 xs = []"
  by (simp add: last_n_def)

lemma last_n_snoc:
  "last_n n (xs @ [x]) = (if n < Suc (length (last_n n xs)) then tl (last_n n xs @ [x]) else last_n n xs @ [x])"
proof (cases "length xs < n")
  case True
  then show ?thesis by (simp add: last_n_def)
next
  case False
  then have len: "length (last_n n xs) = n" and le: "length xs - n \<le> length xs" by (simp_all add: last_n_def)
  have "last_n n (xs @ [x]) = drop (Suc (length xs - n)) (xs @ [x])"
    using False by (simp add: last_n_def Suc_diff_le)
  also have "\<dots> = tl (drop (length xs - n) (xs @ [x]))" by (metis drop_Suc tl_drop)
  also have "\<dots> = tl (last_n n xs @ [x])" using le by (simp add: last_n_def)
  finally show ?thesis using len by simp
qed

lemma shard_fill_window:
  assumes "distinct (map fst xs)"
  shows "sh_insertionOrder (shard_fill cap xs empty_shard) = last_n cap (map fst xs) \<and>
     map_of (sh_items (shard_fill cap xs empty_shard)) = map_of (last_n cap xs)"
  using assms
proof (induction xs rule: rev_induct)
  case Nil
  then show ?case by (simp add: empty_shard_def last_n_def)
next
  case (snoc x xs)
  obtain m d where x: "x = (m, d)" by (cases x)
  let ?s = "shard_fill cap xs empty_shard"
  from snoc have IH: "sh_insertionOrder ?s = last_n cap (map fst xs)"
    "map_of (sh_items ?s) = map_of (last_n cap xs)" and fresh: "m \<notin> fst ` set xs" by (simp_all add: x)
  have lastn_map: "last_n cap (map fst zs) = map fst (last_n cap zs)" for zs :: "(u64 \<times> bytes) list"
    by (simp add: last_n_def drop_map)
  have dist: "distinct (map fst (last_n cap xs))"
    using snoc.prems by (simp add: last_n_def drop_map [symmetric])
  have "m \<notin> fst ` set (last_n cap xs)"
    using fresh set_drop_subset [of "length xs - cap" xs] by (auto simp: last_n_def)
  then have "map_of (last_n cap xs) m = None" by (simp add: map_of_eq_None_iff)
  then have upd: "(map_of (last_n cap xs))(m \<mapsto> d) = map_of (last_n cap xs @ [(m, d)])"
    by (auto simp: fun_eq_iff map_add_def split: option.splits)
  show ?case
  proof (cases "last_n cap xs")
    case Nil
    then show ?thesis using IH upd
      by (auto simp: x shard_fill_append shard_insert_def Let_def lastn_map last_n_snoc)
  next
    case (Cons y ys)
    with dist have "fst y \<notin> fst ` set ys" by simp
    moreover from Cons \<open>m \<notin> fst ` set (last_n cap xs)\<close> have "fst y \<noteq> m" by auto
    ultimately have "(map_of (y # ys @ [(m, d)]))(fst y := None) = map_of (ys @ [(m, d)])"
      by (auto simp: fun_eq_iff map_add_def map_of_eq_None_iff split: option.splits)
    with Cons IH upd show ?thesis
      by (auto simp: x shard_fill_append shard_insert_def Let_def lastn_map last_n_snoc)
  qed
qed

lemma shard_fill_capacity: "distinct (map fst xs) \<Longrightarrow> length (sh_insertionOrder (shard_fill cap xs empty_shard)) \<le> cap"
  by (simp add: shard_fill_window last_n_def)

subsection \<open>The cache as a window over consecutive message ids\<close>

text \<open>
  Inserting the payloads of the message ids \<open>0, 1, \<dots>\<close> one after the other, as
  \<^verbatim>\<open>TcpVirtualChannel::send\<close> does.
\<close>

fun sdc_fill :: "(nat \<Rightarrow> bytes) \<Rightarrow> nat \<Rightarrow> SentDataCache \<Rightarrow> SentDataCache outcome" where
  "sdc_fill f 0 c = Inr c"
| "sdc_fill f (Suc k) c =
     (case sdc_fill f k c of Inl e \<Rightarrow> Inl e | Inr c' \<Rightarrow> sdc_insert (word_of_nat k) (f k) c')"

definition shard_ids :: "nat \<Rightarrow> nat \<Rightarrow> nat \<Rightarrow> nat list" where
  "shard_ids n i k = filter (\<lambda>m. m mod n = i) [0..<k]"

lemma shard_ids_eq:
  assumes "i < n"
  shows "shard_ids n i k = map (\<lambda>j. i + n * j) [0..<(k + n - 1 - i) div n]"
proof (induction k)
  case 0
  with assms show ?case by (simp add: shard_ids_def)
next
  case (Suc k)
  let ?c = "(k + n - 1 - i) div n"
  show ?case
  proof (cases "k mod n = i")
    case True
    then obtain q where k: "k = i + n * q" by (metis add.commute mult_div_mod_eq)
    have "k + n - 1 - i = n * q + (n - 1)" using assms k by linarith
    then have c: "?c = q" using assms by (intro div_nat_eqI) auto
    have "Suc k + n - 1 - i = n * q + n" using assms k by linarith
    then have "(Suc k + n - 1 - i) div n = Suc q" using assms by simp
    with Suc c k True show ?thesis by (simp add: shard_ids_def)
  next
    case False
    have "(Suc k + n - 1 - i) mod n \<noteq> 0"
    proof
      assume "(Suc k + n - 1 - i) mod n = 0"
      then obtain q where q: "k + n - i = n * q" using assms by (auto simp: mod_eq_0_iff_dvd dvd_def)
      then have "k + n = i + n * q" using assms by linarith
      then have "(k + n) mod n = i" using assms by simp
      with False show False by simp
    qed
    moreover have "Suc k + n - 1 - i = Suc (k + n - 1 - i)" using assms by linarith
    ultimately have "(Suc k + n - 1 - i) div n = ?c" by (simp only: div_Suc if_False)
    with Suc False show ?thesis by (simp add: shard_ids_def)
  qed
qed

text \<open>Word-valued ids below \<open>2^64\<close> are distinct.\<close>

lemma word_of_nat_eq_iff64 [simp]:
  "a < 2 ^ 64 \<Longrightarrow> b < 2 ^ 64 \<Longrightarrow> (word_of_nat a :: u64) = word_of_nat b \<longleftrightarrow> a = b"
  by (simp add: word_of_nat_eq_iff take_bit_nat_eq_self)

lemma map_of_ids:
  assumes "\<forall>x \<in> set xs. x < 2 ^ 64" and "m < 2 ^ 64"
  shows "map_of (map (\<lambda>x. (word_of_nat x :: u64, f x)) xs) (word_of_nat m) = (if m \<in> set xs then Some (f m) else None)"
  using assms by (induction xs) auto

lemma sdc_fill_shards:
  assumes "0 < n" and "k \<le> 2 ^ 64"
  shows "\<exists>c. sdc_fill f k (SentDataCache_init n cap) = Inr c \<and> sdc_capacityPerConn c = cap \<and>
     length (sdc_shards c) = n \<and>
     (\<forall>i < n. sdc_shards c ! i = shard_fill cap (map (\<lambda>m. (word_of_nat m, f m)) (shard_ids n i k)) empty_shard)"
  using assms(2)
proof (induction k)
  case 0
  then show ?case by (simp add: SentDataCache_init_def shard_ids_def)
next
  case (Suc k)
  then obtain c where c: "sdc_fill f k (SentDataCache_init n cap) = Inr c" "sdc_capacityPerConn c = cap"
    "length (sdc_shards c) = n"
    "\<forall>i < n. sdc_shards c ! i = shard_fill cap (map (\<lambda>m. (word_of_nat m, f m)) (shard_ids n i k)) empty_shard"
    by auto
  have "unat (word_of_nat k :: u64) = k" using Suc.prems by (simp add: unat_of_nat)
  then show ?case
    using c assms(1) by (auto simp: sdc_insert_def Let_def shard_ids_def shard_fill_append nth_list_update)
qed

lemma shard_window_iff:
  assumes "0 < n"
  shows "m \<in> set (last_n cap (shard_ids n (m mod n) k)) \<longleftrightarrow> m < k \<and> k \<le> m + n * cap"
proof -
  define c where "c = (k + n - 1 - m mod n) div n"
  define q where "q = m div n"
  have m: "m = m mod n + n * q" by (simp add: q_def)
  then have hit: "m = m mod n + n * j \<longleftrightarrow> j = q" for j
    using assms by (metis add_left_cancel mult_left_cancel less_irrefl)
  have lt: "m mod n < n" using assms by simp
  have "last_n cap (shard_ids n (m mod n) k) = map (\<lambda>j. m mod n + n * j) [c - cap..<c]"
    by (simp add: shard_ids_eq [OF lt] last_n_def c_def drop_map)
  then have "m \<in> set (last_n cap (shard_ids n (m mod n) k)) \<longleftrightarrow> q < c \<and> c \<le> q + cap"
    using hit by auto
  moreover have "x < c \<longleftrightarrow> n * x + n + m mod n < k + n" for x
    using less_eq_div_iff_mult_less_eq [of n "Suc x" "k + n - 1 - m mod n"] assms lt
    by (auto simp: c_def Suc_le_eq algebra_simps)
  from this [of q] this [of "q + cap"] have "q < c \<longleftrightarrow> m < k" and "c \<le> q + cap \<longleftrightarrow> k \<le> m + n * cap"
    using m by (auto simp: not_less [symmetric] algebra_simps)
  ultimately show ?thesis by simp
qed

text \<open>
  C28: the sent-data cache holds exactly the most recent \<open>n * cap\<close> messages. After the ids
  \<open>0 \<dots> k - 1\<close> were sent over \<open>n\<close> shards of capacity \<open>cap\<close>, looking up an id returns its
  payload if it is one of the last \<open>n * cap\<close> ids and nothing otherwise; no operation traps.
\<close>

theorem sent_cache_window:
  assumes "0 < n" and "k \<le> 2 ^ 64" and "m < 2 ^ 64"
  shows "\<exists>c. sdc_fill f k (SentDataCache_init n cap) = Inr c \<and>
     sdc_find (word_of_nat m) c = Inr (if m < k \<and> k \<le> m + n * cap then Some (f m) else None)"
proof -
  obtain c where c: "sdc_fill f k (SentDataCache_init n cap) = Inr c" "length (sdc_shards c) = n"
    "\<forall>i < n. sdc_shards c ! i = shard_fill cap (map (\<lambda>m. (word_of_nat m, f m)) (shard_ids n i k)) empty_shard"
    using sdc_fill_shards [OF assms(1,2)] by blast
  let ?ids = "shard_ids n (m mod n) k" and ?g = "\<lambda>m. (word_of_nat m :: u64, f m)"
  have small: "\<forall>x \<in> set ?ids. x < 2 ^ 64" using assms(2) by (auto simp: shard_ids_def)
  then have "distinct (map fst (map ?g ?ids))"
    by (auto simp: distinct_map inj_on_def shard_ids_def)
  from shard_fill_window [OF this, of cap] have "map_of (sh_items (shard_fill cap (map ?g ?ids) empty_shard)) =
      map_of (map ?g (last_n cap ?ids))"
    by (simp add: last_n_def drop_map)
  moreover have "\<forall>x \<in> set (last_n cap ?ids). x < 2 ^ 64"
    using small set_drop_subset by (fastforce simp: last_n_def)
  ultimately have "map_of (sh_items (shard_fill cap (map ?g ?ids) empty_shard)) (word_of_nat m) =
      (if m < k \<and> k \<le> m + n * cap then Some (f m) else None)"
    using map_of_ids [of "last_n cap ?ids" m f] assms(3) shard_window_iff [OF assms(1)] by simp
  moreover have "unat (word_of_nat m :: u64) = m" using assms(3) by (simp add: unat_of_nat)
  moreover have "sdc_shards c \<noteq> []" using c(2) assms(1) by auto
  ultimately show ?thesis using c assms(1) by (simp add: sdc_find_def Let_def)
qed

theorem sent_cache_window_witness:
  "\<exists>c. sdc_fill (\<lambda>i. [word_of_nat i]) 9 (SentDataCache_init 2 3) = Inr c \<and> sdc_find (word_of_nat 3) c = Inr (Some [3])"
  using sent_cache_window [of 2 9 3 "\<lambda>i. [word_of_nat i]" 3] by simp

lemma sdc_fault_iff:
  "sdc_insert m d c = Inl e \<longleftrightarrow> sdc_shards c = [] \<and> e = DivisionByZero"
  "sdc_find m c = Inl e \<longleftrightarrow> sdc_shards c = [] \<and> e = DivisionByZero"
  by (auto simp: sdc_insert_def sdc_find_def Let_def)

lemma length_sdc_insert:
  "sdc_insert m d c = Inr c' \<Longrightarrow> length (sdc_shards c') = length (sdc_shards c)"
  by (auto simp: sdc_insert_def Let_def split: if_splits)

text \<open>Inserting a message id that is not cached yet makes it retrievable at once.\<close>

lemma sdc_find_insert_same:
  assumes "sdc_insert m d c = Inr c'" and "0 < sdc_capacityPerConn c"
    and "m \<notin> set (sh_insertionOrder (sdc_shards c ! (unat m mod length (sdc_shards c))))"
  shows "sdc_find m c' = Inr (Some d)"
proof -
  let ?i = "unat m mod length (sdc_shards c)" and ?sh = "sdc_shards c ! (unat m mod length (sdc_shards c))"
  have ne: "sdc_shards c \<noteq> []" using assms(1) by (simp add: sdc_insert_def split: if_splits)
  have c': "c' = c\<lparr>sdc_shards := (sdc_shards c)[?i := shard_insert (sdc_capacityPerConn c) m d ?sh]\<rparr>"
    using assms(1) ne by (simp add: sdc_insert_def Let_def)
  have "length (sh_insertionOrder ?sh) \<ge> sdc_capacityPerConn c \<Longrightarrow> hd (sh_insertionOrder ?sh @ [m]) \<noteq> m"
    using assms(2,3) by (cases "sh_insertionOrder ?sh") auto
  then have "map_of (sh_items (shard_insert (sdc_capacityPerConn c) m d ?sh)) m = Some d"
    by (auto simp: shard_insert_def Let_def)
  with ne show ?thesis by (simp add: c' sdc_find_def Let_def)
qed

end
