(* ===== verification/Send_Status.thy ===== *)
theory Send_Status
  imports Vc_Prelude
begin

text \<open>
  Bookkeeping of \<^verbatim>\<open>src/src/common/TcpVCWriteThread.h\<close>: \<^verbatim>\<open>MessageTracker\<close> (which connection carried
  a message), \<^verbatim>\<open>SocketStatus\<close> (a degraded connection and its back-off window) and the
  \<^verbatim>\<open>ConnSendStats\<close> counters. The tracker's contract is the locale \<open>id_map\<close>; the back-off is shown
  to double up to eight times its base.
\<close>

section \<open>Send statistics\<close>

record ConnSendStats =
  st_lastTxMessageId :: u64
  st_lastTxTimeMs :: int
  st_txCount :: u64
  st_reenqueueCount :: u64
  st_slowSendCount :: u64
  st_valid :: bool

definition ConnSendStats_init :: ConnSendStats where
  "ConnSendStats_init = \<lparr>st_lastTxMessageId = 0, st_lastTxTimeMs = 0, st_txCount = 0,
     st_reenqueueCount = 0, st_slowSendCount = 0, st_valid = False\<rparr>"

section \<open>Message tracker\<close>

type_synonym TrackerShard = "(u64, int) umap"

record MessageTracker =
  mt_shards :: "TrackerShard list"

definition MessageTracker_init :: "nat \<Rightarrow> MessageTracker" where
  "MessageTracker_init numShards = \<lparr>mt_shards = replicate numShards []\<rparr>"

definition recordMessage :: "u64 \<Rightarrow> int \<Rightarrow> MessageTracker \<Rightarrow> MessageTracker outcome" where
  "recordMessage messageId connectionIndex t =
     (if length (mt_shards t) = 0 then Inl DivisionByZero
      else let idx = unat messageId mod length (mt_shards t)
           in Inr (t\<lparr>mt_shards := (mt_shards t)
                [idx := AList.update messageId connectionIndex (mt_shards t ! idx)]\<rparr>))"

definition getConnectionIndex :: "u64 \<Rightarrow> MessageTracker \<Rightarrow> int outcome" where
  "getConnectionIndex messageId t =
     (if length (mt_shards t) = 0 then Inl DivisionByZero
      else let idx = unat messageId mod length (mt_shards t)
           in Inr (case map_of (mt_shards t ! idx) messageId of Some i \<Rightarrow> i | None \<Rightarrow> -1))"

definition removeMessage :: "u64 \<Rightarrow> MessageTracker \<Rightarrow> MessageTracker outcome" where
  "removeMessage messageId t =
     (if length (mt_shards t) = 0 then Inl DivisionByZero
      else let idx = unat messageId mod length (mt_shards t)
           in Inr (t\<lparr>mt_shards := (mt_shards t)[idx := AList.delete messageId (mt_shards t ! idx)]\<rparr>))"

definition mt_clear :: "MessageTracker \<Rightarrow> MessageTracker" where
  "mt_clear t = t\<lparr>mt_shards := map (\<lambda>_. []) (mt_shards t)\<rparr>"

subsection \<open>The contract of a tracker\<close>

datatype tracker_op = Record u64 int | Remove u64

fun run_tracker ::
  "(u64 \<Rightarrow> int \<Rightarrow> 's \<Rightarrow> 's outcome) \<Rightarrow> (u64 \<Rightarrow> 's \<Rightarrow> 's outcome) \<Rightarrow> tracker_op list \<Rightarrow> 's \<Rightarrow> 's outcome" where
  "run_tracker rec rem [] s = Inr s"
| "run_tracker rec rem (Record m i # ops) s =
     (case rec m i s of Inl e \<Rightarrow> Inl e | Inr s' \<Rightarrow> run_tracker rec rem ops s')"
| "run_tracker rec rem (Remove m # ops) s =
     (case rem m s of Inl e \<Rightarrow> Inl e | Inr s' \<Rightarrow> run_tracker rec rem ops s')"

text \<open>The abstract tracker: a finite map from message ids to connection indices.\<close>

fun tracker_spec :: "tracker_op list \<Rightarrow> (u64 \<Rightarrow> int option) \<Rightarrow> u64 \<Rightarrow> int option" where
  "tracker_spec [] f = f"
| "tracker_spec (Record m i # ops) f = tracker_spec ops (f(m \<mapsto> i))"
| "tracker_spec (Remove m # ops) f = tracker_spec ops (f(m := None))"

locale id_map =
  fixes rec :: "u64 \<Rightarrow> int \<Rightarrow> 's \<Rightarrow> 's outcome"
    and rem :: "u64 \<Rightarrow> 's \<Rightarrow> 's outcome"
    and abs :: "'s \<Rightarrow> u64 \<Rightarrow> int option"
    and invar :: "'s \<Rightarrow> bool"
  assumes rec_law: "invar s \<Longrightarrow> \<exists>s'. rec m i s = Inr s' \<and> invar s' \<and> abs s' = (abs s)(m \<mapsto> i)"
    and rem_law: "invar s \<Longrightarrow> \<exists>s'. rem m s = Inr s' \<and> invar s' \<and> abs s' = (abs s)(m := None)"
begin

lemma run_tracker_refines:
  assumes "invar s"
  shows "\<exists>s'. run_tracker rec rem ops s = Inr s' \<and> invar s' \<and> abs s' = tracker_spec ops (abs s)"
  using assms
proof (induction ops arbitrary: s)
  case Nil
  then show ?case by simp
next
  case (Cons op ops)
  show ?case
  proof (cases op)
    case (Record m i)
    with rec_law [OF Cons.prems, of m i] Cons.IH show ?thesis by fastforce
  next
    case (Remove m)
    with rem_law [OF Cons.prems, of m] Cons.IH show ?thesis by fastforce
  qed
qed

end

definition mt_lookup :: "MessageTracker \<Rightarrow> u64 \<Rightarrow> int option" where
  "mt_lookup t m = map_of (mt_shards t ! (unat m mod length (mt_shards t))) m"

definition mt_invar :: "MessageTracker \<Rightarrow> bool" where
  "mt_invar t \<longleftrightarrow> mt_shards t \<noteq> []"

interpretation mt: id_map recordMessage removeMessage mt_lookup mt_invar
proof unfold_locales
  fix t :: MessageTracker and m :: u64 and i :: int
  assume "mt_invar t"
  then have "unat k mod length (mt_shards t) < length (mt_shards t)" for k :: u64
    by (simp add: mt_invar_def)
  with \<open>mt_invar t\<close> show "\<exists>s'. recordMessage m i t = Inr s' \<and> mt_invar s' \<and> mt_lookup s' = (mt_lookup t)(m \<mapsto> i)"
    and "\<exists>s'. removeMessage m t = Inr s' \<and> mt_invar s' \<and> mt_lookup s' = (mt_lookup t)(m := None)"
    by (auto simp: recordMessage_def removeMessage_def mt_invar_def mt_lookup_def Let_def fun_eq_iff
        nth_list_update)
qed

lemma mt_invar_init [simp]: "mt_invar (MessageTracker_init n) \<longleftrightarrow> 0 < n"
  by (auto simp: mt_invar_def MessageTracker_init_def)

lemma mt_lookup_init [simp]: "0 < n \<Longrightarrow> mt_lookup (MessageTracker_init n) = Map.empty"
  by (auto simp: mt_lookup_def MessageTracker_init_def)

lemma getConnectionIndex_lookup:
  "mt_invar t \<Longrightarrow> getConnectionIndex m t = Inr (case mt_lookup t m of Some i \<Rightarrow> i | None \<Rightarrow> -1)"
  by (simp add: getConnectionIndex_def mt_invar_def mt_lookup_def Let_def)

lemma mt_clear_forgets: "mt_invar t \<Longrightarrow> getConnectionIndex m (mt_clear t) = Inr (-1)"
  by (simp add: getConnectionIndex_def mt_clear_def mt_invar_def Let_def)

text \<open>
  C36: the sharded tracker implements a map from message ids to connections: after any sequence of
  recordings and removals on a tracker with at least one shard, \<^verbatim>\<open>getConnectionIndex\<close> answers the
  connection of the last recording of that id that was not removed, and -1 when there is none; no
  operation traps.
\<close>

theorem tracker_refines_map:
  assumes "0 < n"
  shows "\<exists>t. run_tracker recordMessage removeMessage ops (MessageTracker_init n) = Inr t \<and>
     (\<forall>m. getConnectionIndex m t = Inr (case tracker_spec ops Map.empty m of Some i \<Rightarrow> i | None \<Rightarrow> -1))"
  using mt.run_tracker_refines [of "MessageTracker_init n" ops] assms
  by (auto simp: getConnectionIndex_lookup)

theorem tracker_refines_map_witness:
  "\<exists>t. run_tracker recordMessage removeMessage [Record 4 0, Record 8 1, Record 4 2, Remove 8] (MessageTracker_init 4) = Inr t \<and>
     getConnectionIndex 4 t = Inr 2 \<and> getConnectionIndex 8 t = Inr (-1)"
  using tracker_refines_map [of 4 "[Record 4 0, Record 8 1, Record 4 2, Remove 8]"] by auto

lemma tracker_no_shards:
  "recordMessage m i (MessageTracker_init 0) = Inl DivisionByZero"
  "getConnectionIndex m (MessageTracker_init 0) = Inl DivisionByZero"
  by (simp_all add: recordMessage_def getConnectionIndex_def MessageTracker_init_def)

section \<open>Degradation back-off\<close>

record SocketStatus =
  ss_connectionIndex :: int
  ss_isDegraded :: bool
  ss_degradedSinceMs :: int
  ss_degradationCount :: int

definition SocketStatus_init :: "int \<Rightarrow> SocketStatus" where
  "SocketStatus_init i = \<lparr>ss_connectionIndex = i, ss_isDegraded = False, ss_degradedSinceMs = 0,
     ss_degradationCount = 0\<rparr>"

text \<open>\<^verbatim>\<open>std::atomic<int>\<close> arithmetic wraps in two's complement; plain \<^verbatim>\<open>int\<close> arithmetic does not.\<close>

definition wrap_i32 :: "int \<Rightarrow> int" where
  "wrap_i32 x = (x + 2 ^ 31) mod 2 ^ 32 - 2 ^ 31"

lemma wrap_i32_id [simp]: "- (2 ^ 31) \<le> x \<Longrightarrow> x < 2 ^ 31 \<Longrightarrow> wrap_i32 x = x"
  by (simp add: wrap_i32_def)

text \<open>The three atomic stores of \<^verbatim>\<open>markDegraded\<close>, in program order.\<close>

definition markDegraded_since :: "int \<Rightarrow> SocketStatus \<Rightarrow> SocketStatus" where
  "markDegraded_since nowMs s = s\<lparr>ss_degradedSinceMs := nowMs\<rparr>"

definition markDegraded_flag :: "SocketStatus \<Rightarrow> SocketStatus" where
  "markDegraded_flag s = s\<lparr>ss_isDegraded := True\<rparr>"

definition markDegraded_count :: "SocketStatus \<Rightarrow> SocketStatus" where
  "markDegraded_count s = s\<lparr>ss_degradationCount := wrap_i32 (ss_degradationCount s + 1)\<rparr>"

definition markDegraded :: "int \<Rightarrow> SocketStatus \<Rightarrow> SocketStatus" where
  "markDegraded nowMs s = markDegraded_count (markDegraded_flag (markDegraded_since nowMs s))"

definition isCurrentlyDegraded :: "int \<Rightarrow> int \<Rightarrow> SocketStatus \<Rightarrow> bool outcome" where
  "isCurrentlyDegraded maxDuration nowMs s =
     (if \<not> ss_isDegraded s then Inr False
      else let elapsedMs = nowMs - ss_degradedSinceMs s; count = ss_degradationCount s
           in if count = - (2 ^ 31) then Inl SignedOverflow
              else if min (count - 1) 3 < 0 then Inl NegativeShift
              else let effectiveMs = maxDuration * 2 ^ nat (min (count - 1) 3)
                   in Inr (elapsedMs < effectiveMs))"

definition ss_recover :: "SocketStatus \<Rightarrow> SocketStatus" where
  "ss_recover s = s\<lparr>ss_isDegraded := False, ss_degradationCount := 0\<rparr>"

lemmas status_defs = markDegraded_def markDegraded_since_def markDegraded_flag_def markDegraded_count_def
  ss_recover_def SocketStatus_init_def

text \<open>A run of failures at the given instants.\<close>

definition mark_all :: "int list \<Rightarrow> SocketStatus \<Rightarrow> SocketStatus" where
  "mark_all ts s = fold markDegraded ts s"

lemma mark_all_state:
  assumes "ts \<noteq> []" and "ss_degradationCount s + int (length ts) < 2 ^ 31" and "0 \<le> ss_degradationCount s"
  shows "ss_isDegraded (mark_all ts s) \<and> ss_degradedSinceMs (mark_all ts s) = last ts \<and>
     ss_degradationCount (mark_all ts s) = ss_degradationCount s + int (length ts)"
  using assms
proof (induction ts arbitrary: s)
  case Nil
  then show ?case by simp
next
  case (Cons t ts)
  have cnt: "ss_degradationCount (markDegraded t s) = ss_degradationCount s + 1"
    using Cons.prems by (simp add: status_defs)
  show ?case
  proof (cases "ts = []")
    case True
    then show ?thesis using cnt by (simp add: mark_all_def) (simp add: status_defs)
  next
    case False
    with Cons.IH [of "markDegraded t s"] Cons.prems cnt show ?thesis by (simp add: mark_all_def)
  qed
qed

text \<open>
  Exponential back-off of a failing connection. After a recovery and then \<open>k\<close> failures, the
  last at \<open>t\<close>, the connection counts as degraded exactly until \<open>base * 2 ^ min (k - 1) 3\<close>
  milliseconds after \<open>t\<close>: the window doubles with every consecutive failure and is capped at
  eight times the base; the computation does not trap.
\<close>

theorem degradation_backoff:
  assumes "ts \<noteq> []" and "length ts < 2 ^ 31"
  shows "isCurrentlyDegraded base now (mark_all ts (ss_recover s)) =
     Inr (now < last ts + base * 2 ^ min (length ts - 1) 3)"
proof -
  have "ss_isDegraded (mark_all ts (ss_recover s))" "ss_degradedSinceMs (mark_all ts (ss_recover s)) = last ts"
    "ss_degradationCount (mark_all ts (ss_recover s)) = int (length ts)"
    using mark_all_state [OF assms(1), of "ss_recover s"] assms(2) by (simp_all add: ss_recover_def)
  moreover have "1 \<le> length ts" using assms(1) by (cases ts) auto
  moreover from this have "nat (min (int (length ts) - 1) 3) = min (length ts - 1) 3" by (auto simp: min_def)
  ultimately show ?thesis by (auto simp: isCurrentlyDegraded_def Let_def)
qed

theorem degradation_backoff_witness:
  "isCurrentlyDegraded 500 4100 (mark_all [0, 600, 2000, 2100, 3000] (ss_recover (SocketStatus_init 2))) = Inr True"
  using degradation_backoff [of "[0, 600, 2000, 2100, 3000]" 500 4100 "SocketStatus_init 2"] by simp

lemma recovered_not_degraded: "isCurrentlyDegraded base now (ss_recover s) = Inr False"
  by (simp add: isCurrentlyDegraded_def ss_recover_def)

text \<open>
  \<^verbatim>\<open>markDegraded\<close> publishes the degraded flag before it increments the counter. A reader that
  runs between these two stores on a connection that was healthy shifts by -1, which is undefined
  behaviour; a reader before the flag or after the counter does not trap.
\<close>

theorem degradation_publish_race:
  "isCurrentlyDegraded base now (markDegraded_since t (ss_recover s)) = Inr False \<and>
   isCurrentlyDegraded base now (markDegraded_flag (markDegraded_since t (ss_recover s))) = Inl NegativeShift \<and>
   isCurrentlyDegraded base now (markDegraded_count (markDegraded_flag (markDegraded_since t (ss_recover s)))) =
     Inr (now - t < base)"
  by (simp add: status_defs isCurrentlyDegraded_def)

end
