(* ===== verification/Spsc_Queue.thy ===== *)
theory Spsc_Queue
  imports Fifo_Spec
begin

text \<open>
  The lock-free ring buffer between the I/O thread and the reorder thread,
  \<^verbatim>\<open>src/src/common/SpscQueue.h\<close>. First the two operations as atomic functions and their
  refinement to a bounded FIFO list; then the same code split at its atomic loads and stores,
  with one producer and one consumer running in any interleaving.
\<close>

section \<open>Operations\<close>

text \<open>
  \<^verbatim>\<open>Capacity\<close> is the template argument. A moved-from slot keeps its old value here; it is
  overwritten before it is read again.
\<close>

record 'a SpscQueue =
  Capacity :: nat
  buffer :: "'a list"
  writePos :: nat
  readPos :: nat

definition SpscQueue_init :: "nat \<Rightarrow> 'a \<Rightarrow> 'a SpscQueue" where
  "SpscQueue_init cap d = \<lparr>Capacity = cap, buffer = replicate cap d, writePos = 0, readPos = 0\<rparr>"

definition try_enqueue :: "'a \<Rightarrow> 'a SpscQueue \<Rightarrow> bool \<times> 'a SpscQueue" where
  "try_enqueue item q =
     (let w = writePos q; nextW = (w + 1) mod Capacity q
      in if nextW = readPos q then (False, q)
         else (True, q\<lparr>buffer := (buffer q)[w := item], writePos := nextW\<rparr>))"

definition try_dequeue :: "'a SpscQueue \<Rightarrow> 'a option \<times> 'a SpscQueue" where
  "try_dequeue q =
     (let r = readPos q
      in if r = writePos q then (None, q)
         else (Some (buffer q ! r), q\<lparr>readPos := (r + 1) mod Capacity q\<rparr>))"

definition spsc_empty :: "'a SpscQueue \<Rightarrow> bool" where
  "spsc_empty q \<longleftrightarrow> readPos q = writePos q"

section \<open>Abstraction\<close>

definition spsc_count :: "'a SpscQueue \<Rightarrow> nat" where
  "spsc_count q = (if readPos q \<le> writePos q then writePos q - readPos q
                   else writePos q + Capacity q - readPos q)"

definition spsc_contents :: "'a SpscQueue \<Rightarrow> 'a list" where
  "spsc_contents q = map (\<lambda>k. buffer q ! ((readPos q + k) mod Capacity q)) [0..<spsc_count q]"

definition spsc_invar :: "'a SpscQueue \<Rightarrow> bool" where
  "spsc_invar q \<longleftrightarrow> length (buffer q) = Capacity q \<and> writePos q < Capacity q \<and> readPos q < Capacity q"

definition spsc_room :: "'a SpscQueue \<Rightarrow> bool" where
  "spsc_room q \<longleftrightarrow> (writePos q + 1) mod Capacity q \<noteq> readPos q"

lemma length_spsc_contents [simp]: "length (spsc_contents q) = spsc_count q"
  by (simp add: spsc_contents_def)

lemma spsc_room_count: "spsc_invar q \<Longrightarrow> spsc_room q \<longleftrightarrow> Suc (spsc_count q) < Capacity q"
  by (cases "Suc (writePos q) = Capacity q") (auto simp: spsc_room_def spsc_count_def spsc_invar_def)

lemma spsc_count_less: "spsc_invar q \<Longrightarrow> spsc_count q < Capacity q"
  by (auto simp: spsc_count_def spsc_invar_def)

lemma spsc_count_0: "spsc_invar q \<Longrightarrow> spsc_count q = 0 \<longleftrightarrow> readPos q = writePos q"
  by (auto simp: spsc_count_def spsc_invar_def)

text \<open>The \<open>k\<close>-th occupied slot is never the free slot the producer writes to.\<close>

lemma slot_index: "spsc_invar q \<Longrightarrow> (readPos q + spsc_count q) mod Capacity q = writePos q"
  by (auto simp: spsc_count_def spsc_invar_def)

lemma slot_not_write: "spsc_invar q \<Longrightarrow> k < spsc_count q \<Longrightarrow> (readPos q + k) mod Capacity q \<noteq> writePos q"
  by (subst mod_wrap) (auto simp: spsc_count_def spsc_invar_def split: if_splits)

lemma spsc_invar_write [inv_intros]: "spsc_invar q \<Longrightarrow> spsc_invar (q\<lparr>buffer := (buffer q)[w := x]\<rparr>)"
  by (simp add: spsc_invar_def)

lemma spsc_contents_write:
  "spsc_invar q \<Longrightarrow> spsc_contents (q\<lparr>buffer := (buffer q)[writePos q := x]\<rparr>) = spsc_contents q"
  using slot_not_write [of q] by (force simp: spsc_contents_def spsc_count_def intro!: map_cong)

lemma spsc_publish:
  assumes "spsc_invar q" and "spsc_room q" and "buffer q ! writePos q = x"
  defines "q' \<equiv> q\<lparr>writePos := (writePos q + 1) mod Capacity q\<rparr>"
  shows "spsc_invar q' \<and> spsc_count q' = Suc (spsc_count q) \<and> spsc_contents q' = spsc_contents q @ [x]"
proof -
  have inv: "spsc_invar q'"
    using assms(1) by (auto simp: spsc_invar_def q'_def)
  have cnt: "spsc_count q' = Suc (spsc_count q)"
    using assms(1,2) by (auto simp: spsc_count_def spsc_invar_def spsc_room_def q'_def mod_if split: if_splits)
  have "spsc_contents q' = map (\<lambda>k. buffer q ! ((readPos q + k) mod Capacity q)) [0..<Suc (spsc_count q)]"
    unfolding spsc_contents_def cnt by (simp add: q'_def)
  also have "\<dots> = spsc_contents q @ [x]"
    using assms(3) slot_index [OF assms(1)] by (simp add: spsc_contents_def)
  finally show ?thesis using inv cnt by simp
qed

lemma spsc_release:
  assumes "spsc_invar q" and "readPos q \<noteq> writePos q"
  defines "q' \<equiv> q\<lparr>readPos := (readPos q + 1) mod Capacity q\<rparr>"
  shows "spsc_invar q' \<and> spsc_count q = Suc (spsc_count q') \<and>
     spsc_contents q = buffer q ! readPos q # spsc_contents q'"
proof -
  have inv: "spsc_invar q'"
    using assms(1) by (auto simp: spsc_invar_def q'_def)
  have cnt: "spsc_count q = Suc (spsc_count q')"
    using assms(1,2) by (auto simp: spsc_count_def spsc_invar_def q'_def mod_if split: if_splits)
  have "spsc_contents q = map (\<lambda>k. buffer q ! ((readPos q + k) mod Capacity q)) (0 # map Suc [0..<spsc_count q'])"
    unfolding spsc_contents_def cnt by (simp only: upt_conv_Cons [OF zero_less_Suc] map_Suc_upt)
  also have "\<dots> = buffer q ! readPos q # spsc_contents q'"
    using assms(1) by (simp add: spsc_contents_def q'_def spsc_invar_def mod_simps o_def)
  finally show ?thesis using inv cnt by simp
qed

interpretation spsc: fifo try_enqueue try_dequeue spsc_contents spsc_invar spsc_room
proof (unfold_locales, goal_cases)
  case (1 q x)
  let ?q = "q\<lparr>buffer := (buffer q)[writePos q := x]\<rparr>"
  have "buffer ?q ! writePos ?q = x" and "spsc_room ?q"
    using 1 by (simp_all add: spsc_invar_def spsc_room_def)
  with spsc_publish [of ?q x] spsc_invar_write [OF 1(1)] spsc_contents_write [OF 1(1)] 1
  show ?case by (simp add: try_enqueue_def Let_def spsc_room_def)
next
  case (2 q x)
  then show ?case by (simp add: try_enqueue_def Let_def spsc_room_def)
next
  case (3 q)
  then have "spsc_count q = 0" by (metis length_spsc_contents list.size(3))
  with 3 show ?case by (simp add: try_dequeue_def Let_def spsc_count_0)
next
  case (4 q x xs)
  then have "spsc_count q \<noteq> 0" by (metis length_spsc_contents list.size(3) list.distinct(1) length_0_conv)
  with 4 have "readPos q \<noteq> writePos q" by (simp add: spsc_count_0)
  with spsc_release [OF 4(1) this] 4 show ?case by (simp add: try_dequeue_def Let_def)
qed

lemma spsc_invar_init [simp, inv_intros]: "0 < cap \<Longrightarrow> spsc_invar (SpscQueue_init cap d)"
  by (simp add: spsc_invar_def SpscQueue_init_def)

lemma spsc_contents_init [simp]: "spsc_contents (SpscQueue_init cap d) = []"
  by (simp add: spsc_contents_def spsc_count_def SpscQueue_init_def)

lemma Capacity_try [simp]:
  "Capacity (snd (try_enqueue x q)) = Capacity q" "Capacity (snd (try_dequeue q)) = Capacity q"
  by (simp_all add: try_enqueue_def try_dequeue_def Let_def)

lemma Capacity_run_queue:
  "Capacity (snd (snd (run_queue try_enqueue try_dequeue ops q))) = Capacity q"
proof (induction ops arbitrary: q)
  case Nil
  then show ?case by simp
next
  case (Cons op ops)
  then show ?case by (cases op) (simp_all add: split_beta Let_def)
qed

text \<open>
  The ring buffer is a bounded FIFO queue. For every sequence of operations on a fresh
  queue of any positive capacity, the elements taken out followed by those still inside are
  exactly the accepted elements in order, and an element is refused only when
  \<^verbatim>\<open>Capacity - 1\<close> elements are inside.
\<close>

theorem spsc_fifo:
  assumes "0 < cap"
  shows "case run_queue try_enqueue try_dequeue ops (SpscQueue_init cap d) of (acc, out, q) \<Rightarrow>
     acc = out @ spsc_contents q \<and> (fst (try_enqueue x q) \<longleftrightarrow> length (spsc_contents q) < cap - 1)"
proof -
  obtain acc out q where run: "run_queue try_enqueue try_dequeue ops (SpscQueue_init cap d) = (acc, out, q)"
    by (cases "run_queue try_enqueue try_dequeue ops (SpscQueue_init cap d)")
  have cap: "Capacity q = cap"
    using Capacity_run_queue [of ops "SpscQueue_init cap d"] unfolding run by (simp add: SpscQueue_init_def)
  from spsc.run_queue_fifo [OF spsc_invar_init [OF assms], of d ops]
  have inv: "spsc_invar q" and "acc = out @ spsc_contents q"
    by (simp_all add: run)
  moreover have "fst (try_enqueue x q) \<longleftrightarrow> spsc_room q"
    by (simp add: try_enqueue_def Let_def spsc_room_def)
  ultimately show ?thesis
    using spsc_room_count [OF inv] by (auto simp: run cap)
qed

theorem spsc_fifo_witness:
  "(0::nat) < 3 \<and> fst (snd (run_queue try_enqueue try_dequeue [Enq 1, Enq 2, Enq 3, Deq, Enq 4, Deq, Deq]
      (SpscQueue_init 3 0))) = [1, 2, 4 :: nat]"
  using spsc_fifo [where cap = 3 and ops = "[Enq 1, Enq 2, Enq 3, Deq, Enq 4, Deq, Deq]" and d = "0::nat" and x = 0]
  by (simp add: run_queue.simps SpscQueue_init_def try_enqueue_def try_dequeue_def Let_def
      spsc_contents_def spsc_count_def)

section \<open>One producer and one consumer, interleaved\<close>

text \<open>
  Each operation is split at its atomic accesses: the check of the other side's position, the
  access to the slot, the store of its own position. \<open>committed\<close> and \<open>taken\<close> record the
  successful operations.
\<close>

datatype 'a producer_pc = PIdle | PChecked 'a | PWritten 'a
datatype 'a consumer_pc = CIdle | CChecked | CRead 'a

record 'a spsc_sys =
  ring :: "'a SpscQueue"
  prod :: "'a producer_pc"
  cons :: "'a consumer_pc"
  committed :: "'a list"
  taken :: "'a list"

inductive spsc_step :: "'a spsc_sys \<Rightarrow> 'a spsc_sys \<Rightarrow> bool" where
  p_check: "prod s = PIdle \<Longrightarrow> (writePos (ring s) + 1) mod Capacity (ring s) \<noteq> readPos (ring s) \<Longrightarrow>
    spsc_step s (s\<lparr>prod := PChecked x\<rparr>)"
| p_full: "prod s = PIdle \<Longrightarrow> (writePos (ring s) + 1) mod Capacity (ring s) = readPos (ring s) \<Longrightarrow>
    spsc_step s s"
| p_write: "prod s = PChecked x \<Longrightarrow>
    spsc_step s (s\<lparr>ring := (ring s)\<lparr>buffer := (buffer (ring s))[writePos (ring s) := x]\<rparr>, prod := PWritten x\<rparr>)"
| p_publish: "prod s = PWritten x \<Longrightarrow>
    spsc_step s (s\<lparr>ring := (ring s)\<lparr>writePos := (writePos (ring s) + 1) mod Capacity (ring s)\<rparr>,
      prod := PIdle, committed := committed s @ [x]\<rparr>)"
| c_check: "cons s = CIdle \<Longrightarrow> readPos (ring s) \<noteq> writePos (ring s) \<Longrightarrow> spsc_step s (s\<lparr>cons := CChecked\<rparr>)"
| c_empty: "cons s = CIdle \<Longrightarrow> readPos (ring s) = writePos (ring s) \<Longrightarrow> spsc_step s s"
| c_read: "cons s = CChecked \<Longrightarrow> spsc_step s (s\<lparr>cons := CRead (buffer (ring s) ! readPos (ring s))\<rparr>)"
| c_release: "cons s = CRead y \<Longrightarrow>
    spsc_step s (s\<lparr>ring := (ring s)\<lparr>readPos := (readPos (ring s) + 1) mod Capacity (ring s)\<rparr>,
      cons := CIdle, taken := taken s @ [y]\<rparr>)"

inductive spsc_reachable :: "nat \<Rightarrow> 'a spsc_sys \<Rightarrow> bool" for cap :: nat where
  spsc_start: "spsc_reachable cap \<lparr>ring = SpscQueue_init cap d, prod = PIdle, cons = CIdle, committed = [], taken = []\<rparr>"
| spsc_next: "spsc_reachable cap s \<Longrightarrow> spsc_step s t \<Longrightarrow> spsc_reachable cap t"

definition spsc_sys_inv :: "'a spsc_sys \<Rightarrow> bool" where
  "spsc_sys_inv s \<longleftrightarrow>
     spsc_invar (ring s) \<and> committed s = taken s @ spsc_contents (ring s) \<and>
     (prod s \<noteq> PIdle \<longrightarrow> spsc_room (ring s)) \<and>
     (\<forall>x. prod s = PWritten x \<longrightarrow> buffer (ring s) ! writePos (ring s) = x) \<and>
     (cons s \<noteq> CIdle \<longrightarrow> readPos (ring s) \<noteq> writePos (ring s)) \<and>
     (\<forall>y. cons s = CRead y \<longrightarrow> y = buffer (ring s) ! readPos (ring s))"

lemma spsc_step_inv: "spsc_step s t \<Longrightarrow> spsc_sys_inv s \<Longrightarrow> spsc_sys_inv t"
proof (induction rule: spsc_step.induct)
  case (p_write s x)
  then have inv: "spsc_invar (ring s)" and room: "spsc_room (ring s)" by (simp_all add: spsc_sys_inv_def)
  from p_write inv room show ?case
    by (auto simp: spsc_sys_inv_def spsc_invar_write spsc_contents_write spsc_room_def)
       (auto simp: spsc_invar_def nth_list_update_neq)
next
  case (p_publish s x)
  then have inv: "spsc_invar (ring s)" and room: "spsc_room (ring s)"
    and slot: "buffer (ring s) ! writePos (ring s) = x" by (simp_all add: spsc_sys_inv_def)
  from p_publish spsc_publish [OF inv room slot] room show ?case
    by (auto simp: spsc_sys_inv_def spsc_room_def)
next
  case (c_release s y)
  then have inv: "spsc_invar (ring s)" and ne: "readPos (ring s) \<noteq> writePos (ring s)"
    by (simp_all add: spsc_sys_inv_def)
  note rel = spsc_release [OF inv ne]
  let ?q = "(ring s)\<lparr>readPos := (readPos (ring s) + 1) mod Capacity (ring s)\<rparr>"
  have "spsc_room (ring s) \<Longrightarrow> spsc_room ?q"
    using rel spsc_room_count [OF inv] spsc_room_count [of ?q] by simp
  with c_release rel show ?case by (auto simp: spsc_sys_inv_def)
qed (auto simp: spsc_sys_inv_def spsc_room_def)

lemma spsc_reachable_inv:
  assumes "spsc_reachable cap s" and "0 < cap"
  shows "spsc_sys_inv s"
  using assms(1)
proof induction
  case (spsc_start d)
  with assms(2) show ?case by (simp add: spsc_sys_inv_def)
next
  case (spsc_next s t)
  then show ?case by (blast intro: spsc_step_inv)
qed

text \<open>
  C29: under every interleaving of one producer and one consumer, the consumer receives exactly
  the committed elements in order, never a slot that is still being written: what was taken is
  a prefix of what was committed, and an element read but not yet released is the next one.
\<close>

theorem spsc_interleaved_fifo:
  assumes "spsc_reachable cap s" and "0 < cap"
  shows "committed s = taken s @ spsc_contents (ring s) \<and>
     (\<forall>y. cons s = CRead y \<longrightarrow> (\<exists>rest. committed s = taken s @ y # rest))"
proof -
  from spsc_reachable_inv [OF assms] have inv: "spsc_sys_inv s" .
  moreover have "cons s = CRead y \<Longrightarrow> spsc_contents (ring s) = y # tl (spsc_contents (ring s))" for y
    using inv spsc_release [of "ring s"] by (auto simp: spsc_sys_inv_def)
  ultimately show ?thesis by (metis spsc_sys_inv_def)
qed

lemma spsc_reachable_example:
  "spsc_reachable 2 \<lparr>ring = \<lparr>Capacity = 2, buffer = [7, 0 :: nat], writePos = 1, readPos = 0\<rparr>,
     prod = PIdle, cons = CIdle, committed = [7], taken = []\<rparr>"
proof -
  let ?s0 = "\<lparr>ring = SpscQueue_init 2 (0::nat), prod = PIdle, cons = CIdle, committed = [], taken = []\<rparr>"
  let ?s1 = "?s0\<lparr>prod := PChecked 7\<rparr>"
  let ?s2 = "?s1\<lparr>ring := (ring ?s1)\<lparr>buffer := (buffer (ring ?s1))[writePos (ring ?s1) := 7]\<rparr>, prod := PWritten 7\<rparr>"
  have "spsc_reachable 2 ?s1"
    by (rule spsc_next [OF spsc_start], rule p_check) (simp_all add: SpscQueue_init_def)
  then have "spsc_reachable 2 ?s2" by (rule spsc_next) (rule p_write, simp)
  from spsc_next [OF this p_publish [of ?s2 7]] show ?thesis
    by (simp add: SpscQueue_init_def numeral_2_eq_2)
qed

theorem spsc_interleaved_fifo_witness:
  "spsc_contents \<lparr>Capacity = 2, buffer = [7, 0 :: nat], writePos = 1, readPos = 0\<rparr> = [7]"
  using spsc_interleaved_fifo [OF spsc_reachable_example] by simp

end
