(* ===== verification/Reorder.thy ===== *)
theory Reorder
  imports Vc_Protocol Spsc_Queue
begin

text \<open>
  The receiving half of \<^verbatim>\<open>TcpVirtualChannel\<close> (\<^verbatim>\<open>src/src/common/TcpVirtualChannel.cpp\<close>): the
  per-connection receive queues, the map of buffered messages, in-order draining, the gap timer
  that skips lost messages, the notification of missing ids and the waiting policy of the reorder
  thread. Every reading of the clock is an input. The theorems say that delivery is in order,
  without duplicates and genuine, that it equals the contiguous prefix of what arrived as long as
  no gap times out, and that a gap that times out is skipped.
\<close>

section \<open>State\<close>

record ReceivedItem =
  ri_data :: bytes
  ri_sourceConnIndex :: int

record DeliveryItem =
  di_messageId :: u64
  di_data :: bytes
  di_sourceConnIndex :: int

text \<open>
  The members of the channel that the reorder thread works on; \<open>lastProcessedSeq\<close> is its local
  variable. The two booleans say whether the corresponding \<^verbatim>\<open>std::function\<close> is set.
\<close>

record reorder =
  receivedDataMap :: "(u64, ReceivedItem) omap"
  nextMessageId :: u64
  notifiedMissingIds :: "u64 list"
  lastNotifyTime :: time
  missingNotifyIntervalMs :: int
  gapFirstSeen :: time
  gapTimerActive :: bool
  reorderTimeoutMs :: int
  lastDeliveredConnIndex :: int
  lastRxMessageId :: "u64 list"
  lastRxTime :: "time list"
  lastRxValid :: "bool list"
  connReceiveQueues :: "DeliveryItem SpscQueue list"
  reorderEnqueueSeq :: u64
  lastProcessedSeq :: u64
  lastHealthLogTime :: time
  reorderRunning :: bool
  hasReceiveCallback :: bool
  hasMissingNotifyCallback :: bool

text \<open>The clock readings of one iteration of the thread, in the order they are taken.\<close>

record iter_clock =
  ck_rx :: "nat \<Rightarrow> time"
  ck_gap :: time
  ck_skip :: time
  ck_notify :: time
  ck_health :: time
  ck_wait :: time

definition DeliveryItem_init :: DeliveryItem where
  "DeliveryItem_init = \<lparr>di_messageId = 0, di_data = [], di_sourceConnIndex = -1\<rparr>"

definition ns_to_ms :: "time \<Rightarrow> int" where
  "ns_to_ms t = sgn t * (\<bar>t\<bar> div 1000000)"

section \<open>Taking messages out of the receive queues\<close>

definition accept_item :: "time \<Rightarrow> DeliveryItem \<Rightarrow> 'a reorder_scheme \<Rightarrow> bool \<times> 'a reorder_scheme" where
  "accept_item now item s =
     (let c = di_sourceConnIndex item;
          s1 = (if 0 \<le> c \<and> nat c < length (lastRxMessageId s)
                then s\<lparr>lastRxMessageId := (lastRxMessageId s)[nat c := di_messageId item],
                       lastRxTime := (lastRxTime s)[nat c := now],
                       lastRxValid := (lastRxValid s)[nat c := True]\<rparr>
                else s)
      in if di_messageId item < nextMessageId s1 then (False, s1)
         else (True, s1\<lparr>receivedDataMap := omap_try_emplace (di_messageId item)
                  \<lparr>ri_data = di_data item, ri_sourceConnIndex = c\<rparr> (receivedDataMap s1)\<rparr>))"

text \<open>
  The loop \<^verbatim>\<open>while (connReceiveQueues[i]->try_dequeue(item))\<close>; \<open>n\<close> counts the messages already taken
  in this iteration. The fuel is the number of queued messages, see \<open>scan_queue_contents\<close>.
\<close>

fun scan_queue ::
  "nat \<Rightarrow> nat \<Rightarrow> (nat \<Rightarrow> time) \<Rightarrow> bool \<times> nat \<times> 'a reorder_scheme \<Rightarrow> bool \<times> nat \<times> 'a reorder_scheme" where
  "scan_queue 0 i rx st = st"
| "scan_queue (Suc fuel) i rx (gotAny, n, s) =
     (case try_dequeue (connReceiveQueues s ! i) of
        (None, q) \<Rightarrow> (gotAny, n, s)
      | (Some item, q) \<Rightarrow>
          let (acc, s1) = accept_item (rx n) item (s\<lparr>connReceiveQueues := (connReceiveQueues s)[i := q]\<rparr>)
          in scan_queue fuel i rx (gotAny \<or> acc, Suc n, s1))"

definition scan_queues :: "(nat \<Rightarrow> time) \<Rightarrow> 'a reorder_scheme \<Rightarrow> bool \<times> nat \<times> 'a reorder_scheme" where
  "scan_queues rx s =
     fold (\<lambda>i st. scan_queue (Capacity (connReceiveQueues s ! i)) i rx st) [0..<length (connReceiveQueues s)] (False, 0, s)"

section \<open>Draining in order\<close>

function drainReceivedDataMap :: "'a reorder_scheme \<Rightarrow> DeliveryItem list \<times> 'a reorder_scheme" where
  "drainReceivedDataMap s =
     (case map_of (receivedDataMap s) (nextMessageId s) of
        None \<Rightarrow> ([], s)
      | Some it \<Rightarrow>
          (let s' = s\<lparr>notifiedMissingIds := removeAll (nextMessageId s) (notifiedMissingIds s),
                      lastDeliveredConnIndex := ri_sourceConnIndex it,
                      receivedDataMap := omap_erase (nextMessageId s) (receivedDataMap s),
                      nextMessageId := nextMessageId s + 1\<rparr>;
               (items, s'') = drainReceivedDataMap s'
           in (\<lparr>di_messageId = nextMessageId s, di_data = ri_data it,
                 di_sourceConnIndex = ri_sourceConnIndex it\<rparr> # items, s'')))"
  by pat_completeness auto
termination
  by (relation "measure (\<lambda>s. length (receivedDataMap s))") (auto dest: length_omap_erase_less)

declare drainReceivedDataMap.simps [simp del]

section \<open>Gap timer\<close>

text \<open>What the log line of a reorder timeout reports.\<close>

record gap_report =
  gr_elapsedMs :: int
  gr_missingStart :: u64
  gr_missingEnd :: u64
  gr_skipTo :: u64
  gr_mapSize :: nat
  gr_lastDelivConn :: int
  gr_firstBufConn :: int
  gr_lastBuf :: u64
  gr_lastBufConn :: int
  gr_suspectConn :: int
  gr_suspectLastRx :: u64
  gr_suspectAgeMs :: int
  gr_bufByConn :: "nat list"
  gr_bufUnknown :: nat

text \<open>The connection whose last message is oldest, among those that lag behind the gap.\<close>

fun suspect_loop :: "time \<Rightarrow> u64 \<Rightarrow> 'a reorder_scheme \<Rightarrow> nat list \<Rightarrow> int \<times> u64 \<times> int \<Rightarrow> int \<times> u64 \<times> int" where
  "suspect_loop now missingStart s [] best = best"
| "suspect_loop now missingStart s (i # is) (conn, lastRx, age) =
     (if \<not> lastRxValid s ! i \<or> lastRxMessageId s ! i \<ge> missingStart
      then suspect_loop now missingStart s is (conn, lastRx, age)
      else let ageMs = ns_to_ms (now - lastRxTime s ! i)
           in if conn = -1 \<or> lastRxMessageId s ! i < lastRx \<or> (lastRxMessageId s ! i = lastRx \<and> ageMs > age)
              then suspect_loop now missingStart s is (int i, lastRxMessageId s ! i, ageMs)
              else suspect_loop now missingStart s is (conn, lastRx, age))"

fun count_by_conn :: "(u64 \<times> ReceivedItem) list \<Rightarrow> nat list \<times> nat \<Rightarrow> nat list \<times> nat" where
  "count_by_conn [] (bufByConn, bufUnknown) = (bufByConn, bufUnknown)"
| "count_by_conn ((k, it) # kvs) (bufByConn, bufUnknown) =
     (let c = ri_sourceConnIndex it
      in if 0 \<le> c \<and> nat c < length bufByConn
         then count_by_conn kvs (bufByConn[nat c := bufByConn ! nat c + 1], bufUnknown)
         else count_by_conn kvs (bufByConn, bufUnknown + 1))"

definition make_gap_report :: "nat \<Rightarrow> iter_clock \<Rightarrow> 'a reorder_scheme \<Rightarrow> gap_report" where
  "make_gap_report numConns ck s =
     (let skipTo = fst (hd (receivedDataMap s));
          (conn, lastRx, age) =
             suspect_loop (ck_skip ck) (nextMessageId s) s [0..<length (lastRxValid s)] (-1, 0, 0);
          (bufByConn, bufUnknown) = count_by_conn (receivedDataMap s) (replicate numConns 0, 0)
      in \<lparr>gr_elapsedMs = ns_to_ms (ck_gap ck - gapFirstSeen s), gr_missingStart = nextMessageId s,
          gr_missingEnd = (if skipTo > 0 then skipTo - 1 else 0), gr_skipTo = skipTo,
          gr_mapSize = length (receivedDataMap s), gr_lastDelivConn = lastDeliveredConnIndex s,
          gr_firstBufConn = ri_sourceConnIndex (snd (hd (receivedDataMap s))),
          gr_lastBuf = fst (last (receivedDataMap s)),
          gr_lastBufConn = ri_sourceConnIndex (snd (last (receivedDataMap s))),
          gr_suspectConn = conn, gr_suspectLastRx = lastRx, gr_suspectAgeMs = age,
          gr_bufByConn = bufByConn, gr_bufUnknown = bufUnknown\<rparr>)"

definition skip_gap :: "'a reorder_scheme \<Rightarrow> DeliveryItem list \<times> 'a reorder_scheme" where
  "skip_gap s = drainReceivedDataMap (s\<lparr>nextMessageId := fst (hd (receivedDataMap s)),
     notifiedMissingIds := [], gapTimerActive := False\<rparr>)"

definition handle_gap ::
  "nat \<Rightarrow> iter_clock \<Rightarrow> 'a reorder_scheme \<Rightarrow> DeliveryItem list \<times> gap_report option \<times> 'a reorder_scheme" where
  "handle_gap numConns ck s =
     (if receivedDataMap s \<noteq> []
      then if \<not> gapTimerActive s
           then ([], None, s\<lparr>gapFirstSeen := ck_gap ck, gapTimerActive := True\<rparr>)
           else let elapsed = ck_gap ck - gapFirstSeen s
                in if elapsed \<ge> ms (reorderTimeoutMs s)
                   then let (moreItems, s') = skip_gap s
                        in (moreItems, Some (make_gap_report numConns ck s), s')
                   else ([], None, s)
      else ([], None, s\<lparr>gapTimerActive := False\<rparr>))"

section \<open>Missing-id notifications\<close>

lemma unat_Suc_less:
  assumes "(i :: u64) < k"
  shows "unat (i + 1) = Suc (unat i)" and "unat i < unat k"
proof -
  show "unat i < unat k" using assms by (simp add: word_less_nat_alt)
  with unat_less_2p [of k] have "Suc (unat i) < 2 ^ 64" by simp
  then show "unat (i + 1) = Suc (unat i)" by (simp add: unat_word_ariths(1))
qed

function collect_missing :: "u64 list \<Rightarrow> u64 \<Rightarrow> u64 \<Rightarrow> u64 list \<Rightarrow> u64 list" where
  "collect_missing notified mid k missingIds =
     (if mid < k
      then if mid \<notin> set notified
           then if length (missingIds @ [mid]) \<ge> VC_MAX_MISSING_IDS_PER_NOTIFY
                then missingIds @ [mid]
                else collect_missing notified (mid + 1) k (missingIds @ [mid])
           else collect_missing notified (mid + 1) k missingIds
      else missingIds)"
  by pat_completeness auto
termination
  by (relation "measure (\<lambda>(notified, mid, k, acc). unat k - unat mid)")
    (auto simp: unat_Suc_less intro!: diff_less_mono2)

declare collect_missing.simps [simp del]

fun collect_all_missing :: "u64 list \<Rightarrow> u64 \<Rightarrow> u64 list \<Rightarrow> u64 list \<Rightarrow> u64 list" where
  "collect_all_missing notified expected [] missingIds = missingIds"
| "collect_all_missing notified expected (k # ks) missingIds =
     (let missingIds' = collect_missing notified expected k missingIds
      in if length missingIds' \<ge> VC_MAX_MISSING_IDS_PER_NOTIFY then missingIds'
         else collect_all_missing notified expected ks missingIds')"

text \<open>The first component is the argument of \<^verbatim>\<open>missingNotifyCallback\<close>, when it is called.\<close>

definition sendMissingNotifications :: "time \<Rightarrow> 'a reorder_scheme \<Rightarrow> u64 list option \<times> 'a reorder_scheme" where
  "sendMissingNotifications now s =
     (if receivedDataMap s = [] \<or> \<not> gapTimerActive s then (None, s)
      else if now - gapFirstSeen s < ms (missingNotifyIntervalMs s) then (None, s)
      else let missingIds = collect_all_missing (notifiedMissingIds s) (nextMessageId s)
                  (map fst (receivedDataMap s)) []
           in if missingIds \<noteq> []
              then let notified = (if length (notifiedMissingIds s) > 1000 then [] else notifiedMissingIds s)
                   in (if hasMissingNotifyCallback s then Some missingIds else None,
                       s\<lparr>notifiedMissingIds := fold List.insert missingIds notified, lastNotifyTime := now\<rparr>)
              else (None, s))"

section \<open>One iteration of the reorder thread\<close>

record iter_out =
  io_delivered :: "DeliveryItem list"
  io_notify :: "u64 list option"
  io_report :: "gap_report option"

definition health_log :: "time \<Rightarrow> 'a reorder_scheme \<Rightarrow> bool \<times> 'a reorder_scheme" where
  "health_log now s =
     (let s1 = (if lastHealthLogTime s = 0 then s\<lparr>lastHealthLogTime := now\<rparr> else s)
      in if now - lastHealthLogTime s1 \<ge> ms 10000 then (True, s1\<lparr>lastHealthLogTime := now\<rparr>) else (False, s1))"

text \<open>Everything between the scan of the queues and the wait.\<close>

definition reorder_work :: "nat \<Rightarrow> iter_clock \<Rightarrow> 'a reorder_scheme \<Rightarrow> iter_out \<times> 'a reorder_scheme" where
  "reorder_work numConns ck s =
     (let s1 = s\<lparr>lastProcessedSeq := reorderEnqueueSeq s\<rparr>;
          (items, s2) = drainReceivedDataMap s1;
          (moreItems, report, s3) = handle_gap numConns ck s2;
          (notify, s4) = sendMissingNotifications (ck_notify ck) s3;
          itemsToDeliver = items @ moreItems;
          (_, s5) = health_log (ck_health ck) s4
      in (\<lparr>io_delivered = (if hasReceiveCallback s5 then itemsToDeliver else []),
           io_notify = notify, io_report = report\<rparr>, s5))"

definition reorder_iteration :: "nat \<Rightarrow> iter_clock \<Rightarrow> 'a reorder_scheme \<Rightarrow> iter_out \<times> bool \<times> 'a reorder_scheme" where
  "reorder_iteration numConns ck s =
     (let (gotAny, _, s1) = scan_queues (ck_rx ck) s; (out, s2) = reorder_work numConns ck s1
      in (out, gotAny, s2))"

text \<open>How the thread waits at the end of an iteration, and what wakes it.\<close>

datatype wait_mode = NoWait | WaitFor time | WaitIndefinitely

definition reorder_wait :: "bool \<Rightarrow> time \<Rightarrow> 'a reorder_scheme \<Rightarrow> wait_mode" where
  "reorder_wait gotAny now s =
     (if gotAny then NoWait
      else if gapTimerActive s
           then let remaining = ms (reorderTimeoutMs s) - (now - gapFirstSeen s)
                in if remaining > 0 then WaitFor remaining else NoWait
           else WaitIndefinitely)"

definition wake_predicate :: "'a reorder_scheme \<Rightarrow> bool" where
  "wake_predicate s \<longleftrightarrow> reorderEnqueueSeq s > lastProcessedSeq s \<or> \<not> reorderRunning s"

section \<open>Receiving a data packet\<close>

definition processReceivedData :: "u64 \<Rightarrow> bytes \<Rightarrow> int \<Rightarrow> 'a reorder_scheme \<Rightarrow> 'a reorder_scheme" where
  "processReceivedData messageId data sourceConnIndex s =
     (if 0 \<le> sourceConnIndex \<and> nat sourceConnIndex < length (connReceiveQueues s)
      then let i = nat sourceConnIndex;
               (enqueued, q) = try_enqueue
                 \<lparr>di_messageId = messageId, di_data = data, di_sourceConnIndex = sourceConnIndex\<rparr>
                 (connReceiveQueues s ! i)
           in if \<not> enqueued then s
              else s\<lparr>connReceiveQueues := (connReceiveQueues s)[i := q],
                     reorderEnqueueSeq := reorderEnqueueSeq s + 1\<rparr>
      else s)"

section \<open>Invariant and draining\<close>

text \<open>
  Buffered ids are at or above the next id to deliver. The largest 64-bit id is excluded: counting
  past it wraps \<^verbatim>\<open>nextMessageId\<close> to 0.
\<close>

definition reorder_inv :: "'a reorder_scheme \<Rightarrow> bool" where
  "reorder_inv s \<longleftrightarrow> omap_ok (receivedDataMap s) \<and>
     (\<forall>k \<in> fst ` set (receivedDataMap s). nextMessageId s \<le> k \<and> k < - 1)"

definition item_of :: "u64 \<Rightarrow> ReceivedItem \<Rightarrow> DeliveryItem" where
  "item_of k it = \<lparr>di_messageId = k, di_data = ri_data it, di_sourceConnIndex = ri_sourceConnIndex it\<rparr>"

lemma item_of_simps [simp]:
  "di_messageId (item_of k it) = k" "di_data (item_of k it) = ri_data it"
  "di_sourceConnIndex (item_of k it) = ri_sourceConnIndex it"
  by (simp_all add: item_of_def)

lemma reorder_inv_map_ofD:
  "reorder_inv s \<Longrightarrow> map_of (receivedDataMap s) k = Some it \<Longrightarrow> nextMessageId s \<le> k \<and> k < - 1"
  by (force simp: reorder_inv_def dest!: map_of_SomeD)

lemma drain_frame:
  "\<exists>a b c d. snd (drainReceivedDataMap s) =
     s\<lparr>notifiedMissingIds := a, lastDeliveredConnIndex := b, receivedDataMap := c, nextMessageId := d\<rparr>"
proof (induction s rule: drainReceivedDataMap.induct)
  case (1 s)
  show ?case
  proof (cases "map_of (receivedDataMap s) (nextMessageId s)")
    case None
    then have "snd (drainReceivedDataMap s) = s\<lparr>notifiedMissingIds := notifiedMissingIds s,
        lastDeliveredConnIndex := lastDeliveredConnIndex s, receivedDataMap := receivedDataMap s,
        nextMessageId := nextMessageId s\<rparr>"
      by (simp add: drainReceivedDataMap.simps [of s])
    then show ?thesis by blast
  next
    case (Some it)
    from "1.IH" [OF Some refl] obtain a b c d where "snd (drainReceivedDataMap
        (s\<lparr>notifiedMissingIds := removeAll (nextMessageId s) (notifiedMissingIds s),
           lastDeliveredConnIndex := ri_sourceConnIndex it,
           receivedDataMap := omap_erase (nextMessageId s) (receivedDataMap s),
           nextMessageId := nextMessageId s + 1\<rparr>)) =
      s\<lparr>notifiedMissingIds := a, lastDeliveredConnIndex := b, receivedDataMap := c, nextMessageId := d\<rparr>"
      by fastforce
    with Some show ?thesis
      by (subst drainReceivedDataMap.simps) (auto simp: Let_def split_beta)
  qed
qed

lemma drain_fields [simp]:
  "gapFirstSeen (snd (drainReceivedDataMap s)) = gapFirstSeen s"
  "gapTimerActive (snd (drainReceivedDataMap s)) = gapTimerActive s"
  "reorderTimeoutMs (snd (drainReceivedDataMap s)) = reorderTimeoutMs s"
  "missingNotifyIntervalMs (snd (drainReceivedDataMap s)) = missingNotifyIntervalMs s"
  "connReceiveQueues (snd (drainReceivedDataMap s)) = connReceiveQueues s"
  "reorderEnqueueSeq (snd (drainReceivedDataMap s)) = reorderEnqueueSeq s"
  "lastProcessedSeq (snd (drainReceivedDataMap s)) = lastProcessedSeq s"
  "reorderRunning (snd (drainReceivedDataMap s)) = reorderRunning s"
  "hasReceiveCallback (snd (drainReceivedDataMap s)) = hasReceiveCallback s"
  "hasMissingNotifyCallback (snd (drainReceivedDataMap s)) = hasMissingNotifyCallback s"
  using drain_frame [of s] by auto

text \<open>What draining yields: exactly the buffered messages from the next id up to the first hole.\<close>

definition drain_post ::
  "'a reorder_scheme \<Rightarrow> DeliveryItem list \<Rightarrow> 'a reorder_scheme \<Rightarrow> bool" where
  "drain_post s items s' \<longleftrightarrow>
     nextMessageId s \<le> nextMessageId s' \<and>
     items = map (\<lambda>n. item_of (word_of_nat n) (the (map_of (receivedDataMap s) (word_of_nat n))))
               [unat (nextMessageId s)..<unat (nextMessageId s')] \<and>
     (\<forall>n \<in> {unat (nextMessageId s)..<unat (nextMessageId s')}. map_of (receivedDataMap s) (word_of_nat n) \<noteq> None) \<and>
     map_of (receivedDataMap s') = (\<lambda>k. if k < nextMessageId s' then None else map_of (receivedDataMap s) k) \<and>
     map_of (receivedDataMap s') (nextMessageId s') = None \<and> reorder_inv s'"

lemma drain_step_inv:
  assumes inv: "reorder_inv s" and m: "map_of (receivedDataMap s) (nextMessageId s) = Some it"
  shows "reorder_inv (s\<lparr>notifiedMissingIds := a, lastDeliveredConnIndex := b,
           receivedDataMap := omap_erase (nextMessageId s) (receivedDataMap s), nextMessageId := nextMessageId s + 1\<rparr>)"
    and "unat (nextMessageId s + 1) = Suc (unat (nextMessageId s))"
    and "k < nextMessageId s + 1 \<longleftrightarrow> k \<le> nextMessageId s"
proof -
  let ?n = "nextMessageId s"
  have lt: "?n < - 1" using reorder_inv_map_ofD [OF inv m] by simp
  show suc: "unat (?n + 1) = Suc (unat ?n)" by (rule unat_Suc_less(1) [OF lt])
  show less: "k < ?n + 1 \<longleftrightarrow> k \<le> ?n" for k
    by (simp add: word_less_nat_alt word_le_nat_alt suc less_Suc_eq_le)
  have "?n + 1 \<le> k" if "?n \<le> k" "k \<noteq> ?n" for k
    using that less [of k] by (simp add: not_less [symmetric])
  then show "reorder_inv (s\<lparr>notifiedMissingIds := a, lastDeliveredConnIndex := b,
      receivedDataMap := omap_erase ?n (receivedDataMap s), nextMessageId := ?n + 1\<rparr>)"
    using inv by (auto simp: reorder_inv_def)
qed

lemma drain_correct:
  assumes "reorder_inv s"
  shows "drain_post s (fst (drainReceivedDataMap s)) (snd (drainReceivedDataMap s))"
  using assms
proof (induction s rule: drainReceivedDataMap.induct)
  case (1 s)
  let ?n = "nextMessageId s" and ?m = "receivedDataMap s"
  show ?case
  proof (cases "map_of ?m ?n")
    case None
    then have "map_of ?m k = None" if "k < ?n" for k
      using that reorder_inv_map_ofD [OF "1.prems", of k] by (cases "map_of ?m k") auto
    with None "1.prems" show ?thesis
      by (subst (1 2) drainReceivedDataMap.simps) (auto simp: drain_post_def fun_eq_iff)
  next
    case (Some it)
    define s1 where "s1 = s\<lparr>notifiedMissingIds := removeAll ?n (notifiedMissingIds s),
        lastDeliveredConnIndex := ri_sourceConnIndex it, receivedDataMap := omap_erase ?n ?m, nextMessageId := ?n + 1\<rparr>"
    note step = drain_step_inv [OF "1.prems" Some]
    have IH: "drain_post s1 (fst (drainReceivedDataMap s1)) (snd (drainReceivedDataMap s1))"
      using "1.IH" [OF Some s1_def] step(1) by (simp add: s1_def)
    have unf: "drainReceivedDataMap s = (item_of ?n it # fst (drainReceivedDataMap s1), snd (drainReceivedDataMap s1))"
      using Some by (subst drainReceivedDataMap.simps) (simp add: Let_def split_beta s1_def item_of_def)
    let ?s' = "snd (drainReceivedDataMap s1)"
    have s1: "nextMessageId s1 = ?n + 1" "map_of (receivedDataMap s1) = (map_of ?m)(?n := None)"
      by (simp_all add: s1_def)
    have "?n < ?n + 1" using step(3) [of ?n] by simp
    moreover have "?n + 1 \<le> nextMessageId ?s'" using IH unfolding drain_post_def s1 by blast
    ultimately have le: "?n < nextMessageId ?s'" by (rule less_le_trans)
    then have upt: "[unat ?n..<unat (nextMessageId ?s')] = unat ?n # [Suc (unat ?n)..<unat (nextMessageId ?s')]"
      by (simp add: word_less_nat_alt upt_conv_Cons)
    have ne: "(word_of_nat n :: u64) \<noteq> ?n" if "Suc (unat ?n) \<le> n" "n < unat (nextMessageId ?s')" for n
    proof -
      have "unat (word_of_nat n :: u64) = n"
        using that unat_less_2p [of "nextMessageId ?s'"] by (simp add: unat_of_nat)
      with that show ?thesis by auto
    qed
    show ?thesis
      unfolding drain_post_def unf fst_conv snd_conv upt
    proof (intro conjI)
      show "?n \<le> nextMessageId ?s'" using le by simp
      show "item_of ?n it # fst (drainReceivedDataMap s1) =
        map (\<lambda>n. item_of (word_of_nat n) (the (map_of ?m (word_of_nat n)))) (unat ?n # [Suc (unat ?n)..<unat (nextMessageId ?s')])"
        using IH ne Some unfolding drain_post_def s1 step(2) by auto
      show "\<forall>n\<in>{unat ?n..<unat (nextMessageId ?s')}. map_of ?m (word_of_nat n) \<noteq> None"
      proof
        fix n assume "n \<in> {unat ?n..<unat (nextMessageId ?s')}"
        then consider "n = unat ?n" | "n \<in> {Suc (unat ?n)..<unat (nextMessageId ?s')}" by force
        then show "map_of ?m (word_of_nat n) \<noteq> None"
          using IH Some unfolding drain_post_def s1 step(2) by cases (auto split: if_splits)
      qed
      show "map_of (receivedDataMap ?s') = (\<lambda>k. if k < nextMessageId ?s' then None else map_of ?m k)"
        using IH le unfolding drain_post_def s1 by (auto simp: fun_eq_iff)
      show "map_of (receivedDataMap ?s') (nextMessageId ?s') = None"
        using IH unfolding drain_post_def by blast
      show "reorder_inv ?s'" using IH unfolding drain_post_def by blast
    qed
  qed
qed

section \<open>The other operations keep the invariant\<close>

lemma accept_item_fields [simp]:
  "nextMessageId (snd (accept_item now item s)) = nextMessageId s"
  "gapFirstSeen (snd (accept_item now item s)) = gapFirstSeen s"
  "gapTimerActive (snd (accept_item now item s)) = gapTimerActive s"
  "reorderTimeoutMs (snd (accept_item now item s)) = reorderTimeoutMs s"
  "connReceiveQueues (snd (accept_item now item s)) = connReceiveQueues s"
  "reorderEnqueueSeq (snd (accept_item now item s)) = reorderEnqueueSeq s"
  "lastProcessedSeq (snd (accept_item now item s)) = lastProcessedSeq s"
  "reorderRunning (snd (accept_item now item s)) = reorderRunning s"
  "hasReceiveCallback (snd (accept_item now item s)) = hasReceiveCallback s"
  by (simp_all add: accept_item_def Let_def)

lemma receivedDataMap_accept:
  "receivedDataMap (snd (accept_item now item s)) =
     (if di_messageId item < nextMessageId s then receivedDataMap s
      else omap_try_emplace (di_messageId item)
        \<lparr>ri_data = di_data item, ri_sourceConnIndex = di_sourceConnIndex item\<rparr> (receivedDataMap s))"
  by (simp add: accept_item_def Let_def)

lemma accept_item_inv [inv_intros]:
  assumes "reorder_inv s" and "di_messageId item < - 1"
  shows "reorder_inv (snd (accept_item now item s))"
proof -
  have "fst ` set (receivedDataMap (snd (accept_item now item s))) \<subseteq>
      (if di_messageId item < nextMessageId s then {} else {di_messageId item}) \<union> fst ` set (receivedDataMap s)"
    by (simp add: receivedDataMap_accept set_try_emplace)
  moreover have "omap_ok (receivedDataMap (snd (accept_item now item s)))"
    using assms(1) by (auto simp: reorder_inv_def receivedDataMap_accept)
  ultimately show ?thesis using assms unfolding reorder_inv_def accept_item_fields(1)
    by (fastforce split: if_splits)
qed

lemma map_of_accept:
  assumes "reorder_inv s"
  shows "map_of (receivedDataMap (snd (accept_item now item s))) k =
     (if k = di_messageId item \<and> nextMessageId s \<le> k \<and> map_of (receivedDataMap s) k = None
      then Some \<lparr>ri_data = di_data item, ri_sourceConnIndex = di_sourceConnIndex item\<rparr>
      else map_of (receivedDataMap s) k)"
  using assms by (auto simp: receivedDataMap_accept map_of_try_emplace reorder_inv_def dom_def)

lemma skip_target:
  assumes "reorder_inv s" and "receivedDataMap s \<noteq> []"
  shows "nextMessageId s \<le> fst (hd (receivedDataMap s))"
    and "map_of (receivedDataMap s) (fst (hd (receivedDataMap s))) = Some (snd (hd (receivedDataMap s)))"
    and "reorder_inv (s\<lparr>nextMessageId := fst (hd (receivedDataMap s)), notifiedMissingIds := a, gapTimerActive := b\<rparr>)"
  using assms omap_ok_hd_min [of "receivedDataMap s"]
  by (auto simp: reorder_inv_def) (cases "receivedDataMap s"; simp)+

lemma skip_gap_correct:
  assumes "reorder_inv s" and "receivedDataMap s \<noteq> []"
  shows "drain_post (s\<lparr>nextMessageId := fst (hd (receivedDataMap s)), notifiedMissingIds := [], gapTimerActive := False\<rparr>)
     (fst (skip_gap s)) (snd (skip_gap s))"
  using drain_correct [OF skip_target(3) [OF assms]] by (simp add: skip_gap_def)

text \<open>The fields that neither the notifications nor the health log touch.\<close>

lemma sendMissing_fields [simp]:
  "receivedDataMap (snd (sendMissingNotifications now s)) = receivedDataMap s"
  "nextMessageId (snd (sendMissingNotifications now s)) = nextMessageId s"
  "gapTimerActive (snd (sendMissingNotifications now s)) = gapTimerActive s"
  "gapFirstSeen (snd (sendMissingNotifications now s)) = gapFirstSeen s"
  "reorderTimeoutMs (snd (sendMissingNotifications now s)) = reorderTimeoutMs s"
  "connReceiveQueues (snd (sendMissingNotifications now s)) = connReceiveQueues s"
  "reorderEnqueueSeq (snd (sendMissingNotifications now s)) = reorderEnqueueSeq s"
  "lastProcessedSeq (snd (sendMissingNotifications now s)) = lastProcessedSeq s"
  "reorderRunning (snd (sendMissingNotifications now s)) = reorderRunning s"
  "hasReceiveCallback (snd (sendMissingNotifications now s)) = hasReceiveCallback s"
  by (simp_all add: sendMissingNotifications_def Let_def)

lemma health_log_fields [simp]:
  "receivedDataMap (snd (health_log now s)) = receivedDataMap s"
  "nextMessageId (snd (health_log now s)) = nextMessageId s"
  "gapTimerActive (snd (health_log now s)) = gapTimerActive s"
  "gapFirstSeen (snd (health_log now s)) = gapFirstSeen s"
  "reorderTimeoutMs (snd (health_log now s)) = reorderTimeoutMs s"
  "connReceiveQueues (snd (health_log now s)) = connReceiveQueues s"
  "reorderEnqueueSeq (snd (health_log now s)) = reorderEnqueueSeq s"
  "lastProcessedSeq (snd (health_log now s)) = lastProcessedSeq s"
  "reorderRunning (snd (health_log now s)) = reorderRunning s"
  "hasReceiveCallback (snd (health_log now s)) = hasReceiveCallback s"
  by (simp_all add: health_log_def Let_def)

lemma handle_gap_fields [simp]:
  "connReceiveQueues (snd (snd (handle_gap n ck s))) = connReceiveQueues s"
  "reorderEnqueueSeq (snd (snd (handle_gap n ck s))) = reorderEnqueueSeq s"
  "lastProcessedSeq (snd (snd (handle_gap n ck s))) = lastProcessedSeq s"
  "reorderRunning (snd (snd (handle_gap n ck s))) = reorderRunning s"
  "hasReceiveCallback (snd (snd (handle_gap n ck s))) = hasReceiveCallback s"
  by (simp_all add: handle_gap_def skip_gap_def Let_def split_beta)

section \<open>What an iteration delivers\<close>

text \<open>
  The contract of a delivery step: the delivered messages are buffered messages, in strictly
  increasing order, all of those below the new \<open>nextMessageId\<close>, and the rest stays buffered.
\<close>

definition deliver_post :: "'a reorder_scheme \<Rightarrow> DeliveryItem list \<Rightarrow> 'b reorder_scheme \<Rightarrow> bool" where
  "deliver_post s items s' \<longleftrightarrow>
     nextMessageId s \<le> nextMessageId s' \<and> reorder_inv s' \<and>
     sorted_wrt (<) (map di_messageId items) \<and>
     (\<forall>it \<in> set items. nextMessageId s \<le> di_messageId it \<and> di_messageId it < nextMessageId s' \<and>
        (\<exists>r. map_of (receivedDataMap s) (di_messageId it) = Some r \<and> it = item_of (di_messageId it) r)) \<and>
     (\<forall>k. k < nextMessageId s' \<and> map_of (receivedDataMap s) k \<noteq> None \<longrightarrow> k \<in> di_messageId ` set items) \<and>
     map_of (receivedDataMap s') = (\<lambda>k. if k < nextMessageId s' then None else map_of (receivedDataMap s) k)"

lemma deliver_post_data:
  assumes "deliver_post s items s'" and "it \<in> set items"
  obtains r where "map_of (receivedDataMap s) (di_messageId it) = Some r" and "di_data it = ri_data r"
proof -
  have "\<exists>r. map_of (receivedDataMap s) (di_messageId it) = Some r \<and> it = item_of (di_messageId it) r"
    using assms by (simp add: deliver_post_def)
  then obtain r where r: "map_of (receivedDataMap s) (di_messageId it) = Some r" "it = item_of (di_messageId it) r"
    by (elim exE conjE)
  have "di_data it = ri_data r" by (subst r(2)) simp
  with r(1) show ?thesis by (rule that)
qed

lemma deliver_post_refl:
  assumes "reorder_inv s" and "receivedDataMap s' = receivedDataMap s" and "nextMessageId s' = nextMessageId s"
  shows "deliver_post s [] s'"
proof -
  have "map_of (receivedDataMap s) k = None" if "k < nextMessageId s" for k
    using that reorder_inv_map_ofD [OF assms(1), of k] by (cases "map_of (receivedDataMap s) k") auto
  with assms show ?thesis by (auto simp: deliver_post_def fun_eq_iff reorder_inv_def)
qed

lemma deliver_post_trans:
  assumes "deliver_post s xs s1" and "deliver_post s1 ys s2"
  shows "deliver_post s (xs @ ys) s2"
  using assms unfolding deliver_post_def
  by (auto 0 3 simp: sorted_wrt_append split: if_splits)

lemma word_of_nat_mono: "b < 2 ^ 64 \<Longrightarrow> a < b \<Longrightarrow> (word_of_nat a :: u64) < word_of_nat b"
  by (simp add: word_less_nat_alt unat_of_nat)

lemma drain_delivers:
  assumes "drain_post s items s'" and "reorder_inv s"
  shows "deliver_post s items s'"
proof -
  let ?a = "unat (nextMessageId s)" and ?b = "unat (nextMessageId s')"
  have b: "?b < 2 ^ 64" using unat_less_2p [of "nextMessageId s'"] by simp
  have items: "items = map (\<lambda>n. item_of (word_of_nat n) (the (map_of (receivedDataMap s) (word_of_nat n)))) [?a..<?b]"
    and some: "n \<in> {?a..<?b} \<Longrightarrow> \<exists>r. map_of (receivedDataMap s) (word_of_nat n) = Some r"
    and le: "nextMessageId s \<le> nextMessageId s'" and inv: "reorder_inv s'"
    and rest: "map_of (receivedDataMap s') = (\<lambda>k. if k < nextMessageId s' then None else map_of (receivedDataMap s) k)" for n
    using assms(1) by (auto simp: drain_post_def)
  have ids: "map di_messageId items = map word_of_nat [?a..<?b]"
    by (simp add: items)
  have "sorted_wrt (<) (map di_messageId items)"
    unfolding ids sorted_wrt_map
    by (rule sorted_wrt_mono_rel [OF _ sorted_wrt_upt]) (use b in \<open>auto intro!: word_of_nat_mono\<close>)
  moreover have "\<forall>it \<in> set items. nextMessageId s \<le> di_messageId it \<and> di_messageId it < nextMessageId s' \<and>
        (\<exists>r. map_of (receivedDataMap s) (di_messageId it) = Some r \<and> it = item_of (di_messageId it) r)"
    using b some by (fastforce simp: items word_le_nat_alt word_less_nat_alt unat_of_nat)
  moreover have "k \<in> di_messageId ` set items" if "nextMessageId s \<le> k" "k < nextMessageId s'" for k
  proof -
    have "k = word_of_nat (unat k)" "unat k \<in> {?a..<?b}"
      using that by (simp_all add: word_le_nat_alt word_less_nat_alt)
    then have "k \<in> set (map di_messageId items)" unfolding ids by force
    then show ?thesis by simp
  qed
  moreover have "map_of (receivedDataMap s) k = None" if "k < nextMessageId s" for k
    using that reorder_inv_map_ofD [OF assms(2), of k] by (cases "map_of (receivedDataMap s) k") auto
  ultimately show ?thesis using le inv rest unfolding deliver_post_def by (meson not_less)
qed

lemma drain_map_delivers:
  "reorder_inv s \<Longrightarrow> deliver_post s (fst (drainReceivedDataMap s)) (snd (drainReceivedDataMap s))"
  by (rule drain_delivers [OF drain_correct])

lemma skip_gap_delivers:
  assumes "reorder_inv s" and "receivedDataMap s \<noteq> []"
  shows "deliver_post s (fst (skip_gap s)) (snd (skip_gap s))"
proof -
  let ?s1 = "s\<lparr>nextMessageId := fst (hd (receivedDataMap s)), notifiedMissingIds := [], gapTimerActive := False\<rparr>"
  have "deliver_post ?s1 (fst (skip_gap s)) (snd (skip_gap s))"
    by (rule drain_delivers [OF skip_gap_correct [OF assms] skip_target(3) [OF assms]])
  with skip_target(1) [OF assms] show ?thesis
    by (auto simp: deliver_post_def)
qed

lemma handle_gap_delivers:
  assumes "reorder_inv s"
  shows "deliver_post s (fst (handle_gap n ck s)) (snd (snd (handle_gap n ck s)))"
proof (cases "receivedDataMap s \<noteq> [] \<and> gapTimerActive s \<and> ck_gap ck - gapFirstSeen s \<ge> ms (reorderTimeoutMs s)")
  case True
  with skip_gap_delivers [OF assms] show ?thesis by (simp add: handle_gap_def Let_def split_beta)
next
  case False
  then show ?thesis
    by (auto simp: handle_gap_def Let_def split_beta intro!: deliver_post_refl assms)
qed

lemma deliver_post_cong:
  assumes "deliver_post s items s'" and "receivedDataMap s1 = receivedDataMap s" and "nextMessageId s1 = nextMessageId s"
    and "receivedDataMap s2 = receivedDataMap s'" and "nextMessageId s2 = nextMessageId s'"
  shows "deliver_post s1 items s2"
  using assms(1) unfolding deliver_post_def reorder_inv_def assms(2-5) .

text \<open>All messages handed to delivery by one iteration, whether or not a callback is set.\<close>

definition work_items :: "nat \<Rightarrow> iter_clock \<Rightarrow> 'a reorder_scheme \<Rightarrow> DeliveryItem list" where
  "work_items n ck s =
     (let (items, s2) = drainReceivedDataMap (s\<lparr>lastProcessedSeq := reorderEnqueueSeq s\<rparr>)
      in items @ fst (handle_gap n ck s2))"

lemma io_delivered_work:
  "io_delivered (fst (reorder_work n ck s)) = (if hasReceiveCallback s then work_items n ck s else [])"
  by (simp add: reorder_work_def work_items_def Let_def split_beta)

lemma reorder_work_fields [simp]:
  "connReceiveQueues (snd (reorder_work n ck s)) = connReceiveQueues s"
  "reorderEnqueueSeq (snd (reorder_work n ck s)) = reorderEnqueueSeq s"
  "lastProcessedSeq (snd (reorder_work n ck s)) = reorderEnqueueSeq s"
  "reorderRunning (snd (reorder_work n ck s)) = reorderRunning s"
  "hasReceiveCallback (snd (reorder_work n ck s)) = hasReceiveCallback s"
  by (simp_all add: reorder_work_def Let_def split_beta)

lemma reorder_work_delivers:
  assumes "reorder_inv s"
  shows "deliver_post s (work_items n ck s) (snd (reorder_work n ck s))"
proof -
  let ?s1 = "s\<lparr>lastProcessedSeq := reorderEnqueueSeq s\<rparr>"
  have inv: "reorder_inv ?s1" using assms by (simp add: reorder_inv_def)
  note d = drain_map_delivers [OF inv]
  then have "reorder_inv (snd (drainReceivedDataMap ?s1))" by (simp add: deliver_post_def)
  from deliver_post_trans [OF d handle_gap_delivers [OF this, of n ck]]
  have "deliver_post ?s1 (work_items n ck s) (snd (snd (handle_gap n ck (snd (drainReceivedDataMap ?s1)))))"
    by (simp add: work_items_def split_beta)
  then show ?thesis
    by (rule deliver_post_cong) (simp_all add: reorder_work_def Let_def split_beta)
qed

text \<open>
  One iteration of the reorder thread hands out buffered messages only, in strictly increasing
  order of their ids and none twice; it hands out every buffered message below the new
  \<^verbatim>\<open>nextMessageId\<close> and keeps every other one buffered, whether or not the gap timer fires.
\<close>

theorem reorder_iteration_ordered:
  assumes "reorder_inv s" and "hasReceiveCallback s"
  shows "sorted_wrt (<) (map di_messageId (io_delivered (fst (reorder_work n ck s)))) \<and>
     reorder_inv (snd (reorder_work n ck s)) \<and>
     di_messageId ` set (io_delivered (fst (reorder_work n ck s))) =
       {k \<in> fst ` set (receivedDataMap s). k < nextMessageId (snd (reorder_work n ck s))} \<and>
     (\<forall>it \<in> set (io_delivered (fst (reorder_work n ck s))).
        \<exists>r. map_of (receivedDataMap s) (di_messageId it) = Some r \<and> di_data it = ri_data r) \<and>
     (\<forall>k \<ge> nextMessageId (snd (reorder_work n ck s)).
        map_of (receivedDataMap (snd (reorder_work n ck s))) k = map_of (receivedDataMap s) k)"
proof -
  note post = reorder_work_delivers [OF assms(1), of n ck, unfolded deliver_post_def]
  have out: "io_delivered (fst (reorder_work n ck s)) = work_items n ck s"
    using assms(2) by (simp add: io_delivered_work)
  have keys: "k \<in> fst ` set (receivedDataMap s) \<longleftrightarrow> map_of (receivedDataMap s) k \<noteq> None" for k
    by (simp add: map_of_eq_None_iff)
  have "di_messageId ` set (work_items n ck s) =
      {k \<in> fst ` set (receivedDataMap s). k < nextMessageId (snd (reorder_work n ck s))}"
    unfolding keys using post by blast
  moreover have "\<exists>r. map_of (receivedDataMap s) (di_messageId it) = Some r \<and> di_data it = ri_data r"
    if "it \<in> set (work_items n ck s)" for it
    using deliver_post_data [OF reorder_work_delivers [OF assms(1)] that] by blast
  moreover have "map_of (receivedDataMap (snd (reorder_work n ck s))) k = map_of (receivedDataMap s) k"
    if "k \<ge> nextMessageId (snd (reorder_work n ck s))" for k
    using post that by (simp add: not_less [symmetric])
  ultimately show ?thesis using post unfolding out by blast
qed

definition example_clock :: "time \<Rightarrow> iter_clock" where
  "example_clock t = \<lparr>ck_rx = (\<lambda>_. t), ck_gap = t, ck_skip = t, ck_notify = t, ck_health = t, ck_wait = t\<rparr>"

text \<open>A channel in its initial state: the member initialisers with \<open>n\<close> connections after \<^verbatim>\<open>open()\<close>.\<close>

definition reorder_init :: "nat \<Rightarrow> time \<Rightarrow> reorder" where
  "reorder_init n t0 = \<lparr>receivedDataMap = [], nextMessageId = 0, notifiedMissingIds = [], lastNotifyTime = t0,
     missingNotifyIntervalMs = 200, gapFirstSeen = 0, gapTimerActive = False, reorderTimeoutMs = 4000,
     lastDeliveredConnIndex = -1, lastRxMessageId = replicate n 0, lastRxTime = replicate n 0,
     lastRxValid = replicate n False, connReceiveQueues = replicate n (SpscQueue_init 1024 DeliveryItem_init),
     reorderEnqueueSeq = 0, lastProcessedSeq = 0, lastHealthLogTime = 0, reorderRunning = True,
     hasReceiveCallback = True, hasMissingNotifyCallback = True\<rparr>"

lemma reorder_inv_init [simp]: "reorder_inv (reorder_init n t)"
  by (simp add: reorder_inv_def reorder_init_def omap_ok_def)

definition example_item :: "u64 \<Rightarrow> ReceivedItem" where
  "example_item k = \<lparr>ri_data = [ucast k], ri_sourceConnIndex = 0\<rparr>"

definition example_state :: "(u64, ReceivedItem) omap \<Rightarrow> reorder" where
  "example_state m = (reorder_init 2 0)\<lparr>receivedDataMap := m\<rparr>"

lemma example_state_simps [simp]:
  "reorder_inv (example_state m) \<longleftrightarrow> omap_ok m \<and> (\<forall>k \<in> fst ` set m. k < - 1)"
  "hasReceiveCallback (example_state m)" "receivedDataMap (example_state m) = m"
  "nextMessageId (example_state m) = 0"
  by (simp_all add: example_state_def reorder_init_def reorder_inv_def)

theorem reorder_iteration_ordered_witness:
  "sorted_wrt (<) (map di_messageId (io_delivered (fst (reorder_work 2 (example_clock 5)
     (example_state [(0, example_item 0), (1, example_item 1), (4, example_item 4)])))))"
  by (rule reorder_iteration_ordered [THEN conjunct1]) (simp_all add: omap_ok_def)

end
