(* ===== verification/Reorder_Gap.thy ===== *)
theory Reorder_Gap
  imports Reorder
begin

text \<open>
  Behaviour of one iteration of the reorder thread in detail: which messages it takes out of the
  receive queues, when a gap is skipped, which missing ids it reports to the peer and how often,
  and how long it may sleep.
\<close>

section \<open>Skipping a gap\<close>

lemma drain_stuck: "map_of (receivedDataMap s) (nextMessageId s) = None \<Longrightarrow> drainReceivedDataMap s = ([], s)"
  by (simp add: drainReceivedDataMap.simps [of s])

lemma skip_gap_progress:
  assumes "reorder_inv s" and "receivedDataMap s \<noteq> []"
  shows "fst (hd (receivedDataMap s)) < nextMessageId (snd (skip_gap s))"
    and "fst (skip_gap s) \<noteq> []"
    and "hd (fst (skip_gap s)) = item_of (fst (hd (receivedDataMap s))) (snd (hd (receivedDataMap s)))"
proof -
  let ?k = "fst (hd (receivedDataMap s))" and ?n' = "nextMessageId (snd (skip_gap s))"
  have le: "?k \<le> ?n'" and items: "fst (skip_gap s) =
      map (\<lambda>n. item_of (word_of_nat n) (the (map_of (receivedDataMap s) (word_of_nat n)))) [unat ?k..<unat ?n']"
    and none: "map_of (receivedDataMap s) ?n' = None"
    using skip_gap_correct [OF assms] by (auto simp: drain_post_def)
  have "?k \<noteq> ?n'" using none skip_target(2) [OF assms] by auto
  with le show less: "?k < ?n'" by simp
  then have "[unat ?k..<unat ?n'] = unat ?k # [Suc (unat ?k)..<unat ?n']"
    by (simp add: word_less_nat_alt upt_conv_Cons)
  then show "fst (skip_gap s) \<noteq> []" and "hd (fst (skip_gap s)) = item_of ?k (snd (hd (receivedDataMap s)))"
    using skip_target(2) [OF assms] by (simp_all add: items)
qed

text \<open>
  C20: the gap timer. When the next message is missing while later ones are buffered and the timer
  runs, an iteration before the timeout delivers nothing and keeps everything; an iteration at or
  after the timeout delivers the earliest buffered message first, moves past it, stops the timer
  and reports exactly the range of skipped ids.
\<close>

theorem gap_timer:
  assumes "reorder_inv s" and "hasReceiveCallback s" and "receivedDataMap s \<noteq> []"
    and "map_of (receivedDataMap s) (nextMessageId s) = None" and "gapTimerActive s"
  shows "if ck_gap ck - gapFirstSeen s < ms (reorderTimeoutMs s)
     then io_delivered (fst (reorder_work n ck s)) = [] \<and> io_report (fst (reorder_work n ck s)) = None \<and>
       nextMessageId (snd (reorder_work n ck s)) = nextMessageId s \<and>
       receivedDataMap (snd (reorder_work n ck s)) = receivedDataMap s
     else io_delivered (fst (reorder_work n ck s)) \<noteq> [] \<and>
       hd (io_delivered (fst (reorder_work n ck s))) = item_of (fst (hd (receivedDataMap s))) (snd (hd (receivedDataMap s))) \<and>
       fst (hd (receivedDataMap s)) < nextMessageId (snd (reorder_work n ck s)) \<and>
       \<not> gapTimerActive (snd (reorder_work n ck s)) \<and>
       (\<exists>r. io_report (fst (reorder_work n ck s)) = Some r \<and> gr_missingStart r = nextMessageId s \<and>
          gr_missingEnd r + 1 = gr_skipTo r \<and> gr_skipTo r = fst (hd (receivedDataMap s)))"
proof -
  let ?s1 = "s\<lparr>lastProcessedSeq := reorderEnqueueSeq s\<rparr>"
  have stuck: "drainReceivedDataMap ?s1 = ([], ?s1)" using assms(4) by (simp add: drain_stuck)
  have inv1: "reorder_inv ?s1" using assms(1) by (simp add: reorder_inv_def)
  have "fst (hd (receivedDataMap s)) \<noteq> nextMessageId s"
    using skip_target(2) [OF assms(1,3)] assms(4) by auto
  then have "fst (hd (receivedDataMap s)) > 0"
    using skip_target(1) [OF assms(1,3)] by (metis word_gt_0 word_le_0_iff)
  then show ?thesis
    using assms(2,3,5) skip_gap_progress [OF inv1]
    by (simp add: reorder_work_def stuck handle_gap_def Let_def split_beta make_gap_report_def)
      (simp add: skip_gap_def)
qed

definition stalled_state :: "int \<Rightarrow> reorder" where
  "stalled_state t = (example_state [(2, example_item 2), (4, example_item 4)])\<lparr>gapTimerActive := True, gapFirstSeen := t\<rparr>"

lemma stalled_state_simps [simp]:
  "reorder_inv (stalled_state t)" "hasReceiveCallback (stalled_state t)"
  "receivedDataMap (stalled_state t) = [(2, example_item 2), (4, example_item 4)]"
  "nextMessageId (stalled_state t) = 0" "gapTimerActive (stalled_state t)" "gapFirstSeen (stalled_state t) = t"
  "reorderTimeoutMs (stalled_state t) = 4000" "missingNotifyIntervalMs (stalled_state t) = 200"
  "notifiedMissingIds (stalled_state t) = []" "hasMissingNotifyCallback (stalled_state t)"
  by (simp_all add: stalled_state_def reorder_inv_def omap_ok_def)
    (simp_all add: example_state_def reorder_init_def)

theorem gap_timer_witness:
  "io_delivered (fst (reorder_work 2 (example_clock (ms 100)) (stalled_state 0))) = [] \<and>
   hd (io_delivered (fst (reorder_work 2 (example_clock (ms 4000)) (stalled_state 0)))) = item_of 2 (example_item 2)"
  using gap_timer [of "stalled_state 0" "example_clock (ms 100)" 2]
    gap_timer [of "stalled_state 0" "example_clock (ms 4000)" 2]
  by (simp add: example_clock_def)

section \<open>Which ids are reported missing\<close>

text \<open>The ids from \<open>e\<close> up to, not including, \<open>k\<close> that were not reported yet.\<close>

definition unreported :: "u64 list \<Rightarrow> u64 \<Rightarrow> u64 \<Rightarrow> u64 list" where
  "unreported notified e k = filter (\<lambda>x. x \<notin> set notified) (map word_of_nat [unat e..<unat k])"

lemma unreported_step:
  assumes "e < k"
  shows "unreported notified e k =
     (if e \<in> set notified then unreported notified (e + 1) k else e # unreported notified (e + 1) k)"
  using unat_Suc_less [OF assms] by (simp add: unreported_def upt_conv_Cons)

lemma unreported_empty [simp]: "\<not> e < k \<Longrightarrow> unreported notified e k = []"
  by (simp add: unreported_def word_less_nat_alt)

lemma set_unreported: "set (unreported notified e k) = {x. e \<le> x \<and> x < k \<and> x \<notin> set notified}"
proof -
  have "x \<in> word_of_nat ` {unat e..<unat k} \<longleftrightarrow> e \<le> x \<and> x < k" for x :: u64
  proof
    assume "x \<in> word_of_nat ` {unat e..<unat k}"
    then show "e \<le> x \<and> x < k"
      using unat_less_2p [of k] by (auto simp: word_le_nat_alt word_less_nat_alt unat_of_nat)
  next
    assume "e \<le> x \<and> x < k"
    then have "unat x \<in> {unat e..<unat k}" by (simp add: word_le_nat_alt word_less_nat_alt)
    then show "x \<in> word_of_nat ` {unat e..<unat k}" by (intro image_eqI [where x = "unat x"]) simp_all
  qed
  then show ?thesis by (auto simp: unreported_def)
qed

lemma collect_missing_eq:
  "length acc < 64 \<Longrightarrow> collect_missing notified e k acc = take 64 (acc @ unreported notified e k)"
proof (induction notified e k acc rule: collect_missing.induct)
  case (1 notified e k acc)
  show ?case
  proof (cases "e < k \<and> e \<notin> set notified")
    case True
    show ?thesis
    proof (cases "length acc = 63")
      case True
      with \<open>e < k \<and> e \<notin> set notified\<close> show ?thesis
        by (subst collect_missing.simps) (simp add: unreported_step layout_simps VC_MAX_MISSING_IDS_PER_NOTIFY_def)
    next
      case False
      with 1 True show ?thesis
        by (subst collect_missing.simps) (simp add: unreported_step VC_MAX_MISSING_IDS_PER_NOTIFY_def)
    qed
  next
    case False
    with 1 show ?thesis
      by (subst collect_missing.simps) (auto simp: unreported_step)
  qed
qed

lemma collect_all_missing_eq:
  "length acc < 64 \<Longrightarrow>
   collect_all_missing notified e ks acc = take 64 (acc @ concat (map (unreported notified e) ks))"
  by (induction notified e ks acc rule: collect_all_missing.induct)
    (simp_all add: collect_missing_eq VC_MAX_MISSING_IDS_PER_NOTIFY_def Let_def)

lemma sendMissing_SomeD:
  assumes "fst (sendMissingNotifications now s) = Some ids"
  shows "receivedDataMap s \<noteq> []" "gapTimerActive s" "hasMissingNotifyCallback s"
    "\<not> now - gapFirstSeen s < ms (missingNotifyIntervalMs s)" "ids \<noteq> []"
    "ids = take 64 (concat (map (unreported (notifiedMissingIds s) (nextMessageId s)) (map fst (receivedDataMap s))))"
proof -
  have "receivedDataMap s \<noteq> [] \<and> gapTimerActive s \<and> hasMissingNotifyCallback s \<and>
      \<not> now - gapFirstSeen s < ms (missingNotifyIntervalMs s) \<and> ids \<noteq> [] \<and>
      ids = collect_all_missing (notifiedMissingIds s) (nextMessageId s) (map fst (receivedDataMap s)) []"
    using assms by (auto simp: sendMissingNotifications_def Let_def split: if_splits)
  then show "receivedDataMap s \<noteq> []" "gapTimerActive s" "hasMissingNotifyCallback s"
    "\<not> now - gapFirstSeen s < ms (missingNotifyIntervalMs s)" "ids \<noteq> []"
    "ids = take 64 (concat (map (unreported (notifiedMissingIds s) (nextMessageId s)) (map fst (receivedDataMap s))))"
    unfolding collect_all_missing_eq [of "[]", simplified] by blast+
qed

lemma stalled_notify:
  "fst (sendMissingNotifications (ms 300) (stalled_state 0)) = Some [0, 1, 0, 1, 2, 3]"
proof -
  have "collect_all_missing [] 0 [2, 4] [] = [0, 1, 0, 1, 2, 3]"
    unfolding collect_all_missing_eq [of "[]", simplified] by (simp add: unreported_def upt_rec)
  then show ?thesis by (simp add: sendMissingNotifications_def del: collect_all_missing.simps)
qed

text \<open>
  The ids reported missing in one notification. When the gap has lasted the notify interval, the
  callback receives the first 64 of the concatenation, over the buffered ids in order, of the ids
  between \<^verbatim>\<open>nextMessageId\<close> and that buffered id that were not reported before; the list is never
  empty. Before the interval has passed there is no notification.
\<close>

theorem missing_notify_exact:
  assumes "receivedDataMap s \<noteq> []" and "gapTimerActive s" and "hasMissingNotifyCallback s"
  shows "fst (sendMissingNotifications now s) =
     (let ids = take 64 (concat (map (unreported (notifiedMissingIds s) (nextMessageId s)) (map fst (receivedDataMap s))))
      in if now - gapFirstSeen s < ms (missingNotifyIntervalMs s) \<or> ids = [] then None else Some ids)"
  using assms by (simp add: sendMissingNotifications_def collect_all_missing_eq Let_def)

theorem missing_notify_exact_witness:
  "fst (sendMissingNotifications (ms 300) ((stalled_state 0)\<lparr>receivedDataMap := [(2, example_item 2)]\<rparr>)) = Some [0, 1]"
  using missing_notify_exact [of "(stalled_state 0)\<lparr>receivedDataMap := [(2, example_item 2)]\<rparr>" "ms 300"]
  by (simp add: unreported_def upt_rec)

text \<open>
  Every reported id lies between the next id to deliver and the largest buffered id and was not
  reported before, a notification holds at most 64 ids, and it starts with the ids of the first gap.
\<close>

theorem missing_notify_bounds:
  assumes "omap_ok (receivedDataMap s)" and "fst (sendMissingNotifications now s) = Some ids"
  shows "ids \<noteq> [] \<and> length ids \<le> VC_MAX_MISSING_IDS_PER_NOTIFY \<and>
     (\<forall>i \<in> set ids. nextMessageId s \<le> i \<and> i < fst (last (receivedDataMap s)) \<and> i \<notin> set (notifiedMissingIds s)) \<and>
     (\<exists>rest. ids = take 64 (unreported (notifiedMissingIds s) (nextMessageId s) (fst (hd (receivedDataMap s))) @ rest))"
proof -
  let ?gap = "unreported (notifiedMissingIds s) (nextMessageId s)"
  note ne = sendMissing_SomeD(1) [OF assms(2)] and ids = sendMissing_SomeD(6,5) [OF assms(2)]
  have "\<forall>i \<in> set ids. nextMessageId s \<le> i \<and> i < fst (last (receivedDataMap s)) \<and> i \<notin> set (notifiedMissingIds s)"
  proof
    fix i assume "i \<in> set ids"
    then have "i \<in> set (concat (map ?gap (map fst (receivedDataMap s))))"
      unfolding ids(1) by (rule in_set_takeD)
    then obtain k where "k \<in> fst ` set (receivedDataMap s)" "i \<in> set (?gap k)" by auto
    then show "nextMessageId s \<le> i \<and> i < fst (last (receivedDataMap s)) \<and> i \<notin> set (notifiedMissingIds s)"
      using omap_ok_last_max [OF assms(1) ne] by (auto simp: set_unreported intro: less_le_trans)
  qed
  moreover have "\<exists>rest. ids = take 64 (?gap (fst (hd (receivedDataMap s))) @ rest)"
    using ne unfolding ids(1) by (cases "receivedDataMap s") auto
  ultimately show ?thesis using ids by (simp add: VC_MAX_MISSING_IDS_PER_NOTIFY_def)
qed

theorem missing_notify_bounds_witness:
  "\<exists>ids. fst (sendMissingNotifications (ms 300) (stalled_state 0)) = Some ids \<and> length ids \<le> 64"
proof -
  note stalled_notify
  moreover from missing_notify_bounds [OF _ stalled_notify] have "length [0, 1, 0, 1, 2, 3 :: u64] \<le> VC_MAX_MISSING_IDS_PER_NOTIFY"
    by (simp add: omap_ok_def)
  ultimately show ?thesis by (simp add: VC_MAX_MISSING_IDS_PER_NOTIFY_def)
qed

text \<open>
  With more than one buffered message the notification repeats ids and asks for messages that
  are already buffered: the search restarts at \<^verbatim>\<open>nextMessageId\<close> for every buffered id and does not
  skip ids that are in the map. With ids 2 and 4 buffered and 0 expected, the ids 0 and 1 are
  reported twice, and 2 is reported although it has arrived.
\<close>

theorem missing_notify_overreports:
  "fst (sendMissingNotifications (ms 300) (stalled_state 0)) = Some [0, 1, 0, 1, 2, 3] \<and>
   2 \<in> fst ` set (receivedDataMap (stalled_state 0))"
  by (simp add: stalled_notify)

lemma unreported_mono: "set n \<subseteq> set n' \<Longrightarrow> set (unreported n' e k) \<subseteq> set (unreported n e k)"
  by (auto simp: set_unreported)

lemma set_fold_insert: "set (fold List.insert xs ys) = set xs \<union> set ys"
  by (induction xs arbitrary: ys) auto

text \<open>
  A missing id is reported once. If a notification fitted into one packet and the record of
  reported ids was not reset, no later call reports anything for the same gap, however long it
  lasts: a lost resend is not asked for again before the gap is skipped.
\<close>

theorem missing_notify_once:
  assumes "fst (sendMissingNotifications t1 s) = Some ids" and "length ids < 64" and "length (notifiedMissingIds s) \<le> 1000"
  shows "fst (sendMissingNotifications t2 (snd (sendMissingNotifications t1 s))) = None"
proof -
  let ?c = "concat (map (unreported (notifiedMissingIds s) (nextMessageId s)) (map fst (receivedDataMap s)))"
  note facts = sendMissing_SomeD [OF assms(1)]
  have ids: "ids = ?c" using facts(6) assms(2) by (simp del: map_map)
  let ?n' = "fold List.insert ids (notifiedMissingIds s)"
  have s1: "snd (sendMissingNotifications t1 s) = s\<lparr>notifiedMissingIds := ?n', lastNotifyTime := t1\<rparr>"
    using facts(1-5) assms(3) facts(6) [symmetric]
    by (simp add: sendMissingNotifications_def collect_all_missing_eq Let_def del: map_map concat_eq_Nil_conv take_eq_Nil2 take_eq_Nil)
  have "unreported ?n' (nextMessageId s) k = []" if "k \<in> fst ` set (receivedDataMap s)" for k
  proof -
    have "set (unreported ?n' (nextMessageId s) k) \<subseteq> set (unreported (notifiedMissingIds s) (nextMessageId s) k)"
      by (rule unreported_mono) (simp add: set_fold_insert)
    also have "\<dots> \<subseteq> set ids" unfolding ids using that by auto
    finally have "set (unreported ?n' (nextMessageId s) k) \<subseteq> {}"
      by (auto simp: set_unreported set_fold_insert)
    then show ?thesis by simp
  qed
  then have "concat (map (unreported ?n' (nextMessageId s)) (map fst (receivedDataMap s))) = []" by simp
  then show ?thesis unfolding s1 by (simp add: sendMissingNotifications_def collect_all_missing_eq Let_def del: concat_eq_Nil_conv)
qed

theorem missing_notify_once_witness:
  "fst (sendMissingNotifications (ms 3999) (snd (sendMissingNotifications (ms 300) (stalled_state 0)))) = None"
  by (rule missing_notify_once [where ids = "[0, 1, 0, 1, 2, 3]"])
    (simp_all add: stalled_notify)

section \<open>Sleeping with an open gap\<close>

text \<open>
  The thread sleeps through the notify interval. If a gap has just opened and no further message
  arrives, the iteration before the interval has passed reports nothing and the thread then waits for
  the whole rest of the reorder timeout; the iteration after that wait skips the gap and still
  reports nothing. A gap at the end of the traffic is skipped without ever being notified.
\<close>

theorem quiet_gap_never_notified:
  assumes "receivedDataMap s \<noteq> []" and "map_of (receivedDataMap s) (nextMessageId s) = None" and "gapTimerActive s"
    and "ck_notify ck - gapFirstSeen s < ms (missingNotifyIntervalMs s)"
    and "ck_gap ck - gapFirstSeen s < ms (reorderTimeoutMs s)" and "now - gapFirstSeen s < ms (reorderTimeoutMs s)"
    and "ck_gap ck' \<ge> gapFirstSeen s + ms (reorderTimeoutMs s)"
  shows "io_notify (fst (reorder_work n ck s)) = None \<and>
     reorder_wait False now (snd (reorder_work n ck s)) = WaitFor (gapFirstSeen s + ms (reorderTimeoutMs s) - now) \<and>
     io_notify (fst (reorder_work n ck' (snd (reorder_work n ck s)))) = None"
proof -
  let ?s1 = "s\<lparr>lastProcessedSeq := reorderEnqueueSeq s\<rparr>"
  have work: "reorder_work n ck s =
      (\<lparr>io_delivered = [], io_notify = None, io_report = None\<rparr>, snd (health_log (ck_health ck) ?s1))"
    using assms(1-5) drain_stuck [of ?s1]
    by (simp add: reorder_work_def handle_gap_def sendMissingNotifications_def Let_def split_beta)
  define s2 where "s2 = snd (reorder_work n ck s)"
  have s2: "receivedDataMap s2 = receivedDataMap s" "nextMessageId s2 = nextMessageId s" "gapTimerActive s2"
    "gapFirstSeen s2 = gapFirstSeen s" "reorderTimeoutMs s2 = reorderTimeoutMs s"
    using assms(3) by (simp_all add: s2_def work)
  have "\<not> gapTimerActive (snd (skip_gap (s2\<lparr>lastProcessedSeq := reorderEnqueueSeq s2\<rparr>)))"
    by (simp add: skip_gap_def)
  then have "io_notify (fst (reorder_work n ck' s2)) = None"
    using s2 assms(1,2,7) drain_stuck [of "s2\<lparr>lastProcessedSeq := reorderEnqueueSeq s2\<rparr>"]
    by (simp add: reorder_work_def handle_gap_def Let_def split_beta)
      (simp add: sendMissingNotifications_def)
  moreover have "reorder_wait False now s2 = WaitFor (gapFirstSeen s + ms (reorderTimeoutMs s) - now)"
    using s2 assms(6) by (simp add: reorder_wait_def Let_def)
  ultimately show ?thesis by (simp add: work s2_def)
qed

theorem quiet_gap_never_notified_witness:
  "reorder_wait False (ms 2) (snd (reorder_work 2 (example_clock (ms 1)) (stalled_state 0))) = WaitFor (ms 3998) \<and>
   io_notify (fst (reorder_work 2 (example_clock (ms 4000)) (snd (reorder_work 2 (example_clock (ms 1)) (stalled_state 0))))) = None"
  using quiet_gap_never_notified [of "stalled_state 0" "example_clock (ms 1)" "ms 2" "example_clock (ms 4000)" 2]
  by (simp add: example_clock_def ms_def)

section \<open>Emptying the receive queues\<close>

definition arrivals :: "DeliveryItem list \<Rightarrow> (u64 \<times> ReceivedItem) list" where
  "arrivals = map (\<lambda>it. (di_messageId it, \<lparr>ri_data = di_data it, ri_sourceConnIndex = di_sourceConnIndex it\<rparr>))"

text \<open>The state after taking the messages \<open>xs\<close>: earlier arrivals win, stale ids are ignored.\<close>

definition absorbs :: "'a reorder_scheme \<Rightarrow> DeliveryItem list \<Rightarrow> 'a reorder_scheme \<Rightarrow> bool" where
  "absorbs s xs s' \<longleftrightarrow> reorder_inv s' \<and> nextMessageId s' = nextMessageId s \<and>
     hasReceiveCallback s' = hasReceiveCallback s \<and>
     map_of (receivedDataMap s') = (map_of (arrivals xs) |` {nextMessageId s..}) ++ map_of (receivedDataMap s)"

lemma restrict_map_add: "(f ++ g) |` A = (f |` A) ++ (g |` A)"
  by (auto simp: restrict_map_def map_add_def fun_eq_iff)

lemma absorbs_refl: "reorder_inv s \<Longrightarrow> absorbs s [] s"
  by (simp add: absorbs_def arrivals_def)

lemma absorbs_trans: "absorbs s xs s1 \<Longrightarrow> absorbs s1 ys s2 \<Longrightarrow> absorbs s (xs @ ys) s2"
  by (simp add: absorbs_def arrivals_def restrict_map_add)

lemma absorbs_accept:
  assumes "reorder_inv s" and "di_messageId it < - 1"
  shows "absorbs s [it] (snd (accept_item now it s))"
  using assms accept_item_inv [OF assms]
  by (auto simp: absorbs_def arrivals_def map_of_accept map_add_def restrict_map_def fun_eq_iff split: option.splits)

lemma absorbs_queues: "absorbs s xs (s'\<lparr>connReceiveQueues := qs\<rparr>) \<longleftrightarrow> absorbs s xs s'"
  "absorbs (s\<lparr>connReceiveQueues := qs\<rparr>) xs s' \<longleftrightarrow> absorbs s xs s'"
  by (simp_all add: absorbs_def reorder_inv_def)

lemma scan_queue_contents:
  assumes "spsc_invar (connReceiveQueues s ! i)" and "spsc_count (connReceiveQueues s ! i) < fuel"
    and "i < length (connReceiveQueues s)" and "reorder_inv s"
    and "\<forall>it \<in> set (spsc_contents (connReceiveQueues s ! i)). di_messageId it < - 1"
  shows "\<exists>g' n' s' q'. scan_queue fuel i rx (g, n, s) = (g', n', s') \<and>
     absorbs s (spsc_contents (connReceiveQueues s ! i)) s' \<and> spsc_invar q' \<and> spsc_contents q' = [] \<and>
     connReceiveQueues s' = (connReceiveQueues s)[i := q']"
  using assms
proof (induction fuel arbitrary: g n s)
  case 0
  then show ?case by simp
next
  case (Suc fuel)
  let ?q = "connReceiveQueues s ! i"
  show ?case
  proof (cases "spsc_contents ?q")
    case Nil
    have "try_dequeue ?q = (None, ?q)" by (rule spsc.deq_empty [OF Suc.prems(1) Nil])
    with Nil Suc.prems show ?thesis by (auto intro!: absorbs_refl exI [of _ ?q])
  next
    case (Cons it its)
    obtain q where q: "try_dequeue ?q = (Some it, q)" "spsc_invar q" "spsc_contents q = its"
      using spsc.deq_Cons [OF Suc.prems(1) Cons] by (cases "try_dequeue ?q") auto
    let ?s0 = "s\<lparr>connReceiveQueues := (connReceiveQueues s)[i := q]\<rparr>"
    let ?s1 = "snd (accept_item (rx n) it ?s0)"
    have inv0: "reorder_inv ?s0" using Suc.prems(4) by (simp add: reorder_inv_def)
    have it: "di_messageId it < - 1" using Suc.prems(5) Cons by simp
    have a: "absorbs s [it] ?s1" using absorbs_accept [OF inv0 it, of "rx n"] by (simp add: absorbs_queues)
    have q1: "connReceiveQueues ?s1 = (connReceiveQueues s)[i := q]" by simp
    have "spsc_count q < fuel"
      using Suc.prems(2) Cons q(3) by (metis Suc_less_SucD length_Cons length_spsc_contents less_trans_Suc not_less_eq)
    then obtain g' n' s' q' where IH: "scan_queue fuel i rx (g \<or> fst (accept_item (rx n) it ?s0), Suc n, ?s1) = (g', n', s')"
      "absorbs ?s1 its s'" "spsc_invar q'" "spsc_contents q' = []" "connReceiveQueues s' = (connReceiveQueues ?s1)[i := q']"
      using Suc.IH [of ?s1 "g \<or> fst (accept_item (rx n) it ?s0)" "Suc n"] Suc.prems q Cons accept_item_inv [OF inv0 it]
      by auto
    have "absorbs s (it # its) s'" using absorbs_trans [OF a IH(2)] by simp
    with IH q1 q(1) Cons show ?thesis by (auto simp: Let_def split_beta)
  qed
qed

definition queues_ok :: "'a reorder_scheme \<Rightarrow> bool" where
  "queues_ok s \<longleftrightarrow> (\<forall>q \<in> set (connReceiveQueues s). spsc_invar q \<and>
     (\<forall>it \<in> set (spsc_contents q). di_messageId it < - 1))"

definition queued :: "'a reorder_scheme \<Rightarrow> DeliveryItem list" where
  "queued s = concat (map spsc_contents (connReceiveQueues s))"

lemma scan_prefix:
  assumes "reorder_inv s" and "queues_ok s" and "k \<le> length (connReceiveQueues s)"
  shows "\<exists>g n s'. fold (\<lambda>i st. scan_queue (Capacity (connReceiveQueues s ! i)) i rx st) [0..<k] (False, 0, s) = (g, n, s') \<and>
     absorbs s (concat (map spsc_contents (take k (connReceiveQueues s)))) s' \<and>
     length (connReceiveQueues s') = length (connReceiveQueues s) \<and>
     (\<forall>j < length (connReceiveQueues s). if j < k then spsc_contents (connReceiveQueues s' ! j) = [] \<and> spsc_invar (connReceiveQueues s' ! j)
        else connReceiveQueues s' ! j = connReceiveQueues s ! j)"
  using assms(3)
proof (induction k)
  case 0
  with assms(1) show ?case by (intro exI [of _ False] exI [of _ 0] exI [of _ s]) (simp add: absorbs_refl)
next
  case (Suc k)
  let ?q = "connReceiveQueues s ! k"
  have ok: "spsc_invar ?q" "\<forall>it \<in> set (spsc_contents ?q). di_messageId it < - 1"
    using assms(2) Suc.prems by (auto simp: queues_ok_def)
  obtain g n s1 where IH:
    "fold (\<lambda>i st. scan_queue (Capacity (connReceiveQueues s ! i)) i rx st) [0..<k] (False, 0, s) = (g, n, s1)"
    "absorbs s (concat (map spsc_contents (take k (connReceiveQueues s)))) s1"
    "length (connReceiveQueues s1) = length (connReceiveQueues s)"
    "\<forall>j < length (connReceiveQueues s). if j < k then spsc_contents (connReceiveQueues s1 ! j) = [] \<and> spsc_invar (connReceiveQueues s1 ! j)
        else connReceiveQueues s1 ! j = connReceiveQueues s ! j"
    using Suc by auto
  have q1: "connReceiveQueues s1 ! k = ?q" using IH(4) Suc.prems by auto
  have inv1: "reorder_inv s1" using IH(2) by (simp add: absorbs_def)
  obtain g' n' s' q' where st: "scan_queue (Capacity ?q) k rx (g, n, s1) = (g', n', s')"
    "absorbs s1 (spsc_contents ?q) s'" "spsc_invar q'" "spsc_contents q' = []"
    "connReceiveQueues s' = (connReceiveQueues s1)[k := q']"
    using scan_queue_contents [of s1 k "Capacity ?q" rx g n] ok q1 inv1 spsc_count_less [OF ok(1)] IH(3) Suc.prems by auto
  have "absorbs s (concat (map spsc_contents (take (Suc k) (connReceiveQueues s)))) s'"
    using absorbs_trans [OF IH(2) st(2)] Suc.prems by (simp add: take_Suc_conv_app_nth)
  moreover have "\<forall>j < length (connReceiveQueues s). if j < Suc k then spsc_contents (connReceiveQueues s' ! j) = [] \<and> spsc_invar (connReceiveQueues s' ! j)
        else connReceiveQueues s' ! j = connReceiveQueues s ! j"
    using st IH(3,4) by (auto simp: nth_list_update less_Suc_eq)
  ultimately show ?case using IH(1,3) st(1,5) by simp
qed

lemma scan_queues_spec:
  assumes "reorder_inv s" and "queues_ok s"
  shows "\<exists>g n s'. scan_queues rx s = (g, n, s') \<and> absorbs s (queued s) s' \<and>
     (\<forall>q \<in> set (connReceiveQueues s'). spsc_contents q = [] \<and> spsc_invar q)"
proof -
  obtain g n s' where "scan_queues rx s = (g, n, s')" "absorbs s (queued s) s'"
    "length (connReceiveQueues s') = length (connReceiveQueues s)"
    "\<forall>j < length (connReceiveQueues s). spsc_contents (connReceiveQueues s' ! j) = [] \<and> spsc_invar (connReceiveQueues s' ! j)"
    using scan_prefix [OF assms, of "length (connReceiveQueues s)" rx]
    unfolding scan_queues_def queued_def by auto
  then show ?thesis by (auto simp: in_set_conv_nth)
qed

text \<open>
  C21: an iteration leaves nothing behind. Every message that was queued by any connection and is not
  older than the delivery point has, after one iteration, been delivered or is buffered, its payload
  and that of every message buffered before being the one that arrived first; all queues are empty.
\<close>

theorem iteration_takes_everything:
  assumes "reorder_inv s" and "queues_ok s" and "hasReceiveCallback s"
  shows "case reorder_iteration n ck s of (out, gotAny, s') \<Rightarrow>
     reorder_inv s' \<and> (\<forall>q \<in> set (connReceiveQueues s'). spsc_contents q = []) \<and>
     (\<forall>it \<in> set (queued s). nextMessageId s \<le> di_messageId it \<longrightarrow>
        di_messageId it \<in> di_messageId ` set (io_delivered out) \<union> fst ` set (receivedDataMap s')) \<and>
     (\<forall>d \<in> set (io_delivered out). \<exists>r. di_data d = ri_data r \<and>
        (map_of (receivedDataMap s) (di_messageId d) = Some r \<or>
         map_of (receivedDataMap s) (di_messageId d) = None \<and> map_of (arrivals (queued s)) (di_messageId d) = Some r))"
proof -
  obtain g m s1 where sc: "scan_queues (ck_rx ck) s = (g, m, s1)" "absorbs s (queued s) s1"
    "\<forall>q \<in> set (connReceiveQueues s1). spsc_contents q = [] \<and> spsc_invar q"
    using scan_queues_spec [OF assms(1,2)] by blast
  let ?out = "fst (reorder_work n ck s1)" and ?s' = "snd (reorder_work n ck s1)"
  have it: "reorder_iteration n ck s = (?out, g, ?s')"
    by (simp add: reorder_iteration_def sc(1) split_beta)
  have inv1: "reorder_inv s1" and cb: "hasReceiveCallback s1" and
    m1: "map_of (receivedDataMap s1) = (map_of (arrivals (queued s)) |` {nextMessageId s..}) ++ map_of (receivedDataMap s)"
    using sc(2) assms(3) by (simp_all add: absorbs_def)
  note post = reorder_work_delivers [OF inv1, of n ck, unfolded deliver_post_def]
  have out: "io_delivered ?out = work_items n ck s1" using cb by (simp add: io_delivered_work)
  have taken: "map_of (receivedDataMap s1) (di_messageId x) \<noteq> None"
    if "x \<in> set (queued s)" "nextMessageId s \<le> di_messageId x" for x
  proof -
    have "di_messageId x \<in> fst ` set (arrivals (queued s))" using that(1) by (force simp: arrivals_def)
    then have "map_of (arrivals (queued s)) (di_messageId x) \<noteq> None" by (simp add: map_of_eq_None_iff)
    then show ?thesis using that(2) by (auto simp: m1 map_add_def split: option.splits)
  qed
  have "k \<in> di_messageId ` set (io_delivered ?out) \<union> fst ` set (receivedDataMap ?s')"
    if "map_of (receivedDataMap s1) k \<noteq> None" for k
  proof (cases "k < nextMessageId ?s'")
    case True
    then show ?thesis using post that unfolding out by blast
  next
    case False
    then have "map_of (receivedDataMap ?s') k \<noteq> None" using post that by simp
    then show ?thesis by (simp add: map_of_eq_None_iff)
  qed
  moreover have "\<exists>r. di_data d = ri_data r \<and> (map_of (receivedDataMap s) (di_messageId d) = Some r \<or>
         map_of (receivedDataMap s) (di_messageId d) = None \<and> map_of (arrivals (queued s)) (di_messageId d) = Some r)"
    if d: "d \<in> set (io_delivered ?out)" for d
  proof -
    obtain r where "map_of (receivedDataMap s1) (di_messageId d) = Some r" "di_data d = ri_data r"
      by (rule deliver_post_data [OF reorder_work_delivers [OF inv1, of n ck] d [unfolded out]])
    then show ?thesis
      by (intro exI [of _ r]) (auto simp: m1 map_add_Some_iff restrict_map_def split: if_splits)
  qed
  moreover have "reorder_inv ?s'" using post by blast
  moreover have "\<forall>q \<in> set (connReceiveQueues ?s'). spsc_contents q = []" using sc(3) by simp
  ultimately show ?thesis using taken unfolding it prod.case by blast
qed

lemma queues_ok_init [simp]: "queues_ok (reorder_init n t)"
  by (auto simp: queues_ok_def reorder_init_def)

lemma processReceivedData_fields [simp]:
  "receivedDataMap (processReceivedData m d c s) = receivedDataMap s"
  "nextMessageId (processReceivedData m d c s) = nextMessageId s"
  "hasReceiveCallback (processReceivedData m d c s) = hasReceiveCallback s"
  by (simp_all add: processReceivedData_def Let_def split_beta)

lemma try_enqueue_cases:
  assumes "spsc_invar q"
  obtains "try_enqueue x q = (False, q)" "\<not> spsc_room q"
  | q' where "try_enqueue x q = (True, q')" "spsc_invar q'" "spsc_contents q' = spsc_contents q @ [x]" "spsc_room q"
  using spsc.enq_room [OF assms, of x] spsc.enq_full [OF assms, of x] by (metis prod.collapse)

lemma processReceivedData_ok [inv_intros]:
  assumes "queues_ok s" and "m < - 1"
  shows "queues_ok (processReceivedData m d c s)"
proof (cases "0 \<le> c \<and> nat c < length (connReceiveQueues s)")
  case True
  then have "spsc_invar (connReceiveQueues s ! nat c)" using assms(1) by (simp add: queues_ok_def)
  then show ?thesis
  proof (cases rule: try_enqueue_cases [where x = "\<lparr>di_messageId = m, di_data = d, di_sourceConnIndex = c\<rparr>"])
    case 1
    with assms True show ?thesis by (simp add: processReceivedData_def Let_def)
  next
    case (2 q')
    with assms True have "spsc_invar q' \<and> (\<forall>it \<in> set (spsc_contents q'). di_messageId it < - 1)"
      by (auto simp: queues_ok_def)
    with 2(1) assms True show ?thesis
      by (auto simp: processReceivedData_def Let_def queues_ok_def dest!: set_update_subset_insert [THEN subsetD])
  qed
qed (use assms in \<open>auto simp: processReceivedData_def\<close>)

theorem iteration_takes_everything_witness:
  "case reorder_iteration 2 (example_clock 7) (processReceivedData 1 [8] 1 (processReceivedData 0 [5] 0 (reorder_init 2 0)))
   of (out, gotAny, s') \<Rightarrow> reorder_inv s' \<and> (\<forall>q \<in> set (connReceiveQueues s'). spsc_contents q = [])"
proof -
  let ?s = "processReceivedData 1 [8] 1 (processReceivedData 0 [5] 0 (reorder_init 2 0))"
  have "reorder_inv ?s" "hasReceiveCallback ?s" by (simp_all add: reorder_inv_def reorder_init_def omap_ok_def)
  moreover have "queues_ok ?s" by (intro processReceivedData_ok) simp_all
  ultimately show ?thesis using iteration_takes_everything [of ?s 2 "example_clock 7"] by (simp add: split_beta)
qed

section \<open>The gap report\<close>

lemma sum_list_update_Suc: "i < length xs \<Longrightarrow> sum_list (xs[i := Suc (xs ! i)]) = Suc (sum_list xs)"
  by (induction xs arbitrary: i) (auto split: nat.splits)

lemma count_by_conn_total:
  "sum_list (fst (count_by_conn kvs (xs, u))) + snd (count_by_conn kvs (xs, u)) = sum_list xs + u + length kvs"
  by (induction kvs "(xs, u)" arbitrary: xs u rule: count_by_conn.induct)
    (simp_all add: Let_def sum_list_update_Suc)

text \<open>The per-connection counters of the log line add up to the number of buffered messages.\<close>

lemma gap_report_counts:
  "sum_list (gr_bufByConn (make_gap_report n ck s)) + gr_bufUnknown (make_gap_report n ck s) = gr_mapSize (make_gap_report n ck s)"
  using count_by_conn_total [of "receivedDataMap s" "replicate n 0" 0]
  by (simp add: make_gap_report_def Let_def split_beta sum_list_replicate)

end
