(* ===== verification/Reorder_Steps.thy ===== *)
theory Reorder_Steps
  imports Reorder_Gap
begin

text \<open>
  The reorder thread and the IO thread run concurrently. Their atomic steps are the shared-memory
  accesses of the code: a queue operation, the increment of \<^verbatim>\<open>reorderEnqueueSeq\<close>, its load, the
  evaluation of the wait predicate, blocking and notification. The theorems hold for every
  interleaving: delivery is in order, without duplicates, of genuine messages and, while no gap timed
  out, gapless. The last theorem exhibits the schedule in which a message stays in its queue while
  the thread sleeps.
\<close>

section \<open>Atomic steps\<close>

datatype rpc = Loop | Scan nat | Check bool | Blocked bool | Stopped

datatype ppc = PIdle | PEnqueued | PCounted

record rsys =
  rx :: reorder
  pc :: rpc
  got :: bool
  prod :: ppc
  offered :: "DeliveryItem list"
  handed :: "DeliveryItem list"
  skipped :: bool

text \<open>The two halves of \<^verbatim>\<open>processReceivedData\<close>.\<close>

definition prd_enqueue :: "DeliveryItem \<Rightarrow> 'a reorder_scheme \<Rightarrow> (bool \<times> 'a reorder_scheme)" where
  "prd_enqueue it s =
     (let i = nat (di_sourceConnIndex it); (ok, q) = try_enqueue it (connReceiveQueues s ! i)
      in (ok, if ok then s\<lparr>connReceiveQueues := (connReceiveQueues s)[i := q]\<rparr> else s))"

definition prd_count :: "'a reorder_scheme \<Rightarrow> 'a reorder_scheme" where
  "prd_count s = s\<lparr>reorderEnqueueSeq := reorderEnqueueSeq s + 1\<rparr>"

definition valid_conn :: "DeliveryItem \<Rightarrow> 'a reorder_scheme \<Rightarrow> bool" where
  "valid_conn it s \<longleftrightarrow> 0 \<le> di_sourceConnIndex it \<and> nat (di_sourceConnIndex it) < length (connReceiveQueues s)"

lemma processReceivedData_split:
  "valid_conn it s \<Longrightarrow> processReceivedData (di_messageId it) (di_data it) (di_sourceConnIndex it) s =
     (let (ok, s1) = prd_enqueue it s in if ok then prd_count s1 else s1)"
  by (cases it) (simp add: processReceivedData_def prd_enqueue_def prd_count_def valid_conn_def Let_def split_beta)

inductive rstep :: "rsys \<Rightarrow> rsys \<Rightarrow> bool" where
  Enqueue: "prod z = PIdle \<Longrightarrow> valid_conn it (rx z) \<Longrightarrow> di_messageId it < - 1 \<Longrightarrow>
     prd_enqueue it (rx z) = (True, s') \<Longrightarrow>
     rstep z (z\<lparr>rx := s', prod := PEnqueued, offered := offered z @ [it]\<rparr>)"
| Count: "prod z = PEnqueued \<Longrightarrow> rstep z (z\<lparr>rx := prd_count (rx z), prod := PCounted\<rparr>)"
| Notify: "prod z = PCounted \<Longrightarrow>
     rstep z (z\<lparr>prod := PIdle, pc := (case pc z of Blocked b \<Rightarrow> Check b | p \<Rightarrow> p)\<rparr>)"
| Start: "pc z = Loop \<Longrightarrow>
     rstep z (if reorderRunning (rx z) then z\<lparr>pc := Scan 0, got := False\<rparr> else z\<lparr>pc := Stopped\<rparr>)"
| Dequeue: "pc z = Scan i \<Longrightarrow> i < length (connReceiveQueues (rx z)) \<Longrightarrow>
     try_dequeue (connReceiveQueues (rx z) ! i) = (Some it, q) \<Longrightarrow>
     accept_item now it ((rx z)\<lparr>connReceiveQueues := (connReceiveQueues (rx z))[i := q]\<rparr>) = (acc, s') \<Longrightarrow>
     rstep z (z\<lparr>rx := s', got := got z \<or> acc\<rparr>)"
| Empty: "pc z = Scan i \<Longrightarrow> i < length (connReceiveQueues (rx z)) \<Longrightarrow>
     try_dequeue (connReceiveQueues (rx z) ! i) = (None, q) \<Longrightarrow> rstep z (z\<lparr>pc := Scan (Suc i)\<rparr>)"
| Work: "pc z = Scan i \<Longrightarrow> \<not> i < length (connReceiveQueues (rx z)) \<Longrightarrow>
     reorder_work (length (connReceiveQueues (rx z))) ck (rx z) = (out, s') \<Longrightarrow>
     rstep z (z\<lparr>rx := s', handed := handed z @ io_delivered out, skipped := skipped z \<or> io_report out \<noteq> None,
       pc := (case reorder_wait (got z) (ck_wait ck) s' of
                NoWait \<Rightarrow> Loop | WaitFor t \<Rightarrow> Check True | WaitIndefinitely \<Rightarrow> Check False)\<rparr>)"
| Check: "pc z = Check b \<Longrightarrow> rstep z (z\<lparr>pc := (if wake_predicate (rx z) then Loop else Blocked b)\<rparr>)"
| Timeout: "pc z = Blocked True \<Longrightarrow> rstep z (z\<lparr>pc := Loop\<rparr>)"
| Spurious: "pc z = Blocked b \<Longrightarrow> rstep z (z\<lparr>pc := Check b\<rparr>)"
| Close: "rstep z (z\<lparr>rx := (rx z)\<lparr>reorderRunning := False\<rparr>\<rparr>)"

definition rsys_init :: "nat \<Rightarrow> time \<Rightarrow> rsys" where
  "rsys_init n t = \<lparr>rx = reorder_init n t, pc = Loop, got = False, prod = PIdle, offered = [], handed = [], skipped = False\<rparr>"

inductive rreach :: "nat \<Rightarrow> time \<Rightarrow> rsys \<Rightarrow> bool" for n t where
  init: "rreach n t (rsys_init n t)"
| step: "rreach n t z \<Longrightarrow> rstep z z' \<Longrightarrow> rreach n t z'"

section \<open>Invariant\<close>

text \<open>
  Where a message can be: every queued, buffered or delivered message was offered, and every
  offered message is queued, buffered, or below the delivery point.
\<close>

definition from_offered :: "rsys \<Rightarrow> u64 \<Rightarrow> bytes \<Rightarrow> bool" where
  "from_offered z k d \<longleftrightarrow> (\<exists>x \<in> set (offered z). di_messageId x = k \<and> di_data x = d)"

definition rinv :: "rsys \<Rightarrow> bool" where
  "rinv z \<longleftrightarrow> reorder_inv (rx z) \<and> queues_ok (rx z) \<and> hasReceiveCallback (rx z) \<and>
     set (queued (rx z)) \<subseteq> set (offered z) \<and>
     (\<forall>k r. map_of (receivedDataMap (rx z)) k = Some r \<longrightarrow> from_offered z k (ri_data r)) \<and>
     (\<forall>it \<in> set (handed z). from_offered z (di_messageId it) (di_data it) \<and> di_messageId it < nextMessageId (rx z)) \<and>
     sorted_wrt (<) (map di_messageId (handed z)) \<and>
     (\<forall>x \<in> set (offered z). di_messageId x < nextMessageId (rx z) \<or>
        map_of (receivedDataMap (rx z)) (di_messageId x) \<noteq> None \<or> x \<in> set (queued (rx z))) \<and>
     (skipped z \<or> map (unat \<circ> di_messageId) (handed z) = [0..<unat (nextMessageId (rx z))]) \<and>
     (\<forall>b. pc z = Check b \<or> pc z = Blocked b \<longrightarrow> map_of (receivedDataMap (rx z)) (nextMessageId (rx z)) = None)"

lemma in_queued: "x \<in> set (queued s) \<longleftrightarrow> (\<exists>j < length (connReceiveQueues s). x \<in> set (spsc_contents (connReceiveQueues s ! j)))"
  by (auto simp: queued_def in_set_conv_nth [of _ "connReceiveQueues s"] Bex_def)

lemma queued_enqueue:
  assumes "i < length (connReceiveQueues s)" and "spsc_contents q = spsc_contents (connReceiveQueues s ! i) @ [it]"
  shows "set (queued (s\<lparr>connReceiveQueues := (connReceiveQueues s)[i := q]\<rparr>)) = insert it (set (queued s))"
proof (rule set_eqI)
  fix x
  show "x \<in> set (queued (s\<lparr>connReceiveQueues := (connReceiveQueues s)[i := q]\<rparr>)) \<longleftrightarrow> x \<in> insert it (set (queued s))"
    using assms by (auto simp: in_queued nth_list_update)
qed

lemma queued_dequeue:
  assumes "i < length (connReceiveQueues s)" and "spsc_contents (connReceiveQueues s ! i) = it # spsc_contents q"
  shows "set (queued (s\<lparr>connReceiveQueues := (connReceiveQueues s)[i := q]\<rparr>)) \<subseteq> set (queued s)"
    and "set (queued s) \<subseteq> insert it (set (queued (s\<lparr>connReceiveQueues := (connReceiveQueues s)[i := q]\<rparr>)))"
    and "it \<in> set (queued s)"
proof -
  show "set (queued (s\<lparr>connReceiveQueues := (connReceiveQueues s)[i := q]\<rparr>)) \<subseteq> set (queued s)"
  proof
    fix x assume "x \<in> set (queued (s\<lparr>connReceiveQueues := (connReceiveQueues s)[i := q]\<rparr>))"
    then obtain j where "j < length (connReceiveQueues s)" "x \<in> set (spsc_contents ((connReceiveQueues s)[i := q] ! j))"
      by (auto simp: in_queued)
    then show "x \<in> set (queued s)"
      using assms by (auto simp: in_queued nth_list_update split: if_splits intro!: exI [of _ j])
  qed
  show "set (queued s) \<subseteq> insert it (set (queued (s\<lparr>connReceiveQueues := (connReceiveQueues s)[i := q]\<rparr>)))"
  proof
    fix x assume "x \<in> set (queued s)"
    then obtain j where "j < length (connReceiveQueues s)" "x \<in> set (spsc_contents (connReceiveQueues s ! j))"
      by (auto simp: in_queued)
    then show "x \<in> insert it (set (queued (s\<lparr>connReceiveQueues := (connReceiveQueues s)[i := q]\<rparr>)))"
      using assms by (cases "j = i") (auto simp: in_queued nth_list_update intro!: exI [of _ j])
  qed
  show "it \<in> set (queued s)" using assms by (auto simp: in_queued intro!: exI [of _ i])
qed

lemma queues_ok_update:
  assumes "queues_ok s" and "spsc_invar q" and "\<forall>it \<in> set (spsc_contents q). di_messageId it < - 1"
  shows "queues_ok (s\<lparr>connReceiveQueues := (connReceiveQueues s)[i := q]\<rparr>)"
  using assms by (auto simp: queues_ok_def dest!: set_update_subset_insert [THEN subsetD])

lemma queued_cong: "connReceiveQueues s = connReceiveQueues s' \<Longrightarrow> queued s = queued s'"
  "connReceiveQueues s = connReceiveQueues s' \<Longrightarrow> queues_ok s = queues_ok s'"
  by (simp_all add: queued_def queues_ok_def)

lemma rinv_enqueue:
  assumes inv: "rinv z" and v: "valid_conn it (rx z)" "di_messageId it < - 1" and e: "prd_enqueue it (rx z) = (True, s')"
  shows "rinv (z\<lparr>rx := s', prod := p, offered := offered z @ [it]\<rparr>)"
proof -
  let ?i = "nat (di_sourceConnIndex it)" and ?s = "rx z"
  have i: "?i < length (connReceiveQueues ?s)" using v(1) by (simp add: valid_conn_def)
  have qi: "spsc_invar (connReceiveQueues ?s ! ?i)" and ok: "queues_ok ?s"
    using inv i by (simp_all add: rinv_def queues_ok_def)
  obtain q where q: "try_enqueue it (connReceiveQueues ?s ! ?i) = (True, q)" "spsc_invar q"
    "spsc_contents q = spsc_contents (connReceiveQueues ?s ! ?i) @ [it]"
    using e by (cases rule: try_enqueue_cases [OF qi, of it]) (auto simp: prd_enqueue_def)
  have s': "s' = ?s\<lparr>connReceiveQueues := (connReceiveQueues ?s)[?i := q]\<rparr>"
    using e q(1) by (simp add: prd_enqueue_def)
  have "queues_ok s'" unfolding s'
    by (rule queues_ok_update [OF ok q(2)]) (use ok i v(2) in \<open>auto simp: q(3) queues_ok_def\<close>)
  moreover have "set (queued s') = insert it (set (queued ?s))" unfolding s' by (rule queued_enqueue [OF i q(3)])
  moreover have "reorder_inv s'" "receivedDataMap s' = receivedDataMap ?s" "nextMessageId s' = nextMessageId ?s"
    "hasReceiveCallback s' = hasReceiveCallback ?s"
    using inv by (simp_all add: s' rinv_def reorder_inv_def)
  ultimately show ?thesis using inv unfolding rinv_def from_offered_def by auto
qed

lemma rinv_dequeue:
  assumes inv: "rinv z" and i: "i < length (connReceiveQueues (rx z))" and p: "pc z = Scan i"
    and d: "try_dequeue (connReceiveQueues (rx z) ! i) = (Some it, q)"
    and a: "accept_item now it ((rx z)\<lparr>connReceiveQueues := (connReceiveQueues (rx z))[i := q]\<rparr>) = (acc, s')"
  shows "rinv (z\<lparr>rx := s', got := g\<rparr>)"
proof -
  let ?s = "rx z" and ?t = "(rx z)\<lparr>connReceiveQueues := (connReceiveQueues (rx z))[i := q]\<rparr>"
  have qi: "spsc_invar (connReceiveQueues ?s ! i)" and ok: "queues_ok ?s"
    using inv i by (simp_all add: rinv_def queues_ok_def)
  have c: "spsc_contents (connReceiveQueues ?s ! i) = it # spsc_contents q \<and> spsc_invar q"
    using d spsc.deq_empty [OF qi] spsc.deq_Cons [OF qi] by (cases "spsc_contents (connReceiveQueues ?s ! i)") auto
  note qd = queued_dequeue [OF i conjunct1 [OF c]]
  have ids: "\<forall>x \<in> set (spsc_contents (connReceiveQueues ?s ! i)). di_messageId x < - 1"
    using ok nth_mem [OF i] unfolding queues_ok_def by blast
  then have it: "di_messageId it < - 1" using c by simp
  have inv0: "reorder_inv ?t" using inv by (simp add: rinv_def reorder_inv_def)
  have s': "s' = snd (accept_item now it ?t)" using a by simp
  have "queues_ok ?t"
    by (rule queues_ok_update [OF ok conjunct2 [OF c]]) (use ids c in simp)
  then have qs: "queues_ok s'" "queued s' = queued ?t"
    using queued_cong [of s' ?t] by (simp_all add: s')
  have m: "map_of (receivedDataMap s') k =
     (if k = di_messageId it \<and> nextMessageId ?s \<le> k \<and> map_of (receivedDataMap ?s) k = None
      then Some \<lparr>ri_data = di_data it, ri_sourceConnIndex = di_sourceConnIndex it\<rparr>
      else map_of (receivedDataMap ?s) k)" for k
    unfolding s' map_of_accept [OF inv0] by auto
  have off: "it \<in> set (offered z)" using inv qd(3) by (auto simp: rinv_def)
  have "\<forall>k r. map_of (receivedDataMap s') k = Some r \<longrightarrow> from_offered z k (ri_data r)"
    using inv off by (auto simp: m rinv_def from_offered_def split: if_splits)
  moreover have "di_messageId x < nextMessageId ?s \<or> map_of (receivedDataMap s') (di_messageId x) \<noteq> None \<or> x \<in> set (queued s')"
    if "x \<in> set (offered z)" for x
  proof -
    have "di_messageId x < nextMessageId ?s \<or> map_of (receivedDataMap ?s) (di_messageId x) \<noteq> None \<or> x \<in> set (queued ?s)"
      using inv that unfolding rinv_def by blast
    then show ?thesis using qd(2) unfolding qs(2) m by (auto split: if_splits)
  qed
  moreover have "reorder_inv s'" using accept_item_inv [OF inv0 it] by (simp add: s')
  moreover have "nextMessageId s' = nextMessageId ?s" "hasReceiveCallback s' = hasReceiveCallback ?s"
    by (simp_all add: s')
  moreover have "set (queued s') \<subseteq> set (queued ?s)" using qd(1) qs(2) by simp
  ultimately show ?thesis using inv qs(1) p unfolding rinv_def from_offered_def by auto
qed

text \<open>After an iteration the next message is not buffered; without a skip the delivery has no hole.\<close>

lemma drain_next_missing: "reorder_inv s \<Longrightarrow>
   map_of (receivedDataMap (snd (drainReceivedDataMap s))) (nextMessageId (snd (drainReceivedDataMap s))) = None"
  using drain_correct [of s] unfolding drain_post_def by blast

lemma handle_gap_next_missing:
  assumes "reorder_inv s" and "map_of (receivedDataMap s) (nextMessageId s) = None"
  shows "map_of (receivedDataMap (snd (snd (handle_gap n ck s)))) (nextMessageId (snd (snd (handle_gap n ck s)))) = None"
  using assms skip_gap_correct [OF assms(1)]
  by (auto simp: handle_gap_def Let_def split_beta drain_post_def)

lemma work_next_missing:
  assumes "reorder_inv s"
  shows "map_of (receivedDataMap (snd (reorder_work n ck s))) (nextMessageId (snd (reorder_work n ck s))) = None"
proof -
  let ?t = "s\<lparr>lastProcessedSeq := reorderEnqueueSeq s\<rparr>"
  have inv: "reorder_inv ?t" using assms by (simp add: reorder_inv_def)
  have "reorder_inv (snd (drainReceivedDataMap ?t))" using drain_map_delivers [OF inv] by (simp add: deliver_post_def)
  from handle_gap_next_missing [OF this drain_next_missing [OF inv], of n ck] show ?thesis
    by (simp add: reorder_work_def Let_def split_beta)
qed

lemma work_no_skip:
  assumes "reorder_inv s" and "io_report (fst (reorder_work n ck s)) = None"
  shows "map (unat \<circ> di_messageId) (work_items n ck s) =
     [unat (nextMessageId s)..<unat (nextMessageId (snd (reorder_work n ck s)))]"
proof -
  let ?t = "s\<lparr>lastProcessedSeq := reorderEnqueueSeq s\<rparr>"
  let ?u = "snd (drainReceivedDataMap ?t)"
  have "fst (handle_gap n ck ?u) = []" "nextMessageId (snd (snd (handle_gap n ck ?u))) = nextMessageId ?u"
    using assms(2) by (auto simp: reorder_work_def handle_gap_def Let_def split_beta split: if_splits)
  then have "work_items n ck s = fst (drainReceivedDataMap ?t)"
    "nextMessageId (snd (reorder_work n ck s)) = nextMessageId ?u"
    by (simp_all add: work_items_def reorder_work_def Let_def split_beta)
  moreover have "drain_post ?t (fst (drainReceivedDataMap ?t)) ?u"
    using assms(1) by (intro drain_correct) (simp add: reorder_inv_def)
  then have items: "fst (drainReceivedDataMap ?t) =
      map (\<lambda>n. item_of (word_of_nat n) (the (map_of (receivedDataMap s) (word_of_nat n)))) [unat (nextMessageId s)..<unat (nextMessageId ?u)]"
    by (simp add: drain_post_def)
  have "map (unat \<circ> di_messageId) (fst (drainReceivedDataMap ?t)) = [unat (nextMessageId s)..<unat (nextMessageId ?u)]"
    unfolding items map_map by (rule map_idI) (use unat_less_2p [of "nextMessageId ?u"] in \<open>auto simp: unat_of_nat\<close>)
  ultimately show ?thesis by simp
qed

lemma upt_append: "a \<le> b \<Longrightarrow> [0..<a] @ [a..<b] = [0..<b]"
  by (metis le_add_diff_inverse upt_add_eq_append zero_le)

lemma rinv_work:
  assumes inv: "rinv z" and w: "reorder_work n ck (rx z) = (out, s')"
  shows "rinv (z\<lparr>rx := s', handed := handed z @ io_delivered out, skipped := skipped z \<or> io_report out \<noteq> None, pc := p\<rparr>)"
proof -
  let ?s = "rx z"
  have s': "s' = snd (reorder_work n ck ?s)" and out: "out = fst (reorder_work n ck ?s)" using w by simp_all
  have ri: "reorder_inv ?s" and cb: "hasReceiveCallback ?s" using inv by (simp_all add: rinv_def)
  have post: "deliver_post ?s (io_delivered out) s'"
    using reorder_work_delivers [OF ri, of n ck] cb by (simp add: out s' io_delivered_work)
  have data: "from_offered z (di_messageId it) (di_data it)" if it: "it \<in> set (io_delivered out)" for it
  proof -
    obtain r where "map_of (receivedDataMap ?s) (di_messageId it) = Some r" "di_data it = ri_data r"
      by (rule deliver_post_data [OF post it])
    then show ?thesis using inv by (simp add: rinv_def)
  qed
  have le: "nextMessageId ?s \<le> nextMessageId s'" and inv': "reorder_inv s'"
    and sorted: "sorted_wrt (<) (map di_messageId (io_delivered out))"
    and m: "map_of (receivedDataMap s') = (\<lambda>k. if k < nextMessageId s' then None else map_of (receivedDataMap ?s) k)"
    using post unfolding deliver_post_def by blast+
  have range: "nextMessageId ?s \<le> di_messageId it \<and> di_messageId it < nextMessageId s'" if "it \<in> set (io_delivered out)" for it
    using post that unfolding deliver_post_def by blast
  have old: "di_messageId it < nextMessageId ?s" if "it \<in> set (handed z)" for it
    using inv that by (simp add: rinv_def)
  have "\<forall>k r. map_of (receivedDataMap s') k = Some r \<longrightarrow> from_offered z k (ri_data r)"
    using inv by (auto simp: m rinv_def)
  moreover have "\<forall>it \<in> set (handed z @ io_delivered out). from_offered z (di_messageId it) (di_data it) \<and> di_messageId it < nextMessageId s'"
    using inv data range old le by (auto simp: rinv_def intro: less_le_trans)
  moreover have "sorted_wrt (<) (map di_messageId (handed z @ io_delivered out))"
    using inv sorted range old by (auto simp: rinv_def sorted_wrt_append intro: less_le_trans)
  moreover have "queued s' = queued ?s" "queues_ok s'" "hasReceiveCallback s'"
    using inv queued_cong [of s' ?s] by (simp_all add: s' rinv_def)
  moreover have "di_messageId x < nextMessageId s' \<or> map_of (receivedDataMap s') (di_messageId x) \<noteq> None \<or> x \<in> set (queued ?s)"
    if "x \<in> set (offered z)" for x
  proof -
    have "di_messageId x < nextMessageId ?s \<or> map_of (receivedDataMap ?s) (di_messageId x) \<noteq> None \<or> x \<in> set (queued ?s)"
      using inv that unfolding rinv_def by blast
    then show ?thesis using le by (auto simp: m intro: less_le_trans)
  qed
  moreover have "skipped z \<or> io_report out \<noteq> None \<or>
      map (unat \<circ> di_messageId) (handed z @ io_delivered out) = [0..<unat (nextMessageId s')]"
  proof (cases "skipped z \<or> io_report out \<noteq> None")
    case False
    then have "map (unat \<circ> di_messageId) (handed z) = [0..<unat (nextMessageId ?s)]" using inv by (simp add: rinv_def)
    moreover have "map (unat \<circ> di_messageId) (io_delivered out) = [unat (nextMessageId ?s)..<unat (nextMessageId s')]"
      using work_no_skip [OF ri, of n ck] False cb by (simp add: out s' io_delivered_work)
    ultimately show ?thesis using le by (simp add: word_le_nat_alt upt_append)
  qed blast
  moreover have "map_of (receivedDataMap s') (nextMessageId s') = None" unfolding s' by (rule work_next_missing [OF ri])
  ultimately show ?thesis using inv inv' unfolding rinv_def from_offered_def by auto
qed

lemma rinv_step: "rstep z z' \<Longrightarrow> rinv z \<Longrightarrow> rinv z'"
proof (induction rule: rstep.induct)
  case (Enqueue z it s')
  then show ?case by (auto intro: rinv_enqueue)
next
  case (Dequeue z i it q now acc s')
  then show ?case by (auto intro: rinv_dequeue)
next
  case (Work z i ck out s')
  then show ?case by (intro rinv_work)
next
  case (Notify z)
  then show ?case by (auto simp: rinv_def from_offered_def split: rpc.splits)
qed (auto simp: rinv_def from_offered_def prd_count_def queued_def queues_ok_def reorder_inv_def)

lemma rinv_reach: "rreach n t z \<Longrightarrow> rinv z"
proof (induction rule: rreach.induct)
  case init
  have "reorder_inv (reorder_init n t)" "queues_ok (reorder_init n t)" by simp_all
  moreover have "queued (reorder_init n t) = []" by (simp add: queued_def reorder_init_def)
  ultimately show ?case
    by (simp add: rinv_def rsys_init_def) (simp add: reorder_init_def)
next
  case (step z z')
  then show ?case by (blast intro: rinv_step)
qed

section \<open>Delivery under every interleaving\<close>

text \<open>
  C8: whatever the interleaving of the IO thread and the reorder thread, and whichever gaps time out,
  the application receives messages in strictly increasing order of their ids, hence none twice,
  and every message it receives was offered by the IO thread with that id and that payload.
\<close>

theorem delivery_in_order:
  assumes "rreach n t z"
  shows "sorted_wrt (<) (map di_messageId (handed z)) \<and> distinct (map di_messageId (handed z)) \<and>
     (\<forall>it \<in> set (handed z). \<exists>x \<in> set (offered z). di_messageId x = di_messageId it \<and> di_data x = di_data it)"
  using rinv_reach [OF assms] by (auto simp: rinv_def from_offered_def strict_sorted_distinct)


text \<open>No message is lost: an offered message is queued, buffered or below the delivery point.\<close>

lemma offered_accounted:
  assumes "rreach n t z" and "x \<in> set (offered z)"
  shows "di_messageId x < nextMessageId (rx z) \<or> map_of (receivedDataMap (rx z)) (di_messageId x) \<noteq> None \<or>
     x \<in> set (queued (rx z))"
  using rinv_reach [OF assms(1)] assms(2) unfolding rinv_def by blast

section \<open>Two schedules\<close>

definition msg0 :: DeliveryItem where
  "msg0 = \<lparr>di_messageId = 0, di_data = [42], di_sourceConnIndex = 0\<rparr>"

lemma enqueue_msg0:
  obtains q where "prd_enqueue msg0 (reorder_init 1 0) = (True, (reorder_init 1 0)\<lparr>connReceiveQueues := [q]\<rparr>)"
    and "spsc_invar q" and "spsc_contents q = [msg0]"
proof -
  let ?q0 = "SpscQueue_init 1024 DeliveryItem_init"
  have inv: "spsc_invar ?q0" by simp
  have "spsc_room ?q0" by (simp add: spsc_room_def SpscQueue_init_def)
  from spsc.enq_room [OF inv this, of msg0] obtain q where q: "try_enqueue msg0 ?q0 = (True, q)" "spsc_invar q"
    "spsc_contents q = [msg0]" by (cases "try_enqueue msg0 ?q0") auto
  have "connReceiveQueues (reorder_init 1 0) = [?q0]" by (simp add: reorder_init_def)
  with q show ?thesis by (intro that [of q]) (simp_all add: prd_enqueue_def msg0_def)
qed

lemma valid_msg0 [simp]: "valid_conn msg0 (reorder_init (Suc 0) 0)" "di_messageId msg0 = 0"
  by (simp_all add: valid_conn_def msg0_def reorder_init_def)

text \<open>
  A lost wake-up. There is a schedule after which a deliverable message sits in its receive queue
  while the reorder thread sleeps without a timeout, its wake-up condition is false and the IO
  thread has finished announcing the message: the sequence number is loaded after the queues were
  scanned, so it already counts a message that the scan missed. Only another message or the end of
  the channel wakes the thread.
\<close>

theorem reorder_lost_wakeup:
  "\<exists>z. rreach 1 0 z \<and> pc z = Blocked False \<and> prod z = PIdle \<and> reorderRunning (rx z) \<and>
     \<not> wake_predicate (rx z) \<and> queued (rx z) = [msg0] \<and> nextMessageId (rx z) = di_messageId msg0"
proof -
  obtain q where q: "prd_enqueue msg0 (reorder_init 1 0) = (True, (reorder_init 1 0)\<lparr>connReceiveQueues := [q]\<rparr>)"
    "spsc_invar q" "spsc_contents q = [msg0]" by (rule enqueue_msg0)
  let ?e = "(reorder_init 1 0)\<lparr>connReceiveQueues := [q]\<rparr>"
  let ?c = "prd_count ?e"
  have work: "reorder_work 1 (example_clock 5) ?c = (\<lparr>io_delivered = [], io_notify = None, io_report = None\<rparr>,
      ?c\<lparr>lastProcessedSeq := 1, gapTimerActive := False, lastHealthLogTime := 5\<rparr>)"
    by (simp add: reorder_work_def drain_stuck handle_gap_def sendMissingNotifications_def health_log_def prd_count_def
        reorder_init_def example_clock_def ms_def)
  have z1: "rreach 1 0 ((rsys_init 1 0)\<lparr>pc := Scan 0\<rparr>)"
    using rreach.step [OF rreach.init rstep.Start, of 1 0] by (simp add: rsys_init_def reorder_init_def)
  have "try_dequeue (connReceiveQueues (reorder_init 1 0) ! 0) = (None, SpscQueue_init 1024 DeliveryItem_init)"
    by (simp add: reorder_init_def try_dequeue_def SpscQueue_init_def)
  then have z2: "rreach 1 0 ((rsys_init 1 0)\<lparr>pc := Scan 1\<rparr>)"
    using rreach.step [OF z1 rstep.Empty] by (simp add: rsys_init_def reorder_init_def)
  have z3: "rreach 1 0 ((rsys_init 1 0)\<lparr>pc := Scan 1, rx := ?e, prod := PEnqueued, offered := [msg0]\<rparr>)"
    using rreach.step [OF z2 rstep.Enqueue [where it = msg0 and s' = ?e]] q(1) by (simp add: rsys_init_def)
  have z4: "rreach 1 0 ((rsys_init 1 0)\<lparr>pc := Scan 1, rx := ?c, prod := PCounted, offered := [msg0]\<rparr>)"
    using rreach.step [OF z3 rstep.Count] by (simp add: rsys_init_def)
  have z5: "rreach 1 0 ((rsys_init 1 0)\<lparr>pc := Scan 1, rx := ?c, prod := PIdle, offered := [msg0]\<rparr>)"
    using rreach.step [OF z4 rstep.Notify] by (simp add: rsys_init_def)
  let ?w = "?c\<lparr>lastProcessedSeq := 1, gapTimerActive := False, lastHealthLogTime := 5\<rparr>"
  have z6: "rreach 1 0 ((rsys_init 1 0)\<lparr>pc := Check False, rx := ?w, prod := PIdle, offered := [msg0]\<rparr>)"
    using rreach.step [OF z5 rstep.Work [where i = 1 and ck = "example_clock 5"]] work
    by (simp add: rsys_init_def prd_count_def reorder_wait_def)
  have "\<not> wake_predicate ?w" by (simp add: wake_predicate_def prd_count_def reorder_init_def)
  moreover from this have z7: "rreach 1 0 ((rsys_init 1 0)\<lparr>pc := Blocked False, rx := ?w, prod := PIdle, offered := [msg0]\<rparr>)"
    using rreach.step [OF z6 rstep.Check [where b = False]] by (simp add: rsys_init_def)
  moreover have "queued ?w = [msg0]" "reorderRunning ?w" "nextMessageId ?w = 0" by (simp_all add: queued_def prd_count_def q(3) reorder_init_def)
  ultimately show ?thesis by (intro exI [of _ "(rsys_init 1 0)\<lparr>pc := Blocked False, rx := ?w, prod := PIdle, offered := [msg0]\<rparr>"]) (simp add: rsys_init_def)
qed

text \<open>The message is offered before the scan and delivered by it.\<close>

lemma reach_delivered_loop:
  "\<exists>z q. rreach 1 0 z \<and> \<not> skipped z \<and> map di_messageId (handed z) = [0] \<and> set (offered z) = {msg0} \<and> pc z = Loop \<and>
     reorderRunning (rx z) \<and> connReceiveQueues (rx z) = [q] \<and> spsc_invar q \<and> spsc_contents q = [] \<and> receivedDataMap (rx z) = []"
proof -
  obtain q where q: "prd_enqueue msg0 (reorder_init 1 0) = (True, (reorder_init 1 0)\<lparr>connReceiveQueues := [q]\<rparr>)"
    "spsc_invar q" "spsc_contents q = [msg0]" by (rule enqueue_msg0)
  obtain q' where q': "try_dequeue q = (Some msg0, q')" "spsc_invar q'" "spsc_contents q' = []"
    using spsc.deq_Cons [OF q(2,3)] by (cases "try_dequeue q") auto
  let ?e = "(reorder_init 1 0)\<lparr>connReceiveQueues := [q]\<rparr>"
  let ?d = "snd (accept_item 3 msg0 ((reorder_init 1 0)\<lparr>connReceiveQueues := [q']\<rparr>))"
  have m: "receivedDataMap ?d = [(0, \<lparr>ri_data = [42], ri_sourceConnIndex = 0\<rparr>)]" "nextMessageId ?d = 0"
    "connReceiveQueues ?d = [q']" "hasReceiveCallback ?d" "gapTimerActive ?d = False" "reorderRunning ?d"
    by (simp_all add: receivedDataMap_accept) (simp_all add: reorder_init_def msg0_def)
  let ?w = "reorder_work 1 (example_clock 5) ?d"
  have "map di_messageId (io_delivered (fst ?w)) = [0] \<and> io_report (fst ?w) = None \<and> receivedDataMap (snd ?w) = []"
    using m by (simp add: reorder_work_def handle_gap_def Let_def split_beta drainReceivedDataMap.simps omap_erase_def)
  moreover have z1: "rreach 1 0 ((rsys_init 1 0)\<lparr>rx := ?e, prod := PEnqueued, offered := [msg0]\<rparr>)"
    using rreach.step [OF rreach.init rstep.Enqueue [where it = msg0 and s' = ?e]] q(1) by (simp add: rsys_init_def)
  have z2: "rreach 1 0 ((rsys_init 1 0)\<lparr>rx := ?e, prod := PEnqueued, offered := [msg0], pc := Scan 0\<rparr>)"
    using rreach.step [OF z1 rstep.Start] by (simp add: rsys_init_def reorder_init_def)
  have z3: "rreach 1 0 ((rsys_init 1 0)\<lparr>rx := ?d, prod := PEnqueued, offered := [msg0], pc := Scan 0, got := True\<rparr>)"
    using rreach.step [OF z2 rstep.Dequeue [where i = 0 and it = msg0 and q = q' and now = 3 and acc = True and s' = ?d]] q'(1)
    by (simp add: rsys_init_def prod_eq_iff) (simp add: accept_item_def reorder_init_def Let_def)
  have "try_dequeue q' = (None, q')" by (rule spsc.deq_empty [OF q'(2,3)])
  then have z4: "rreach 1 0 ((rsys_init 1 0)\<lparr>rx := ?d, prod := PEnqueued, offered := [msg0], pc := Scan 1, got := True\<rparr>)"
    using rreach.step [OF z3 rstep.Empty] m(3) by (simp add: rsys_init_def)
  from rreach.step [OF z4 rstep.Work [where i = 1 and ck = "example_clock 5" and out = "fst ?w" and s' = "snd ?w"]] m(3)
  have "rreach 1 0 ((rsys_init 1 0)\<lparr>rx := snd ?w, prod := PEnqueued, offered := [msg0], got := True,
      handed := io_delivered (fst ?w), skipped := io_report (fst ?w) \<noteq> None, pc := Loop\<rparr>)"
    by (auto simp: rsys_init_def reorder_wait_def)
  ultimately show ?thesis using m(3,6) q'(2,3) by (intro exI conjI) (auto simp: rsys_init_def)
qed

lemma reach_delivered:
  "\<exists>z. rreach 1 0 z \<and> \<not> skipped z \<and> map di_messageId (handed z) = [0] \<and> set (offered z) = {msg0}"
  using reach_delivered_loop by (elim exE conjE) (intro exI conjI)

text \<open>A round of the loop that finds nothing ends in the wait.\<close>

lemma idle_round:
  assumes z: "rreach 1 0 z" "pc z = Loop" and run: "reorderRunning (rx z)"
    and q: "connReceiveQueues (rx z) = [q]" "spsc_invar q" "spsc_contents q = []" and m: "receivedDataMap (rx z) = []"
  shows "\<exists>z'. rreach 1 0 z' \<and> pc z' = Check False \<and> handed z' = handed z \<and> offered z' = offered z \<and> skipped z' = skipped z \<and> queued (rx z') = []"
proof -
  let ?w = "reorder_work 1 (example_clock 9) (rx z)"
  have w: "io_delivered (fst ?w) = []" "io_report (fst ?w) = None" "gapTimerActive (snd ?w) = False"
    using m by (simp_all add: reorder_work_def handle_gap_def drain_stuck sendMissingNotifications_def health_log_def Let_def split_beta)
  have z1: "rreach 1 0 (z\<lparr>pc := Scan 0, got := False\<rparr>)" using rreach.step [OF z(1) rstep.Start [OF z(2)]] run by simp
  have "try_dequeue q = (None, q)" by (rule spsc.deq_empty [OF q(2,3)])
  then have z2: "rreach 1 0 (z\<lparr>got := False, pc := Scan 1\<rparr>)" using rreach.step [OF z1 rstep.Empty] q(1) by simp
  from rreach.step [OF z2 rstep.Work [where i = 1 and ck = "example_clock 9" and out = "fst ?w" and s' = "snd ?w"]] q(1) w
  have "rreach 1 0 (z\<lparr>got := False, rx := snd ?w, pc := Check False\<rparr>)" by (simp add: reorder_wait_def)
  moreover have "queued (snd ?w) = []" using q by (simp add: queued_def)
  ultimately show ?thesis by (intro exI [of _ "z\<lparr>got := False, rx := snd ?w, pc := Check False\<rparr>"]) simp
qed

theorem delivery_in_order_witness:
  "\<exists>z. rreach 1 0 z \<and> map di_messageId (handed z) = [0] \<and> (\<forall>it \<in> set (handed z). di_data it = [42])"
proof -
  obtain z where z: "rreach 1 0 z" "map di_messageId (handed z) = [0]" "set (offered z) = {msg0}"
    using reach_delivered by metis
  from delivery_in_order [OF z(1)] z(3) have "\<forall>it \<in> set (handed z). di_data it = [42]"
    by (auto simp: msg0_def)
  with z show ?thesis by metis
qed


end
