(* ===== verification/Tcp_Connection.thy ===== *)
theory Tcp_Connection
  imports Vc_Socket Send_Status
begin

text \<open>
  \<^verbatim>\<open>TcpConnection\<close> (\<^verbatim>\<open>src/src/common/TcpConnection.h\<close>, \<^verbatim>\<open>.cpp\<close>): connection state and
  its idempotent teardown, send diagnostics, the sampled TCP telemetry with its refresh interval and
  the lock-free reader of the cached sample. A \<^verbatim>\<open>std::shared_ptr\<close> to a connection is a reference
  into a heap of connections; the null pointer is \<open>None\<close>.
\<close>

section \<open>State\<close>

record RuntimeInfo =
  inf_supported :: bool
  inf_valid :: bool
  inf_isInExponentialBackoff :: bool
  inf_retransmissionIndicatorIsBytes :: bool
  inf_rtoUs :: u32
  inf_smoothedRttUs :: u32
  inf_congestionWindowBytes :: u32
  inf_bytesInFlight :: u32
  inf_retransmissionIndicator :: u32
  inf_timeoutEpisodes :: u32

definition RuntimeInfo_init :: RuntimeInfo where
  "RuntimeInfo_init = \<lparr>inf_supported = False, inf_valid = False, inf_isInExponentialBackoff = False,
     inf_retransmissionIndicatorIsBytes = False, inf_rtoUs = 0, inf_smoothedRttUs = 0,
     inf_congestionWindowBytes = 0, inf_bytesInFlight = 0, inf_retransmissionIndicator = 0,
     inf_timeoutEpisodes = 0\<rparr>"

text \<open>
  \<open>wire\<close> records the octets the kernel has accepted for this connection and \<open>closed\<close> the descriptors
  passed to \<^verbatim>\<open>SocketClose\<close>; both are effects on the environment, not members of the class.
\<close>

record TcpConnection =
  connected :: bool
  socketFd :: int
  cn_hasDisconnectCallback :: bool
  diagSendInFlight :: bool
  diagInFlightMessageIdVal :: u64
  diagInFlightStartMsVal :: int
  diagLastSendCompletedMessageIdVal :: u64
  diagLastSendEndMsVal :: int
  cn_lastRefreshTime :: time
  lastRuntimeInfo :: RuntimeInfo
  runtimeInfoGeneration :: u32
  wire :: bytes
  closed :: "int list"

definition TcpConnection_init :: "int \<Rightarrow> TcpConnection" where
  "TcpConnection_init fd = \<lparr>connected = True, socketFd = fd, cn_hasDisconnectCallback = False,
     diagSendInFlight = False, diagInFlightMessageIdVal = 0, diagInFlightStartMsVal = 0,
     diagLastSendCompletedMessageIdVal = 0, diagLastSendEndMsVal = 0, cn_lastRefreshTime = 0,
     lastRuntimeInfo = RuntimeInfo_init, runtimeInfoGeneration = 0, wire = [], closed = []\<rparr>"

section \<open>Operations\<close>

definition TcpConnection_destroy :: "TcpConnection \<Rightarrow> TcpConnection" where
  "TcpConnection_destroy c =
     (if socketFd c \<noteq> -1 then c\<lparr>closed := closed c @ [socketFd c], socketFd := -1\<rparr> else c)"

definition diagMarkSendStart :: "u64 \<Rightarrow> int \<Rightarrow> TcpConnection \<Rightarrow> TcpConnection" where
  "diagMarkSendStart messageId nowMs c =
     c\<lparr>diagInFlightMessageIdVal := messageId, diagInFlightStartMsVal := nowMs, diagSendInFlight := True\<rparr>"

definition diagMarkSendEnd :: "u64 \<Rightarrow> int \<Rightarrow> TcpConnection \<Rightarrow> TcpConnection" where
  "diagMarkSendEnd messageId nowMs c =
     c\<lparr>diagLastSendCompletedMessageIdVal := messageId, diagLastSendEndMsVal := nowMs, diagSendInFlight := False\<rparr>"

text \<open>The boolean says whether the per-connection callback is invoked.\<close>

definition disconnect :: "TcpConnection \<Rightarrow> bool \<times> TcpConnection" where
  "disconnect c =
     (if \<not> connected c then (False, c)
      else let c1 = (if socketFd c \<noteq> -1 then c\<lparr>closed := closed c @ [socketFd c], socketFd := -1\<rparr> else c)
           in (cn_hasDisconnectCallback c, c1\<lparr>connected := False\<rparr>))"

text \<open>
  The blocking \<^verbatim>\<open>send\<close>: each element of the script is what one \<^verbatim>\<open>SendTcpData\<close> call returns. The
  result is \<open>None\<close> when the script ends before the loop does.
\<close>

fun tcp_send_loop :: "bytes \<Rightarrow> nat \<Rightarrow> int list \<Rightarrow> TcpConnection \<Rightarrow> TcpConnection option" where
  "tcp_send_loop data totalSent [] c = (if totalSent < length data then None else Some c)"
| "tcp_send_loop data totalSent (bytesSent # rs) c =
     (if totalSent < length data
      then if bytesSent \<le> 0 then Some (snd (disconnect c))
           else tcp_send_loop data (totalSent + nat bytesSent) rs
                  (c\<lparr>wire := wire c @ take (nat bytesSent) (drop totalSent data)\<rparr>)
      else Some c)"

definition tcp_send :: "bytes \<Rightarrow> int list \<Rightarrow> TcpConnection \<Rightarrow> TcpConnection option" where
  "tcp_send data results c =
     (if connected c \<and> socketFd c \<noteq> -1 then tcp_send_loop data 0 results c else Some c)"

text \<open>\<^verbatim>\<open>receive\<close> with the result of \<^verbatim>\<open>RecvTcpData\<close>; only the exact value -1 is treated as an error.\<close>

definition tcp_receive :: "int \<Rightarrow> TcpConnection \<Rightarrow> int \<times> TcpConnection" where
  "tcp_receive bytesReceived c =
     (if connected c \<and> socketFd c \<noteq> -1
      then if bytesReceived = -1 then (0, snd (disconnect c)) else (bytesReceived mod 2 ^ 64, c)
      else (0, c))"

text \<open>What \<^verbatim>\<open>getsockopt\<close> delivers on the three platforms.\<close>

datatype tcp_sample =
    NoTelemetry
  | AppleInfo u32 u32 u32 u32
  | LinuxInfo u32 u32 u32 u32 u32 u32 nat

fun sample_fields :: "tcp_sample \<Rightarrow> RuntimeInfo" where
  "sample_fields NoTelemetry = RuntimeInfo_init"
| "sample_fields (AppleInfo snd_cwnd srtt rto snd_sbbytes) =
     RuntimeInfo_init\<lparr>inf_supported := True, inf_valid := True, inf_congestionWindowBytes := snd_cwnd,
       inf_smoothedRttUs := srtt * 1000, inf_rtoUs := rto * 1000, inf_bytesInFlight := snd_sbbytes\<rparr>"
| "sample_fields (LinuxInfo snd_cwnd snd_mss rtt rto unacked retransmits backoff) =
     RuntimeInfo_init\<lparr>inf_supported := True, inf_valid := True, inf_congestionWindowBytes := snd_cwnd * snd_mss,
       inf_smoothedRttUs := rtt, inf_rtoUs := rto * 1000, inf_bytesInFlight := unacked * snd_mss,
       inf_timeoutEpisodes := retransmits, inf_isInExponentialBackoff := (backoff > 1)\<rparr>"

definition sampleRuntimeInfo :: "tcp_sample \<Rightarrow> TcpConnection \<Rightarrow> RuntimeInfo" where
  "sampleRuntimeInfo smp c = (if \<not> connected c then RuntimeInfo_init else sample_fields smp)"

definition refreshRuntimeInfoIfStale :: "int \<Rightarrow> time \<Rightarrow> tcp_sample \<Rightarrow> TcpConnection \<Rightarrow> bool \<times> TcpConnection" where
  "refreshRuntimeInfoIfStale refreshInterval now smp c =
     (if now - cn_lastRefreshTime c < ms refreshInterval then (False, c)
      else (True, c\<lparr>cn_lastRefreshTime := now, lastRuntimeInfo := sampleRuntimeInfo smp c,
                    runtimeInfoGeneration := runtimeInfoGeneration c + 2\<rparr>))"

section \<open>References\<close>

type_synonym conn_ref = "nat option"
type_synonym conn_heap = "TcpConnection list"

definition alive :: "conn_heap \<Rightarrow> conn_ref \<Rightarrow> bool" where
  "alive h r = (case r of None \<Rightarrow> False | Some i \<Rightarrow> i < length h \<and> connected (h ! i))"

definition conn_upd :: "(TcpConnection \<Rightarrow> TcpConnection) \<Rightarrow> conn_ref \<Rightarrow> conn_heap \<Rightarrow> conn_heap" where
  "conn_upd f r h = (case r of None \<Rightarrow> h | Some i \<Rightarrow> h[i := f (h ! i)])"

definition disconnect_ref :: "conn_ref \<Rightarrow> conn_heap \<Rightarrow> conn_heap" where
  "disconnect_ref r h = conn_upd (\<lambda>c. snd (disconnect c)) r h"

definition fd_of :: "conn_heap \<Rightarrow> conn_ref \<Rightarrow> int" where
  "fd_of h r = (case r of None \<Rightarrow> -1 | Some i \<Rightarrow> socketFd (h ! i))"

lemma length_conn_upd [simp]: "length (conn_upd f r h) = length h"
  by (simp add: conn_upd_def split: option.split)

lemma length_disconnect_ref [simp]: "length (disconnect_ref r h) = length h"
  by (simp add: disconnect_ref_def)

lemma disconnect_connected [simp]: "\<not> connected (snd (disconnect c))"
  by (simp add: disconnect_def Let_def)

lemma disconnect_wire [simp]: "wire (snd (disconnect c)) = wire c"
  by (simp add: disconnect_def Let_def)

lemma nth_conn_upd: "i < length h \<Longrightarrow> conn_upd f r h ! i = (if r = Some i then f (h ! i) else h ! i)"
  by (cases r) (auto simp: conn_upd_def nth_list_update)

lemma alive_disconnect [simp]: "\<not> alive (disconnect_ref r h) r"
  by (cases r) (auto simp: alive_def disconnect_ref_def conn_upd_def)

lemma alive_mono: "alive (disconnect_ref r h) r' \<Longrightarrow> alive h r'"
  by (auto simp: alive_def disconnect_ref_def nth_conn_upd split: option.splits if_splits)

section \<open>Theorems\<close>

text \<open>A connection owns its descriptor until it is closed, once.\<close>

definition conn_ok :: "TcpConnection \<Rightarrow> bool" where
  "conn_ok c \<longleftrightarrow> (socketFd c \<noteq> -1 \<longrightarrow> connected c \<and> closed c = []) \<and> length (closed c) \<le> 1"

lemma conn_ok_ops [inv_intros]:
  "fd \<noteq> -1 \<Longrightarrow> conn_ok (TcpConnection_init fd)"
  "conn_ok c \<Longrightarrow> conn_ok (snd (disconnect c))"
  "conn_ok c \<Longrightarrow> conn_ok (diagMarkSendStart m t c)"
  "conn_ok c \<Longrightarrow> conn_ok (diagMarkSendEnd m t c)"
  "conn_ok c \<Longrightarrow> conn_ok (snd (refreshRuntimeInfoIfStale i t smp c))"
  "conn_ok c \<Longrightarrow> conn_ok (TcpConnection_destroy c)"
  by (auto simp: conn_ok_def TcpConnection_init_def disconnect_def diagMarkSendStart_def diagMarkSendEnd_def
      refreshRuntimeInfoIfStale_def TcpConnection_destroy_def Let_def split: if_splits)

datatype conn_op = OpDisconnect | OpSendStart u64 int | OpSendEnd u64 int | OpRefresh int time tcp_sample | OpSend bytes "int list"

fun conn_do :: "conn_op \<Rightarrow> TcpConnection \<Rightarrow> TcpConnection" where
  "conn_do OpDisconnect c = snd (disconnect c)"
| "conn_do (OpSendStart m t) c = diagMarkSendStart m t c"
| "conn_do (OpSendEnd m t) c = diagMarkSendEnd m t c"
| "conn_do (OpRefresh i t smp) c = snd (refreshRuntimeInfoIfStale i t smp c)"
| "conn_do (OpSend d rs) c = (case tcp_send d rs c of None \<Rightarrow> c | Some c' \<Rightarrow> c')"

lemma tcp_send_loop_ok: "tcp_send_loop d n rs c = Some c' \<Longrightarrow> conn_ok c \<Longrightarrow> conn_ok c'"
proof (induction d n rs c rule: tcp_send_loop.induct)
  case (1 d n c)
  then show ?case by (simp split: if_splits)
next
  case (2 d n r rs c)
  have "conn_ok (c\<lparr>wire := w\<rparr>)" if "conn_ok c" for w using that by (simp add: conn_ok_def)
  with 2 show ?case by (auto split: if_splits intro: conn_ok_ops)
qed

lemma conn_do_ok: "conn_ok c \<Longrightarrow> conn_ok (conn_do op c)"
  by (cases op) (auto intro: conn_ok_ops tcp_send_loop_ok simp: tcp_send_def split: option.splits if_splits)



text \<open>A complete blocking send puts exactly the message on the wire.\<close>

lemma tcp_send_loop_complete:
  assumes "tcp_send_loop d n rs c = Some c'" and "connected c'" and "n \<le> length d"
  shows "wire c' = wire c @ drop n d"
  using assms
proof (induction d n rs c rule: tcp_send_loop.induct)
  case (1 d n c)
  then show ?case by (simp split: if_splits)
next
  case (2 d n r rs c)
  show ?case
  proof (cases "n < length d \<and> 0 < r")
    case True
    then have eq: "tcp_send_loop d (n + nat r) rs (c\<lparr>wire := wire c @ take (nat r) (drop n d)\<rparr>) = Some c'"
      using "2.prems"(1) by simp
    show ?thesis
    proof (cases "n + nat r \<le> length d")
      case le: True
      have "wire c' = wire c @ take (nat r) (drop n d) @ drop (n + nat r) d"
        using "2.IH" [OF _ _ eq "2.prems"(2) le] True by simp
      also have "take (nat r) (drop n d) @ drop (n + nat r) d = drop n d"
        by (metis append_take_drop_id drop_drop add.commute)
      finally show ?thesis .
    next
      case False
      then have "c' = c\<lparr>wire := wire c @ take (nat r) (drop n d)\<rparr>" using eq by (cases rs) (simp_all split: if_splits)
      then show ?thesis using False by simp
    qed
  next
    case False
    then show ?thesis using 2 by (auto split: if_splits)
  qed
qed

section \<open>The lock-free reader\<close>

text \<open>
  \<^verbatim>\<open>refreshRuntimeInfoIfStale\<close> bumps the generation, copies the sample field by field and bumps the
  generation again; \<^verbatim>\<open>getLastRuntimeInfo\<close> loads the generation, copies the fields and accepts the
  copy when the generation is unchanged. Two fields are enough to see a torn copy.
\<close>

record seqlock =
  sq_gen :: u32
  sq_rtt :: u32
  sq_cwnd :: u32

definition writer_states :: "u32 \<Rightarrow> u32 \<Rightarrow> seqlock \<Rightarrow> seqlock list" where
  "writer_states rtt cwnd s =
     (let s1 = s\<lparr>sq_gen := sq_gen s + 1\<rparr>; s2 = s1\<lparr>sq_rtt := rtt\<rparr>; s3 = s2\<lparr>sq_cwnd := cwnd\<rparr>;
          s4 = s3\<lparr>sq_gen := sq_gen s3 + 1\<rparr>
      in [s, s1, s2, s3, s4])"

text \<open>One round of the reader's loop: the four loads observe four states of the writer, in order.\<close>

definition getLastRuntimeInfo :: "seqlock \<Rightarrow> seqlock \<Rightarrow> seqlock \<Rightarrow> seqlock \<Rightarrow> (u32 \<times> u32) option" where
  "getLastRuntimeInfo s1 s2 s3 s4 = (if sq_gen s1 \<noteq> sq_gen s4 then None else Some (sq_rtt s2, sq_cwnd s3))"

lemma gen_neq [simp]: "(g :: u32) + 1 \<noteq> g" "g + 2 \<noteq> g" "g + 2 \<noteq> g + 1" "g \<noteq> g + 1" "g \<noteq> g + 2" "g + 1 \<noteq> g + 2"
proof -
  have "(1 :: u32) \<noteq> 0" "(2 :: u32) \<noteq> 0" "(2 :: u32) \<noteq> 1" by simp_all
  then show "g + 1 \<noteq> g" "g + 2 \<noteq> g" "g + 2 \<noteq> g + 1" "g \<noteq> g + 1" "g \<noteq> g + 2" "g + 1 \<noteq> g + 2"
    by (metis add_cancel_right_right add_left_cancel)+
qed

text \<open>
  The reader can return a torn sample. If all four loads fall into the writer's critical section,
  the generation is odd but unchanged and the reader accepts the old round-trip time together with
  the new congestion window. A reader whose first load precedes the write, or follows it, is safe.
\<close>

theorem seqlock_torn_read:
  "(let w = writer_states rtt cwnd s in getLastRuntimeInfo (w ! 1) (w ! 1) (w ! 3) (w ! 3)) = Some (sq_rtt s, cwnd) \<and>
   (\<forall>j \<in> {0..4}. \<forall>k \<in> {j..4}. \<forall>l \<in> {k..4}.
      let w = writer_states rtt cwnd s
      in getLastRuntimeInfo (w ! 0) (w ! j) (w ! k) (w ! l) \<in> {None, Some (sq_rtt s, sq_cwnd s)})"
proof -
  have "{0..4 :: nat} = {0, 1, 2, 3, 4}" by auto
  moreover have "getLastRuntimeInfo (writer_states rtt cwnd s ! 0) (writer_states rtt cwnd s ! j)
        (writer_states rtt cwnd s ! k) (writer_states rtt cwnd s ! l) \<in> {None, Some (sq_rtt s, sq_cwnd s)}"
    if "j \<le> k" "k \<le> l" "l \<le> 4" for j k l
  proof (cases "l = 0")
    case True
    with that show ?thesis by (simp add: writer_states_def getLastRuntimeInfo_def Let_def)
  next
    case False
    with that(3) consider "l = 1" | "l = 2" | "l = 3" | "l = 4" by linarith
    then show ?thesis
      by cases (simp_all add: writer_states_def getLastRuntimeInfo_def Let_def numeral_eq_Suc add.assoc)
  qed
  ultimately show ?thesis by (simp add: writer_states_def getLastRuntimeInfo_def Let_def)
qed

theorem seqlock_torn_read_witness:
  "(let w = writer_states 7 9 \<lparr>sq_gen = 4, sq_rtt = 1, sq_cwnd = 2\<rparr>
    in getLastRuntimeInfo (w ! 1) (w ! 1) (w ! 3) (w ! 3)) = Some (1, 9)"
  using seqlock_torn_read [of 7 9 "\<lparr>sq_gen = 4, sq_rtt = 1, sq_cwnd = 2\<rparr>", THEN conjunct1] by simp

end
