(* ===== verification/Stopable_Thread.thy ===== *)
theory Stopable_Thread
  imports Vc_Prelude
begin

text \<open>
  \<^verbatim>\<open>StopableThread\<close> (\<^verbatim>\<open>src/src/common/StopableThread.cpp\<close>): the running flag and the state of the
  \<^verbatim>\<open>std::thread\<close> handle. \<open>self\<close> says whether the caller is the managed thread. Joining oneself
  raises in the C++ library (\<open>SelfJoin\<close>); starting over a joinable handle, or destroying one,
  ends the program (\<open>Terminate\<close>).
\<close>

record StopableThread =
  th_running :: bool
  th_joinable :: bool

definition StopableThread_init :: StopableThread where
  "StopableThread_init = \<lparr>th_running = True, th_joinable = False\<rparr>"

definition thread_start :: "StopableThread \<Rightarrow> StopableThread outcome" where
  "thread_start t = (if th_joinable t then Inl Terminate else Inr (t\<lparr>th_joinable := True\<rparr>))"

definition setRunning :: "bool \<Rightarrow> StopableThread \<Rightarrow> StopableThread" where
  "setRunning b t = t\<lparr>th_running := b\<rparr>"

text \<open>\<^verbatim>\<open>stop()\<close> never traps: it does not join from the thread itself.\<close>

definition thread_stop :: "bool \<Rightarrow> StopableThread \<Rightarrow> StopableThread" where
  "thread_stop self t =
     (let t1 = setRunning False t
      in if th_joinable t1 then if \<not> self then t1\<lparr>th_joinable := False\<rparr> else t1 else t1)"

definition joinThread :: "bool \<Rightarrow> StopableThread \<Rightarrow> StopableThread outcome" where
  "joinThread self t =
     (if th_joinable t then if self then Inl SelfJoin else Inr (t\<lparr>th_joinable := False\<rparr>) else Inr t)"

text \<open>The destructor detaches when it runs on the thread itself.\<close>

definition thread_destroy :: "bool \<Rightarrow> StopableThread \<Rightarrow> StopableThread" where
  "thread_destroy self t =
     (if th_joinable t then if self then t\<lparr>th_joinable := False\<rparr> else (setRunning False t)\<lparr>th_joinable := False\<rparr> else t)"

lemmas thread_defs = StopableThread_init_def thread_start_def setRunning_def thread_stop_def joinThread_def
  thread_destroy_def

lemma stop_join_other:
  "joinThread False (thread_stop False t) = Inr \<lparr>th_running = False, th_joinable = False, \<dots> = StopableThread.more t\<rparr>"
  by (simp add: thread_defs Let_def)

lemma stop_join_self: "joinThread True (thread_stop True t) = (if th_joinable t then Inl SelfJoin else Inr (setRunning False t))"
  by (simp add: thread_defs Let_def)

lemma destroy_not_joinable: "\<not> th_joinable (thread_destroy self t)"
  by (simp add: thread_defs)

end
