(* ===== verification/Channel.thy ===== *)
theory Channel
  imports Io_Parser Blocking_Queue Sent_Cache Reorder_Steps Tcp_Connection Stopable_Thread
begin

text \<open>
  \<^verbatim>\<open>TcpVirtualChannel\<close> (\<^verbatim>\<open>src/src/common/TcpVirtualChannel.h\<close>, \<^verbatim>\<open>.cpp\<close>): the channel object
  with its connections, queues, caches and threads, and every public operation: construction,
  \<^verbatim>\<open>open\<close>, \<^verbatim>\<open>send\<close>, \<^verbatim>\<open>close\<close>, the disconnect callback, the handlers of resend requests and
  missing notifications with the default callbacks, \<^verbatim>\<open>getDeadSlots\<close> and \<^verbatim>\<open>replaceConnection\<close>.
  The receiving members are the record \<open>reorder\<close>.
\<close>

section \<open>State\<close>

text \<open>Members of \<^verbatim>\<open>TcpVCIoThread\<close>; the last three are local variables of its \<^verbatim>\<open>run()\<close>.\<close>

record io_thread =
  io_thr :: StopableThread
  io_connections :: "conn_ref list"
  io_connGeneration :: u64
  io_readBuffers :: "ReadBuffer list"
  io_snapshot :: "conn_ref list"
  io_cachedGen :: u64
  io_prevFds :: "int list"

text \<open>Members of \<^verbatim>\<open>TcpVCSendThread\<close>; \<open>st_pending\<close> is the local variable \<^verbatim>\<open>pendingDataVec\<close>.\<close>

record send_thread =
  st_thr :: StopableThread
  st_connections :: "conn_ref list"
  st_lastRuntimeRefresh :: "time list"
  st_roundRobinStart :: nat
  st_resendRoundRobin :: nat
  st_resendRetryCount :: "(u64, u8) umap"
  st_pending :: "bytes option"

text \<open>Whether a callback slot holds nothing, the default installed by \<^verbatim>\<open>open()\<close>, or a caller's function.\<close>

datatype callback = NoCallback | DefaultCallback | CustomCallback

text \<open>
  The statistics and status objects are shared between the channel and its send thread and always
  replaced in both, so they appear once. \<open>disconnects\<close> counts the calls of the channel's
  \<^verbatim>\<open>disconnectCallback\<close>, \<open>customResends\<close> records the calls of a caller's resend callback.
\<close>

record chan =
  ch_rx :: reorder
  opened :: bool
  heap :: conn_heap
  connections :: "conn_ref list"
  sendQueue :: "bytes BlockingQueue"
  resendQueue :: "bytes BlockingQueue"
  connSendStats :: "ConnSendStats list"
  messageTracker :: "MessageTracker option"
  socketStatuses :: "SocketStatus list"
  lastSendMessageId :: u64
  pendingResendIds :: "(u64, time) umap"
  sentDataCache :: SentDataCache
  resendCallback :: callback
  hasDisconnectCallback :: bool
  reorderJoinable :: bool
  ioThread :: "io_thread option"
  sendThread :: "send_thread option"
  disconnects :: nat
  customResends :: "(u64 \<times> bytes) list"

section \<open>Construction\<close>

definition TcpVirtualChannel_init :: "int list \<Rightarrow> time \<Rightarrow> chan" where
  "TcpVirtualChannel_init fds now =
     \<lparr>ch_rx = (reorder_init 0 now)\<lparr>reorderRunning := False, hasReceiveCallback := False, hasMissingNotifyCallback := False\<rparr>,
      opened = False, heap = map TcpConnection_init fds, connections = map Some [0..<length fds],
      sendQueue = BlockingQueue_init, resendQueue = BlockingQueue_init, connSendStats = [],
      messageTracker = None, socketStatuses = [], lastSendMessageId = 0, pendingResendIds = [],
      sentDataCache = SentDataCache_default, resendCallback = NoCallback, hasDisconnectCallback = False,
      reorderJoinable = False, ioThread = None, sendThread = None, disconnects = 0, customResends = []\<rparr>"

definition TcpVCIoThread_init :: "conn_ref list \<Rightarrow> io_thread" where
  "TcpVCIoThread_init conns =
     \<lparr>io_thr = StopableThread_init, io_connections = conns, io_connGeneration = 0,
      io_readBuffers = replicate (length conns) empty_ReadBuffer, io_snapshot = [], io_cachedGen = - 1,
      io_prevFds = replicate (length conns) (-1)\<rparr>"

definition TcpVCSendThread_init :: "conn_ref list \<Rightarrow> time \<Rightarrow> send_thread" where
  "TcpVCSendThread_init conns now =
     \<lparr>st_thr = StopableThread_init, st_connections = conns, st_lastRuntimeRefresh = replicate (length conns) now,
      st_roundRobinStart = 0, st_resendRoundRobin = 0, st_resendRetryCount = [], st_pending = None\<rparr>"

text \<open>\<^verbatim>\<open>vector::resize\<close>\<close>

definition resize :: "nat \<Rightarrow> 'a \<Rightarrow> 'a list \<Rightarrow> 'a list" where
  "resize n d xs = take n xs @ replicate (n - length xs) d"

definition vc_open :: "time \<Rightarrow> chan \<Rightarrow> chan outcome" where
  "vc_open now c =
     (let n = length (connections c); r = ch_rx c
      in if reorderJoinable c then Inl Terminate
         else and_then (thread_start (io_thr (TcpVCIoThread_init (connections c)))) (\<lambda>iot.
              and_then (thread_start (st_thr (TcpVCSendThread_init (connections c) now))) (\<lambda>stt.
              Inr (c\<lparr>ch_rx := r\<lparr>lastRxMessageId := resize n 0 (lastRxMessageId r),
                             lastRxTime := resize n 0 (lastRxTime r), lastRxValid := replicate n False,
                             connReceiveQueues := replicate n (SpscQueue_init 1024 DeliveryItem_init),
                             reorderRunning := True, hasMissingNotifyCallback := True\<rparr>,
                     connSendStats := replicate n ConnSendStats_init,
                     messageTracker := Some (MessageTracker_init n),
                     sentDataCache := SentDataCache_init n 128,
                     socketStatuses := map (\<lambda>i. SocketStatus_init (int i)) [0..<n],
                     reorderJoinable := True,
                     ioThread := Some ((TcpVCIoThread_init (connections c))\<lparr>io_thr := iot\<rparr>),
                     sendQueue := bq_setEnqueueNotifier True (sendQueue c),
                     resendQueue := bq_setEnqueueNotifier True (resendQueue c),
                     sendThread := Some ((TcpVCSendThread_init (connections c) now)\<lparr>st_thr := stt\<rparr>),
                     resendCallback := (if resendCallback c = NoCallback then DefaultCallback else resendCallback c),
                     opened := True\<rparr>))))"

section \<open>Losing connections\<close>

definition aliveCount :: "chan \<Rightarrow> nat" where
  "aliveCount c = length (filter (alive (heap c)) (connections c))"

definition disconnect_all :: "chan \<Rightarrow> chan" where
  "disconnect_all c = c\<lparr>heap := fold (\<lambda>r h. if alive h r then disconnect_ref r h else h) (connections c) (heap c)\<rparr>"

text \<open>The callback that the IO and send threads invoke after they disconnected a connection.\<close>

definition disconnectCB :: "chan \<Rightarrow> chan" where
  "disconnectCB c =
     (if \<not> opened c then c
      else if aliveCount c > 0 then c
      else let c1 = c\<lparr>opened := False, sendQueue := bq_cancelWait (sendQueue c), resendQueue := bq_cancelWait (resendQueue c),
                      ioThread := map_option (\<lambda>t. t\<lparr>io_thr := setRunning False (io_thr t)\<rparr>) (ioThread c),
                      sendThread := map_option (\<lambda>t. t\<lparr>st_thr := setRunning False (st_thr t)\<rparr>) (sendThread c)\<rparr>;
               c2 = disconnect_all c1
           in if hasDisconnectCallback c then c2\<lparr>disconnects := disconnects c2 + 1\<rparr> else c2)"

section \<open>Sending\<close>

text \<open>A null data pointer is \<open>None\<close>.\<close>

definition vc_send :: "bytes option \<Rightarrow> chan \<Rightarrow> chan outcome" where
  "vc_send data c =
     (if \<not> opened c then Inr c
      else case data of
        None \<Rightarrow> Inr c
      | Some d \<Rightarrow>
          if length d > 0
          then if length d > VC_MAX_DATA_PAYLOAD_SIZE then Inr c
               else if unat (bq_approxSize (sendQueue c)) > SEND_QUEUE_DROP_THRESHOLD then Inr c
               else let messageId = lastSendMessageId c; c1 = c\<lparr>lastSendMessageId := messageId + 1\<rparr>;
                        dataVec = VCDataPacket_bytes messageId d
                    in and_then (sdc_insert messageId dataVec (sentDataCache c1)) (\<lambda>cache.
                       Inr (c1\<lparr>sentDataCache := cache, sendQueue := bq_enqueue dataVec (sendQueue c1)\<rparr>))
          else Inr c)"

section \<open>Closing\<close>

text \<open>Which of the channel's own threads calls \<^verbatim>\<open>close()\<close>, if any.\<close>

datatype caller = OtherCaller | IoCaller | SendCaller | ReorderCaller

definition close_threads :: "caller \<Rightarrow> chan \<Rightarrow> chan outcome" where
  "close_threads who c =
     and_then (case sendThread c of None \<Rightarrow> Inr c
               | Some t \<Rightarrow> and_then (joinThread (who = SendCaller) (thread_stop (who = SendCaller) (st_thr t)))
                   (\<lambda>_. Inr (c\<lparr>sendThread := None, sendQueue := bq_setEnqueueNotifier False (sendQueue c),
                               resendQueue := bq_setEnqueueNotifier False (resendQueue c)\<rparr>)))
     (\<lambda>c1. case ioThread c1 of None \<Rightarrow> Inr c1
           | Some t \<Rightarrow> and_then (joinThread (who = IoCaller) (thread_stop (who = IoCaller) (io_thr t)))
               (\<lambda>_. Inr (c1\<lparr>ioThread := None\<rparr>)))"

definition close_rest :: "caller \<Rightarrow> chan \<Rightarrow> chan outcome" where
  "close_rest who c =
     (let c1 = c\<lparr>ch_rx := (ch_rx c)\<lparr>reorderRunning := False\<rparr>\<rparr>
      in and_then (if reorderJoinable c1 then if who = ReorderCaller then Inl SelfJoin else Inr (c1\<lparr>reorderJoinable := False\<rparr>)
                   else Inr c1) (\<lambda>c2.
         Inr (c2\<lparr>messageTracker := map_option mt_clear (messageTracker c2), sentDataCache := sdc_clear (sentDataCache c2)\<rparr>)))"

definition vc_close :: "caller \<Rightarrow> chan \<Rightarrow> chan outcome" where
  "vc_close who c =
     (let wasOpen = opened c; c0 = c\<lparr>opened := False\<rparr>
      in and_then
          (if wasOpen
           then and_then (close_threads who (c0\<lparr>sendQueue := bq_cancelWait (sendQueue c0), resendQueue := bq_cancelWait (resendQueue c0)\<rparr>))
                  (\<lambda>c1. Inr (disconnect_all c1))
           else Inr c0)
          (close_rest who))"

section \<open>Resending\<close>

definition call_resend :: "u64 \<Rightarrow> bytes \<Rightarrow> chan \<Rightarrow> chan" where
  "call_resend messageId data c =
     (case resendCallback c of
        NoCallback \<Rightarrow> c
      | DefaultCallback \<Rightarrow> if \<not> opened c then c
          else c\<lparr>resendQueue := bq_enqueue (VCDataPacket_bytes messageId data) (resendQueue c)\<rparr>
      | CustomCallback \<Rightarrow> c\<lparr>customResends := customResends c @ [(messageId, data)]\<rparr>)"

definition mark_tracked :: "int \<Rightarrow> u64 \<Rightarrow> chan \<Rightarrow> chan outcome" where
  "mark_tracked nowMs messageId c =
     (case messageTracker c of None \<Rightarrow> Inr c
      | Some t \<Rightarrow> and_then (getConnectionIndex messageId t) (\<lambda>i.
          Inr (if 0 \<le> i \<and> nat i < length (socketStatuses c)
               then c\<lparr>socketStatuses := (socketStatuses c)[nat i := markDegraded nowMs (socketStatuses c ! nat i)]\<rparr>
               else c)))"

definition processResendRequest :: "int \<Rightarrow> u64 \<Rightarrow> chan \<Rightarrow> chan outcome" where
  "processResendRequest nowMs messageId c =
     and_then (mark_tracked nowMs messageId c) (\<lambda>c1.
     and_then (sdc_find messageId (sentDataCache c1)) (\<lambda>found.
       case found of
         Some packet \<Rightarrow> if resendCallback c1 \<noteq> NoCallback
            then Inr (call_resend messageId (take (pkt_dataLength packet) (pkt_data packet)) c1) else Inr c1
       | None \<Rightarrow> Inr c1))"

definition pendingResendTtl :: time where
  "pendingResendTtl = ms 2000"

text \<open>One round of the loop over the missing ids; \<open>now\<close> is read once, \<open>nowMs\<close> for each mark.\<close>

definition missing_step :: "time \<Rightarrow> int \<Rightarrow> u64 \<Rightarrow> chan \<Rightarrow> chan outcome" where
  "missing_step now nowMs messageId c =
     and_then (mark_tracked nowMs messageId c) (\<lambda>c1.
       if map_of (pendingResendIds c1) messageId \<noteq> None then Inr c1
       else and_then (sdc_find messageId (sentDataCache c1)) (\<lambda>found.
         case found of
           Some packet \<Rightarrow> if resendCallback c1 \<noteq> NoCallback
              then let c2 = call_resend messageId (take (pkt_dataLength packet) (pkt_data packet)) c1
                   in Inr (c2\<lparr>pendingResendIds := AList.update messageId now (pendingResendIds c2)\<rparr>)
              else Inr c1
         | None \<Rightarrow> Inr c1))"

fun missing_loop :: "time \<Rightarrow> int \<Rightarrow> u64 list \<Rightarrow> chan \<Rightarrow> chan outcome" where
  "missing_loop now nowMs [] c = Inr c"
| "missing_loop now nowMs (m # ms') c = and_then (missing_step now nowMs m c) (missing_loop now nowMs ms')"

definition expire_pending :: "time \<Rightarrow> u64 list \<Rightarrow> (u64, time) umap \<Rightarrow> (u64, time) umap" where
  "expire_pending now missingIds pending =
     filter (\<lambda>(k, t). \<not> (k \<notin> set missingIds \<or> now - t \<ge> pendingResendTtl)) pending"

definition processMissingNotify :: "time \<Rightarrow> int \<Rightarrow> u64 list \<Rightarrow> chan \<Rightarrow> chan outcome" where
  "processMissingNotify now nowMs missingIds c =
     missing_loop now nowMs missingIds (c\<lparr>pendingResendIds := expire_pending now missingIds (pendingResendIds c)\<rparr>)"

text \<open>The default callback for missing ids.\<close>

definition default_missing_notify :: "u64 list \<Rightarrow> chan \<Rightarrow> chan" where
  "default_missing_notify missingIds c =
     (if \<not> opened c then c
      else c\<lparr>sendQueue := bq_enqueue
               (VCMissingNotify_bytes (take (min (length missingIds) VC_MAX_MISSING_IDS_PER_NOTIFY) missingIds)) (sendQueue c)\<rparr>)"

section \<open>Replacing connections\<close>

definition getDeadSlots :: "chan \<Rightarrow> int list" where
  "getDeadSlots c = map int (filter (\<lambda>i. \<not> alive (heap c) (connections c ! i)) [0..<length (connections c)])"

definition io_replaceConnection :: "int \<Rightarrow> conn_ref \<Rightarrow> io_thread \<Rightarrow> io_thread" where
  "io_replaceConnection slot conn t =
     (if slot < 0 \<or> nat slot \<ge> length (io_connections t) then t
      else t\<lparr>io_connections := (io_connections t)[nat slot := conn], io_connGeneration := io_connGeneration t + 1\<rparr>)"

definition st_replaceConnection :: "int \<Rightarrow> conn_ref \<Rightarrow> time \<Rightarrow> send_thread \<Rightarrow> send_thread" where
  "st_replaceConnection slot conn now t =
     (if slot < 0 \<or> nat slot \<ge> length (st_connections t) then t
      else t\<lparr>st_connections := (st_connections t)[nat slot := conn],
             st_lastRuntimeRefresh := (st_lastRuntimeRefresh t)[nat slot := now]\<rparr>)"

definition replaceConnection :: "int \<Rightarrow> int \<Rightarrow> time \<Rightarrow> chan \<Rightarrow> chan" where
  "replaceConnection slotIndex newFd now c =
     (if slotIndex < 0 \<or> nat slotIndex \<ge> length (connections c) then c
      else let i = nat slotIndex; newConn = Some (length (heap c))
           in c\<lparr>heap := heap c @ [TcpConnection_init newFd],
                socketStatuses := (socketStatuses c)[i := SocketStatus_init (-1)],
                connSendStats := (connSendStats c)[i := ConnSendStats_init],
                connections := (connections c)[i := newConn],
                ioThread := map_option (io_replaceConnection slotIndex newConn) (ioThread c),
                sendThread := map_option (st_replaceConnection slotIndex newConn now) (sendThread c)\<rparr>)"

end
