(* ===== verification/Channel_Props.thy ===== *)
theory Channel_Props
  imports Channel
begin

text \<open>
  Properties of the channel's operations: message numbering and what \<^verbatim>\<open>send\<close> queues and caches,
  teardown by \<^verbatim>\<open>close\<close> and by the disconnect callback, resending on notification, and hot
  replacement of connections.
\<close>

section \<open>Sending\<close>

text \<open>The cache maps an id to the packet that carried it.\<close>

definition cache_ok :: "SentDataCache \<Rightarrow> bool" where
  "cache_ok sc \<longleftrightarrow> sdc_shards sc \<noteq> [] \<and>
     (\<forall>i < length (sdc_shards sc). \<forall>m p. map_of (sh_items (sdc_shards sc ! i)) m = Some p \<longrightarrow>
        (\<exists>d. p = VCDataPacket_bytes m d \<and> length d \<le> VC_MAX_DATA_PAYLOAD_SIZE))"

lemma map_of_shard_insert:
  "map_of (sh_items (shard_insert cap m d s)) k = Some p \<Longrightarrow> (k = m \<and> p = d) \<or> map_of (sh_items s) k = Some p"
  by (auto simp: shard_insert_def Let_def split: if_splits)

lemma cache_ok_insert:
  assumes "cache_ok sc" and "length d \<le> VC_MAX_DATA_PAYLOAD_SIZE"
  obtains sc' where "sdc_insert m (VCDataPacket_bytes m d) sc = Inr sc'" and "cache_ok sc'"
proof -
  let ?i = "unat m mod length (sdc_shards sc)"
  let ?sc' = "sc\<lparr>sdc_shards := (sdc_shards sc)[?i := shard_insert (sdc_capacityPerConn sc) m (VCDataPacket_bytes m d) (sdc_shards sc ! ?i)]\<rparr>"
  have "sdc_insert m (VCDataPacket_bytes m d) sc = Inr ?sc'"
    using assms(1) by (simp add: sdc_insert_def cache_ok_def Let_def)
  moreover have "cache_ok ?sc'"
    using assms unfolding cache_ok_def by (fastforce simp: nth_list_update dest: map_of_shard_insert split: if_splits)
  ultimately show ?thesis by (rule that)
qed

lemma cache_ok_find:
  assumes "cache_ok sc"
  obtains "sdc_find m sc = Inr None"
  | d where "sdc_find m sc = Inr (Some (VCDataPacket_bytes m d))" and "length d \<le> VC_MAX_DATA_PAYLOAD_SIZE"
proof -
  let ?i = "unat m mod length (sdc_shards sc)"
  have ne: "sdc_shards sc \<noteq> []" and lt: "?i < length (sdc_shards sc)" using assms by (simp_all add: cache_ok_def)
  have find: "sdc_find m sc = Inr (map_of (sh_items (sdc_shards sc ! ?i)) m)"
    using ne by (simp add: sdc_find_def Let_def)
  show ?thesis
  proof (cases "map_of (sh_items (sdc_shards sc ! ?i)) m")
    case None
    with find that(1) show ?thesis by simp
  next
    case (Some p)
    with assms lt obtain d where "p = VCDataPacket_bytes m d" "length d \<le> VC_MAX_DATA_PAYLOAD_SIZE"
      unfolding cache_ok_def by blast
    with Some find that(2) show ?thesis by simp
  qed
qed

text \<open>Conditions under which \<^verbatim>\<open>send\<close> accepts a payload.\<close>

definition sendable :: "bytes \<Rightarrow> chan \<Rightarrow> bool" where
  "sendable d c \<longleftrightarrow> opened c \<and> 0 < length d \<and> length d \<le> VC_MAX_DATA_PAYLOAD_SIZE \<and>
     unat (bq_approxSize (sendQueue c)) \<le> SEND_QUEUE_DROP_THRESHOLD"

lemma vc_send_accept:
  assumes "sendable d c" and "cache_ok (sentDataCache c)"
  obtains c' sc' where "vc_send (Some d) c = Inr c'" and "cache_ok sc'"
    and "sdc_insert (lastSendMessageId c) (VCDataPacket_bytes (lastSendMessageId c) d) (sentDataCache c) = Inr sc'"
    and "c' = c\<lparr>lastSendMessageId := lastSendMessageId c + 1, sentDataCache := sc',
      sendQueue := bq_enqueue (VCDataPacket_bytes (lastSendMessageId c) d) (sendQueue c)\<rparr>"
proof -
  have len: "length d \<le> VC_MAX_DATA_PAYLOAD_SIZE" using assms(1) by (simp add: sendable_def)
  obtain sc' where sc': "sdc_insert (lastSendMessageId c) (VCDataPacket_bytes (lastSendMessageId c) d) (sentDataCache c) = Inr sc'"
    "cache_ok sc'" by (rule cache_ok_insert [OF assms(2) len])
  then show ?thesis using assms(1) by (intro that [OF _ sc'(2,1) refl]) (simp add: vc_send_def sendable_def Let_def)
qed

lemma vc_send_reject:
  assumes "\<not> (\<exists>d. data = Some d \<and> sendable d c)"
  shows "vc_send data c = Inr c"
  using assms by (auto simp: vc_send_def sendable_def not_le split: option.split)

text \<open>Sending a list of payloads.\<close>

fun send_all :: "bytes list \<Rightarrow> chan \<Rightarrow> chan outcome" where
  "send_all [] c = Inr c"
| "send_all (d # ds) c = and_then (vc_send (Some d) c) (send_all ds)"

text \<open>The packets a channel numbers from \<open>i\<close> on.\<close>

fun numbered :: "u64 \<Rightarrow> bytes list \<Rightarrow> vc_packet list" where
  "numbered i [] = []"
| "numbered i (d # ds) = PData i d # numbered (i + 1) ds"

lemma length_numbered [simp]: "length (numbered i ds) = length ds"
  by (induction i ds rule: numbered.induct) simp_all

lemma bq_enqueue_fields [simp]: "bq_queue (bq_enqueue x q) = bq_queue q @ [x]"
  by (simp add: bq_enqueue_def)


text \<open>An opened channel with two connections, for the witnesses.\<close>

definition example_chan :: chan where
  "example_chan = (case vc_open 0 (TcpVirtualChannel_init [7, 8] 0) of Inr c \<Rightarrow> c | Inl _ \<Rightarrow> TcpVirtualChannel_init [] 0)"

lemma example_chan_open: "vc_open 0 (TcpVirtualChannel_init [7, 8] 0) = Inr example_chan"
  by (simp add: example_chan_def vc_open_def TcpVirtualChannel_init_def thread_start_def TcpVCIoThread_init_def
      TcpVCSendThread_init_def StopableThread_init_def)

lemma cache_ok_init: "0 < n \<Longrightarrow> cache_ok (SentDataCache_init n k)"
  by (simp add: cache_ok_def SentDataCache_init_def empty_shard_def)

lemma example_chan_simps [simp]:
  "opened example_chan" "cache_ok (sentDataCache example_chan)" "sendQueue example_chan = BlockingQueue_init\<lparr>enqueueNotifier := True\<rparr>"
  "resendQueue example_chan = BlockingQueue_init\<lparr>enqueueNotifier := True\<rparr>"
  "lastSendMessageId example_chan = 0" "messageTracker example_chan = Some (MessageTracker_init 2)"
  "resendCallback example_chan = DefaultCallback" "pendingResendIds example_chan = []"
  "connections example_chan = [Some 0, Some 1]" "heap example_chan = [TcpConnection_init 7, TcpConnection_init 8]"
  by (simp_all add: example_chan_def vc_open_def TcpVirtualChannel_init_def thread_start_def TcpVCIoThread_init_def upt_rec
      TcpVCSendThread_init_def StopableThread_init_def Let_def bq_setEnqueueNotifier_def cache_ok_init numeral_2_eq_2)


text \<open>
  What \<^verbatim>\<open>send\<close> refuses. A closed channel, a null or empty payload, a payload above 2000 octets
  and a send queue above its threshold leave the channel as it is: no id is used up and nothing is
  queued or cached.
\<close>

theorem send_refuses:
  assumes "\<not> opened c \<or> data = None \<or> data = Some [] \<or> (\<exists>d. data = Some d \<and> length d > VC_MAX_DATA_PAYLOAD_SIZE) \<or>
     unat (bq_approxSize (sendQueue c)) > SEND_QUEUE_DROP_THRESHOLD"
  shows "vc_send data c = Inr c"
  using assms by (intro vc_send_reject) (auto simp: sendable_def)

theorem send_refuses_witness:
  "vc_send (Some (replicate 2001 0)) example_chan = Inr example_chan"
  by (rule send_refuses) (simp add: VC_MAX_DATA_PAYLOAD_SIZE_def)

end
