(* ===== verification/Channel_Life.thy ===== *)
theory Channel_Life
  imports Channel_Props
begin

text \<open>
  The life of a channel: the disconnect callback tears it down when the last connection is lost and
  only then, \<^verbatim>\<open>close\<close> releases everything and may be called again, and a replaced connection
  brings its slot back.
\<close>

section \<open>Losing connections\<close>

lemma fold_disconnect_mono:
  "alive (fold (\<lambda>r h. if alive h r then disconnect_ref r h else h) rs h) r \<Longrightarrow> alive h r"
  by (induction rs arbitrary: h) (auto dest: alive_mono split: if_splits)

lemma fold_disconnect_dead:
  "r \<in> set rs \<Longrightarrow> \<not> alive (fold (\<lambda>r h. if alive h r then disconnect_ref r h else h) rs h) r"
proof (induction rs arbitrary: h)
  case Nil
  then show ?case by simp
next
  case (Cons x rs)
  show ?case
  proof (cases "r \<in> set rs")
    case True
    then show ?thesis using Cons.IH by simp
  next
    case False
    with Cons.prems have "r = x" by simp
    moreover have "\<not> alive (if alive h x then disconnect_ref x h else h) x" by simp
    ultimately show ?thesis using fold_disconnect_mono [of rs "if alive h x then disconnect_ref x h else h" x] by auto
  qed
qed

lemma fold_disconnect_idle:
  "\<forall>r \<in> set rs. \<not> alive h r \<Longrightarrow> fold (\<lambda>r h. if alive h r then disconnect_ref r h else h) rs h = h"
  by (induction rs) auto

lemma disconnect_all_dead: "aliveCount (disconnect_all c) = 0"
  by (auto simp: aliveCount_def disconnect_all_def filter_empty_conv fold_disconnect_dead)

lemma disconnect_all_idle: "aliveCount c = 0 \<Longrightarrow> disconnect_all c = c"
  by (simp add: aliveCount_def disconnect_all_def filter_empty_conv fold_disconnect_idle)


definition dead_chan :: chan where
  "dead_chan = (disconnect_all example_chan)\<lparr>hasDisconnectCallback := True\<rparr>"


section \<open>Closing\<close>

lemma close_threads_other:
  obtains c' where "close_threads OtherCaller c = Inr c'" and "sendThread c' = None" and "ioThread c' = None"
    and "connections c' = connections c" and "heap c' = heap c" and "opened c' = opened c"
    and "disconnects c' = disconnects c" and "bq_cancelled (sendQueue c') = bq_cancelled (sendQueue c)"
    and "bq_cancelled (resendQueue c') = bq_cancelled (resendQueue c)"
  by (cases "sendThread c"; cases "ioThread c")
    (auto simp: close_threads_def joinThread_def thread_stop_def setRunning_def Let_def bq_setEnqueueNotifier_def)

text \<open>What is left after the common tail of \<^verbatim>\<open>close()\<close>.\<close>

definition closed_state :: "chan \<Rightarrow> bool" where
  "closed_state c \<longleftrightarrow> \<not> opened c \<and> \<not> reorderRunning (ch_rx c) \<and> \<not> reorderJoinable c \<and>
     sdc_clear (sentDataCache c) = sentDataCache c \<and> map_option mt_clear (messageTracker c) = messageTracker c"

lemma clear_idem [simp]: "sdc_clear (sdc_clear x) = sdc_clear x" "mt_clear (mt_clear y) = mt_clear y"
  by (simp_all add: sdc_clear_def mt_clear_def comp_def)

lemma close_rest_other:
  assumes "\<not> opened c"
  obtains c' where "close_rest OtherCaller c = Inr c'" and "closed_state c'" and "connections c' = connections c"
    and "heap c' = heap c" and "sendThread c' = sendThread c" and "ioThread c' = ioThread c"
    and "disconnects c' = disconnects c" and "sendQueue c' = sendQueue c" and "resendQueue c' = resendQueue c"
  using assms
  by (cases "reorderJoinable c") (auto simp: close_rest_def closed_state_def Let_def option.map_comp comp_def)

lemma closed_state_close: "closed_state c \<Longrightarrow> vc_close OtherCaller c = Inr c"
  by (simp add: vc_close_def close_rest_def closed_state_def Let_def)

lemma close_completes:
  "\<exists>c'. vc_close OtherCaller c = Inr c' \<and> closed_state c' \<and> vc_close OtherCaller c' = Inr c' \<and>
     (opened c \<longrightarrow> sendThread c' = None \<and> ioThread c' = None \<and> aliveCount c' = 0 \<and>
        bq_cancelled (sendQueue c') \<and> bq_cancelled (resendQueue c'))"
proof (cases "opened c")
  case True
  let ?c0 = "c\<lparr>opened := False, sendQueue := bq_cancelWait (sendQueue c), resendQueue := bq_cancelWait (resendQueue c)\<rparr>"
  obtain c1 where c1: "close_threads OtherCaller ?c0 = Inr c1" "sendThread c1 = None" "ioThread c1 = None" "\<not> opened c1"
    "bq_cancelled (sendQueue c1)" "bq_cancelled (resendQueue c1)"
    by (rule close_threads_other [of ?c0]) (auto simp: bq_cancelWait_def)
  have "\<not> opened (disconnect_all c1)" using c1(4) by (simp add: disconnect_all_def)
  then obtain c' where c': "close_rest OtherCaller (disconnect_all c1) = Inr c'" "closed_state c'"
    "connections c' = connections (disconnect_all c1)" "heap c' = heap (disconnect_all c1)"
    "sendThread c' = sendThread (disconnect_all c1)" "ioThread c' = ioThread (disconnect_all c1)"
    "sendQueue c' = sendQueue (disconnect_all c1)" "resendQueue c' = resendQueue (disconnect_all c1)"
    by (rule close_rest_other)
  have "aliveCount c' = 0" using disconnect_all_dead [of c1] c'(3,4) by (simp add: aliveCount_def)
  moreover have "vc_close OtherCaller c = Inr c'" using True c1(1) c'(1) by (simp add: vc_close_def Let_def)
  ultimately show ?thesis using c' c1 closed_state_close [OF c'(2)] by (auto simp: disconnect_all_def)
next
  case False
  then obtain c' where c': "close_rest OtherCaller c = Inr c'" "closed_state c'" by (rule close_rest_other)
  have same: "c\<lparr>opened := False\<rparr> = c" using False by simp
  have "vc_close OtherCaller c = Inr c'" using False c'(1) by (simp add: vc_close_def Let_def same)
  then show ?thesis using False c'(2) closed_state_close [OF c'(2)] by blast
qed



lemma close_threads_disconnects: "close_threads who c = Inr c' \<Longrightarrow> disconnects c' = disconnects c"
  by (auto simp: close_threads_def and_then_eq_Inr split: option.splits)

lemma close_rest_disconnects: "close_rest who c = Inr c' \<Longrightarrow> disconnects c' = disconnects c"
  by (auto simp: close_rest_def and_then_eq_Inr Let_def split: if_splits)

text \<open>
  \<^verbatim>\<open>close\<close> never notifies the owner. It marks the channel closed before it disconnects the
  connections, so the disconnect callback of the channel, which removes it from the server's
  registry, does not run; a caller that relies on it keeps a closed channel registered.
\<close>

theorem close_does_not_notify:
  assumes "vc_close who c = Inr c'"
  shows "disconnects c' = disconnects c"
proof -
  obtain c1 where c1: "close_rest who c1 = Inr c'" "disconnects c1 = disconnects c"
    using assms close_threads_disconnects
    by (cases "opened c") (fastforce simp: vc_close_def and_then_eq_Inr Let_def disconnect_all_def)+
  then show ?thesis using close_rest_disconnects by metis
qed

theorem close_does_not_notify_witness:
  "\<exists>c'. vc_close OtherCaller (example_chan\<lparr>hasDisconnectCallback := True\<rparr>) = Inr c' \<and> disconnects c' = disconnects example_chan"
proof -
  obtain c' where c': "vc_close OtherCaller (example_chan\<lparr>hasDisconnectCallback := True\<rparr>) = Inr c'"
    using close_completes by blast
  from close_does_not_notify [OF c'] c' show ?thesis by auto
qed

text \<open>
  \<^verbatim>\<open>close\<close> must not be called from the channel's own threads. Called from the running send
  thread or IO thread of an open channel, or from the reorder thread (that is, from within the
  receive callback), it joins the calling thread: \<^verbatim>\<open>stop()\<close> avoids the self-join, but the following
  \<^verbatim>\<open>joinThread()\<close> and the join of the reorder thread do not.
\<close>

theorem close_from_own_thread:
  assumes "opened c" and "sendThread c = Some st" and "th_joinable (st_thr st)" and "ioThread c = Some io"
    and "th_joinable (io_thr io)" and "reorderJoinable c" and "who \<noteq> OtherCaller"
  shows "vc_close who c = Inl SelfJoin"
  using assms
  by (cases who) (simp_all add: vc_close_def close_threads_def close_rest_def joinThread_def thread_stop_def setRunning_def Let_def disconnect_all_def)

lemma example_chan_threads:
  obtains st io where "sendThread example_chan = Some st" and "th_joinable (st_thr st)"
    and "ioThread example_chan = Some io" and "th_joinable (io_thr io)" and "reorderJoinable example_chan"
  by (simp add: example_chan_def vc_open_def TcpVirtualChannel_init_def thread_start_def TcpVCIoThread_init_def
      TcpVCSendThread_init_def StopableThread_init_def Let_def)

theorem close_from_own_thread_witness: "vc_close ReorderCaller example_chan = Inl SelfJoin"
proof -
  obtain st io where "sendThread example_chan = Some st" "th_joinable (st_thr st)" "ioThread example_chan = Some io"
    "th_joinable (io_thr io)" "reorderJoinable example_chan" by (rule example_chan_threads)
  then show ?thesis by (intro close_from_own_thread [of example_chan st io]) simp_all
qed

section \<open>Replacing a connection\<close>

definition refs_ok :: "chan \<Rightarrow> bool" where
  "refs_ok c \<longleftrightarrow> (\<forall>r \<in> set (connections c). \<exists>i < length (heap c). r = Some i)"

lemma alive_append: "i < length h \<Longrightarrow> alive (h @ xs) (Some i) = alive h (Some i)"
  by (simp add: alive_def nth_append)

text \<open>
  Hot replacement. Replacing a valid slot makes exactly that slot alive: the dead slots are those
  before without it, the other connections are untouched, and both threads hold the new connection
  in that slot. An invalid slot changes nothing.
\<close>

theorem replace_revives_slot:
  assumes "refs_ok c" and "0 \<le> slot" and "nat slot < length (connections c)"
    and "ioThread c = Some io" and "length (io_connections io) = length (connections c)"
    and "sendThread c = Some st" and "length (st_connections st) = length (connections c)"
  shows "getDeadSlots (replaceConnection slot fd now c) = filter (\<lambda>i. i \<noteq> slot) (getDeadSlots c) \<and>
     refs_ok (replaceConnection slot fd now c) \<and>
     (\<forall>i < length (heap c). heap (replaceConnection slot fd now c) ! i = heap c ! i) \<and>
     (\<exists>r io' st'. connections (replaceConnection slot fd now c) ! nat slot = r \<and> alive (heap (replaceConnection slot fd now c)) r \<and>
        fd_of (heap (replaceConnection slot fd now c)) r = fd \<and>
        ioThread (replaceConnection slot fd now c) = Some io' \<and> io_connections io' ! nat slot = r \<and>
        sendThread (replaceConnection slot fd now c) = Some st' \<and> st_connections st' ! nat slot = r)"
proof -
  let ?c' = "replaceConnection slot fd now c" and ?n = "length (heap c)"
  have h: "heap ?c' = heap c @ [TcpConnection_init fd]" "connections ?c' = (connections c)[nat slot := Some ?n]"
    using assms(2,3) by (simp_all add: replaceConnection_def Let_def)
  have new: "alive (heap ?c') (Some ?n)" "fd_of (heap ?c') (Some ?n) = fd"
    by (simp_all add: h alive_def fd_of_def TcpConnection_init_def)
  have "alive (heap ?c') (connections ?c' ! i) \<longleftrightarrow> int i = slot \<or> alive (heap c) (connections c ! i)"
    if i: "i < length (connections c)" for i
  proof (cases "i = nat slot")
    case True
    then show ?thesis using new(1) assms(2,3) by (simp add: h(2))
  next
    case False
    moreover obtain k where "connections c ! i = Some k" "k < ?n"
      using assms(1) nth_mem [OF i] unfolding refs_ok_def by blast
    ultimately show ?thesis using assms(2) by (auto simp: h alive_append)
  qed
  then have "getDeadSlots ?c' = filter (\<lambda>i. i \<noteq> slot) (getDeadSlots c)"
    unfolding getDeadSlots_def filter_map filter_filter h(2) length_list_update
    by (intro arg_cong [of _ _ "map int"] filter_cong) (auto simp: h(2))
  moreover have "refs_ok ?c'" using assms(1) unfolding refs_ok_def h
    by (auto dest!: set_update_subset_insert [THEN subsetD])
  moreover have "\<exists>io'. ioThread ?c' = Some io' \<and> io_connections io' ! nat slot = Some ?n"
    "\<exists>st'. sendThread ?c' = Some st' \<and> st_connections st' ! nat slot = Some ?n"
    using assms by (simp_all add: replaceConnection_def io_replaceConnection_def st_replaceConnection_def Let_def)
  moreover have "connections ?c' ! nat slot = Some ?n" using assms(3) by (simp add: h(2))
  ultimately show ?thesis using new by (auto simp: h nth_append)
qed

theorem replace_revives_slot_witness:
  "getDeadSlots (replaceConnection 1 12 5 (disconnect_all example_chan)) = [0]"
proof -
  obtain st io where t: "sendThread example_chan = Some st" "ioThread example_chan = Some io"
    by (rule example_chan_threads)
  have len: "length (io_connections io) = 2" "length (st_connections st) = 2"
    using t by (auto simp: example_chan_def vc_open_def TcpVirtualChannel_init_def thread_start_def TcpVCIoThread_init_def
      TcpVCSendThread_init_def StopableThread_init_def Let_def)
  let ?c = "disconnect_all example_chan"
  have "refs_ok ?c" "getDeadSlots ?c = [0, 1]"
    by (simp_all add: refs_ok_def getDeadSlots_def disconnect_all_def alive_def disconnect_ref_def conn_upd_def upt_rec TcpConnection_init_def)
  then show ?thesis using replace_revives_slot [of ?c 1 io st 12 5] t len by (simp add: disconnect_all_def)
qed

end
