(* ===== verification/Channel_Resend.thy ===== *)
theory Channel_Resend
  imports Channel_Props
begin

text \<open>
  Resending on demand (\<^verbatim>\<open>processResendRequest\<close>, \<^verbatim>\<open>processMissingNotify\<close> and the default resend
  callback): a requested message that is still cached goes to the resend queue as the packet that was
  sent first, once per request and not again before the resend record expires.
\<close>

definition cached_packet :: "SentDataCache \<Rightarrow> u64 \<Rightarrow> bytes option" where
  "cached_packet sc m = (case sdc_find m sc of Inr r \<Rightarrow> r | Inl _ \<Rightarrow> None)"

text \<open>The state of an open channel that uses the default callback.\<close>

definition resend_ready :: "chan \<Rightarrow> bool" where
  "resend_ready c \<longleftrightarrow> opened c \<and> resendCallback c = DefaultCallback \<and> cache_ok (sentDataCache c) \<and>
     umap_ok (pendingResendIds c) \<and> (\<forall>t. messageTracker c = Some t \<longrightarrow> mt_invar t)"

lemma cached_packet_cases:
  assumes "cache_ok sc"
  obtains "cached_packet sc m = None" and "sdc_find m sc = Inr None"
  | d where "cached_packet sc m = Some (VCDataPacket_bytes m d)" and "sdc_find m sc = Inr (Some (VCDataPacket_bytes m d))"
    and "length d \<le> VC_MAX_DATA_PAYLOAD_SIZE"
  by (rule cache_ok_find [OF assms, of m]) (auto simp: cached_packet_def intro: that)

lemma mark_tracked_ready:
  assumes "resend_ready c"
  obtains ss where "mark_tracked nowMs m c = Inr (c\<lparr>socketStatuses := ss\<rparr>)" and "length ss = length (socketStatuses c)"
proof (cases "messageTracker c")
  case None
  then have "mark_tracked nowMs m c = Inr (c\<lparr>socketStatuses := socketStatuses c\<rparr>)" by (simp add: mark_tracked_def)
  then show ?thesis using that by blast
next
  case (Some t)
  then have "mt_invar t" using assms by (simp add: resend_ready_def)
  from getConnectionIndex_lookup [OF this] obtain i where i: "getConnectionIndex m t = Inr i" by blast
  let ?ss = "if 0 \<le> i \<and> nat i < length (socketStatuses c)
    then (socketStatuses c)[nat i := markDegraded nowMs (socketStatuses c ! nat i)] else socketStatuses c"
  have "mark_tracked nowMs m c = Inr (c\<lparr>socketStatuses := ?ss\<rparr>)" using Some i by (simp add: mark_tracked_def)
  then show ?thesis by (rule that) simp
qed

lemma resend_packet:
  "length d \<le> VC_MAX_DATA_PAYLOAD_SIZE \<Longrightarrow>
   VCDataPacket_bytes m (take (pkt_dataLength (VCDataPacket_bytes m d)) (pkt_data (VCDataPacket_bytes m d))) = VCDataPacket_bytes m d"
  by (simp add: VC_MAX_DATA_PAYLOAD_SIZE_def)

lemma missing_step_hit:
  assumes "resend_ready c" and "map_of (pendingResendIds c) m = None"
    and "cached_packet (sentDataCache c) m = Some p"
  obtains ss where "missing_step now nowMs m c = Inr (c\<lparr>socketStatuses := ss, resendQueue := bq_enqueue p (resendQueue c),
      pendingResendIds := AList.update m now (pendingResendIds c)\<rparr>)"
proof -
  obtain ss where ss: "mark_tracked nowMs m c = Inr (c\<lparr>socketStatuses := ss\<rparr>)" by (rule mark_tracked_ready [OF assms(1)])
  have "cache_ok (sentDataCache c)" using assms(1) by (simp add: resend_ready_def)
  then obtain d where d: "p = VCDataPacket_bytes m d" "sdc_find m (sentDataCache c) = Inr (Some (VCDataPacket_bytes m d))"
    "length d \<le> VC_MAX_DATA_PAYLOAD_SIZE"
    using assms(3) by (cases rule: cached_packet_cases [of _ m]) auto
  have "missing_step now nowMs m c = Inr (c\<lparr>socketStatuses := ss, resendQueue := bq_enqueue p (resendQueue c),
      pendingResendIds := AList.update m now (pendingResendIds c)\<rparr>)"
    using assms(1,2) d resend_packet [OF d(3), of m]
    by (simp add: missing_step_def ss call_resend_def resend_ready_def Let_def)
  then show ?thesis by (rule that)
qed

lemma missing_step_miss:
  assumes "resend_ready c" and "map_of (pendingResendIds c) m \<noteq> None \<or> cached_packet (sentDataCache c) m = None"
  obtains ss where "missing_step now nowMs m c = Inr (c\<lparr>socketStatuses := ss\<rparr>)"
proof -
  obtain ss where ss: "mark_tracked nowMs m c = Inr (c\<lparr>socketStatuses := ss\<rparr>)" by (rule mark_tracked_ready [OF assms(1)])
  have "cache_ok (sentDataCache c)" using assms(1) by (simp add: resend_ready_def)
  then have "missing_step now nowMs m c = Inr (c\<lparr>socketStatuses := ss\<rparr>)"
    using assms(2) by (cases rule: cached_packet_cases [of _ m]) (auto simp: missing_step_def ss)
  then show ?thesis by (rule that)
qed

text \<open>What one pass over a list of missing ids does.\<close>

definition resend_post :: "time \<Rightarrow> u64 list \<Rightarrow> chan \<Rightarrow> u64 list \<Rightarrow> chan \<Rightarrow> bool" where
  "resend_post now missing c ids c' \<longleftrightarrow> resend_ready c' \<and> sentDataCache c' = sentDataCache c \<and> distinct ids \<and>
     set ids = {m \<in> set missing. cached_packet (sentDataCache c) m \<noteq> None \<and> map_of (pendingResendIds c) m = None} \<and>
     bq_queue (resendQueue c') = bq_queue (resendQueue c) @ map (\<lambda>m. the (cached_packet (sentDataCache c) m)) ids \<and>
     map_of (pendingResendIds c') = (\<lambda>k. if k \<in> set ids then Some now else map_of (pendingResendIds c) k)"

lemma missing_loop_post:
  assumes "resend_ready c"
  shows "\<exists>c' ids. missing_loop now nowMs missing c = Inr c' \<and> resend_post now missing c ids c'"
  using assms
proof (induction missing arbitrary: c)
  case Nil
  then show ?case by (auto simp: resend_post_def)
next
  case (Cons m missing)
  show ?case
  proof (cases "map_of (pendingResendIds c) m = None \<and> cached_packet (sentDataCache c) m \<noteq> None")
    case True
    then obtain p where p: "cached_packet (sentDataCache c) m = Some p" by blast
    obtain ss where step: "missing_step now nowMs m c = Inr (c\<lparr>socketStatuses := ss, resendQueue := bq_enqueue p (resendQueue c),
        pendingResendIds := AList.update m now (pendingResendIds c)\<rparr>)" (is "_ = Inr ?c1")
      using missing_step_hit [OF Cons.prems _ p] True by blast
    have "resend_ready ?c1" using Cons.prems by (simp add: resend_ready_def distinct_update)
    then obtain c' ids where c': "missing_loop now nowMs missing ?c1 = Inr c'" "resend_post now missing ?c1 ids c'"
      using Cons.IH by blast
    have "resend_post now (m # missing) c (m # ids) c'"
      using c'(2) True p unfolding resend_post_def by (auto simp: fun_eq_iff)
    with step c'(1) show ?thesis by auto
  next
    case False
    then obtain ss where step: "missing_step now nowMs m c = Inr (c\<lparr>socketStatuses := ss\<rparr>)" (is "_ = Inr ?c1")
      using missing_step_miss [OF Cons.prems] by blast
    have "resend_ready ?c1" using Cons.prems by (simp add: resend_ready_def)
    then obtain c' ids where c': "missing_loop now nowMs missing ?c1 = Inr c'" "resend_post now missing ?c1 ids c'"
      using Cons.IH by blast
    have "resend_post now (m # missing) c ids c'"
      using c'(2) False unfolding resend_post_def by auto
    with step c'(1) show ?thesis by auto
  qed
qed

lemma map_of_filter_distinct:
  "distinct (map fst xs) \<Longrightarrow> map_of (filter (\<lambda>(k, v). P k v) xs) k = (case map_of xs k of None \<Rightarrow> None | Some v \<Rightarrow> if P k v then Some v else None)"
  by (induction xs) (auto simp: map_of_eq_None_iff split: option.splits)

lemma map_of_expire:
  "umap_ok pending \<Longrightarrow> map_of (expire_pending now missing pending) m =
     (case map_of pending m of None \<Rightarrow> None | Some t \<Rightarrow> if m \<in> set missing \<and> now - t < pendingResendTtl then Some t else None)"
  unfolding expire_pending_def by (subst map_of_filter_distinct) (auto split: option.split)

lemma umap_ok_filter: "umap_ok xs \<Longrightarrow> umap_ok (filter P xs)"
  by (induction xs) auto

text \<open>An id that was put on the resend queue less than the time to live ago.\<close>

definition resend_pending :: "time \<Rightarrow> chan \<Rightarrow> u64 \<Rightarrow> bool" where
  "resend_pending now c m \<longleftrightarrow> (\<exists>t. map_of (pendingResendIds c) m = Some t \<and> now - t < pendingResendTtl)"

definition notify_post :: "time \<Rightarrow> u64 list \<Rightarrow> chan \<Rightarrow> u64 list \<Rightarrow> chan \<Rightarrow> bool" where
  "notify_post now missing c ids c' \<longleftrightarrow> resend_ready c' \<and> sentDataCache c' = sentDataCache c \<and> distinct ids \<and>
     set ids = {m \<in> set missing. cached_packet (sentDataCache c) m \<noteq> None \<and> \<not> resend_pending now c m} \<and>
     bq_queue (resendQueue c') = bq_queue (resendQueue c) @ map (\<lambda>m. the (cached_packet (sentDataCache c) m)) ids \<and>
     (\<forall>m \<in> set ids. map_of (pendingResendIds c') m = Some now)"

lemma processMissingNotify_post:
  assumes "resend_ready c"
  shows "\<exists>c' ids. processMissingNotify now nowMs missing c = Inr c' \<and> notify_post now missing c ids c'"
proof -
  let ?c1 = "c\<lparr>pendingResendIds := expire_pending now missing (pendingResendIds c)\<rparr>"
  have ok: "umap_ok (pendingResendIds c)" using assms by (simp add: resend_ready_def)
  have "resend_ready ?c1" using assms by (simp add: resend_ready_def expire_pending_def umap_ok_filter)
  then obtain c' ids where c': "missing_loop now nowMs missing ?c1 = Inr c'" "resend_post now missing ?c1 ids c'"
    using missing_loop_post by blast
  have pend: "map_of (pendingResendIds ?c1) m = None \<longleftrightarrow> \<not> resend_pending now c m" if "m \<in> set missing" for m
    using that by (auto simp: map_of_expire [OF ok] resend_pending_def split: option.splits)
  have "set ids = {m \<in> set missing. cached_packet (sentDataCache c) m \<noteq> None \<and> \<not> resend_pending now c m}"
    using c'(2) pend unfolding resend_post_def by auto
  moreover have "\<forall>m \<in> set ids. map_of (pendingResendIds c') m = Some now"
    using c'(2) unfolding resend_post_def by (elim conjE) (simp only: if_True Ball_def, simp)
  ultimately have "notify_post now missing c ids c'"
    using c'(2) unfolding resend_post_def notify_post_def by simp
  then show ?thesis using c'(1) by (auto simp: processMissingNotify_def)
qed

text \<open>
  C19: a missing notification is answered with each missing message that is still cached and was not
  resent within the last two seconds: it is appended to the resend queue exactly once, even if the
  notification names it several times, and as the same octets that were queued when it was sent.
  Nothing else is queued and the handler does not trap.
\<close>

theorem missing_notify_answered:
  assumes "resend_ready c"
  shows "\<exists>c' ids. processMissingNotify now nowMs missing c = Inr c' \<and> distinct ids \<and>
     set ids = {m \<in> set missing. cached_packet (sentDataCache c) m \<noteq> None \<and> \<not> resend_pending now c m} \<and>
     bq_queue (resendQueue c') = bq_queue (resendQueue c) @ map (\<lambda>m. the (cached_packet (sentDataCache c) m)) ids"
proof -
  obtain c' ids where "processMissingNotify now nowMs missing c = Inr c'" "notify_post now missing c ids c'"
    using processMissingNotify_post [OF assms] by blast
  then show ?thesis unfolding notify_post_def by (intro exI [of _ c'] exI [of _ ids]) simp
qed

text \<open>A channel that has sent one message.\<close>

definition sent_chan :: chan where
  "sent_chan = (case vc_send (Some [9]) example_chan of Inr c \<Rightarrow> c | Inl _ \<Rightarrow> example_chan)"

lemma sent_chan_ready: "resend_ready sent_chan" and sent_chan_cached: "cached_packet (sentDataCache sent_chan) 0 \<noteq> None"
  and sent_chan_pending: "pendingResendIds sent_chan = []" and sent_chan_queue: "bq_queue (resendQueue sent_chan) = []"
proof -
  have "sendable [9] example_chan"
    by (simp add: sendable_def VC_MAX_DATA_PAYLOAD_SIZE_def bq_approxSize_def BlockingQueue_init_def)
  then obtain c' sc' where s: "vc_send (Some [9]) example_chan = Inr c'" "cache_ok sc'"
    "sdc_insert (lastSendMessageId example_chan) (VCDataPacket_bytes (lastSendMessageId example_chan) [9]) (sentDataCache example_chan) = Inr sc'"
    "c' = example_chan\<lparr>lastSendMessageId := lastSendMessageId example_chan + 1, sentDataCache := sc',
      sendQueue := bq_enqueue (VCDataPacket_bytes (lastSendMessageId example_chan) [9]) (sendQueue example_chan)\<rparr>"
    by (rule vc_send_accept) simp_all
  then have eq: "sent_chan = c'" by (simp add: sent_chan_def)
  show "resend_ready sent_chan" unfolding eq using s(2) by (simp add: s(4) resend_ready_def)
  show "pendingResendIds sent_chan = []" "bq_queue (resendQueue sent_chan) = []"
    unfolding eq by (simp_all add: s(4) BlockingQueue_init_def)
  have sc: "sentDataCache example_chan = SentDataCache_init 2 128"
    by (simp add: example_chan_def vc_open_def TcpVirtualChannel_init_def thread_start_def TcpVCIoThread_init_def
      TcpVCSendThread_init_def StopableThread_init_def Let_def numeral_2_eq_2)
  have "sdc_find 0 sc' = Inr (Some (VCDataPacket_bytes 0 [9]))"
    by (rule sdc_find_insert_same [of 0 _ "sentDataCache example_chan"])
      (use s(3) in \<open>simp_all add: sc SentDataCache_init_def empty_shard_def\<close>)
  then show "cached_packet (sentDataCache sent_chan) 0 \<noteq> None" unfolding eq by (simp add: s(4) cached_packet_def)
qed

theorem missing_notify_answered_witness:
  "\<exists>c'. processMissingNotify 5 0 [0, 0, 7] sent_chan = Inr c' \<and> 0 < length (bq_queue (resendQueue c'))"
proof -
  obtain c' ids where c': "processMissingNotify 5 0 [0, 0, 7] sent_chan = Inr c'"
    "set ids = {m \<in> set [0, 0, 7]. cached_packet (sentDataCache sent_chan) m \<noteq> None \<and> \<not> resend_pending 5 sent_chan m}"
    "bq_queue (resendQueue c') = bq_queue (resendQueue sent_chan) @ map (\<lambda>m. the (cached_packet (sentDataCache sent_chan) m)) ids"
    using missing_notify_answered [OF sent_chan_ready, of 5 0 "[0, 0, 7]"] by blast
  have "0 \<in> set ids" unfolding c'(2) using sent_chan_cached by (simp add: resend_pending_def sent_chan_pending)
  then show ?thesis using c'(1,3) by (cases ids) auto
qed

text \<open>
  Repeated notifications. After a first notification, the same notification within two seconds
  queues nothing; once two seconds have passed, every missing message that is cached is queued again.
\<close>

theorem resend_time_to_live:
  assumes "resend_ready c" and "pendingResendIds c = []" and "processMissingNotify t1 u1 missing c = Inr c1"
  shows "\<exists>c2 ids. processMissingNotify t2 u2 missing c1 = Inr c2 \<and> distinct ids \<and>
     set ids = (if t2 - t1 < pendingResendTtl then {} else {m \<in> set missing. cached_packet (sentDataCache c) m \<noteq> None}) \<and>
     bq_queue (resendQueue c2) = bq_queue (resendQueue c1) @ map (\<lambda>m. the (cached_packet (sentDataCache c) m)) ids"
proof -
  let ?cached = "{m \<in> set missing. cached_packet (sentDataCache c) m \<noteq> None}"
  obtain ids1 where p: "notify_post t1 missing c ids1 c1"
    using processMissingNotify_post [OF assms(1), of t1 u1 missing] assms(3) by auto
  have "set ids1 = ?cached" using p by (simp add: notify_post_def resend_pending_def assms(2))
  then have p1: "map_of (pendingResendIds c1) m = Some t1" if "m \<in> ?cached" for m
    using p that unfolding notify_post_def by blast
  have r1: "resend_ready c1" "sentDataCache c1 = sentDataCache c" using p by (simp_all add: notify_post_def)
  have eq: "{m \<in> set missing. cached_packet (sentDataCache c) m \<noteq> None \<and> \<not> resend_pending t2 c1 m} =
      (if t2 - t1 < pendingResendTtl then {} else ?cached)"
  proof (cases "t2 - t1 < pendingResendTtl")
    case True
    then have "resend_pending t2 c1 m" if "m \<in> ?cached" for m using p1 [OF that] by (simp add: resend_pending_def)
    then have "{m \<in> set missing. cached_packet (sentDataCache c) m \<noteq> None \<and> \<not> resend_pending t2 c1 m} = {}" by blast
    with True show ?thesis by simp
  next
    case False
    then have "\<not> resend_pending t2 c1 m" if "m \<in> ?cached" for m using p1 [OF that] by (simp add: resend_pending_def)
    then have "{m \<in> set missing. cached_packet (sentDataCache c) m \<noteq> None \<and> \<not> resend_pending t2 c1 m} = ?cached" by blast
    with False show ?thesis by simp
  qed
  obtain c2 ids where "processMissingNotify t2 u2 missing c1 = Inr c2" "notify_post t2 missing c1 ids c2"
    using processMissingNotify_post [OF r1(1)] by blast
  then show ?thesis unfolding notify_post_def r1(2) eq by (intro exI [of _ c2] exI [of _ ids]) simp
qed

theorem resend_time_to_live_witness:
  "\<exists>c1 c2. processMissingNotify 5 0 [0] sent_chan = Inr c1 \<and> processMissingNotify 9 0 [0] c1 = Inr c2 \<and>
     bq_queue (resendQueue c2) = bq_queue (resendQueue c1)"
proof -
  obtain c1 where c1: "processMissingNotify 5 0 [0] sent_chan = Inr c1"
    using processMissingNotify_post [OF sent_chan_ready, of 5 0 "[0]"] by blast
  show ?thesis
    using resend_time_to_live [OF sent_chan_ready sent_chan_pending c1, of 9 0] c1
    by (auto simp: pendingResendTtl_def ms_def)
qed

text \<open>
  A resend request for a cached message queues that message's packet once; a request for a message
  that is no longer cached queues nothing.
\<close>

theorem resend_request_answered:
  assumes "resend_ready c"
  shows "\<exists>c'. processResendRequest nowMs m c = Inr c' \<and>
     bq_queue (resendQueue c') = bq_queue (resendQueue c) @
       (case cached_packet (sentDataCache c) m of None \<Rightarrow> [] | Some p \<Rightarrow> [p])"
proof -
  obtain ss where ss: "mark_tracked nowMs m c = Inr (c\<lparr>socketStatuses := ss\<rparr>)" by (rule mark_tracked_ready [OF assms])
  have "cache_ok (sentDataCache c)" using assms by (simp add: resend_ready_def)
  then show ?thesis
  proof (cases rule: cached_packet_cases [of _ m])
    case 1
    then show ?thesis by (simp add: processResendRequest_def ss)
  next
    case (2 d)
    then show ?thesis using assms resend_packet [OF 2(3), of m]
      by (simp add: processResendRequest_def ss call_resend_def resend_ready_def)
  qed
qed

theorem resend_request_answered_witness:
  "\<exists>c'. processResendRequest 3 0 sent_chan = Inr c' \<and> bq_queue (resendQueue c') \<noteq> []"
  using resend_request_answered [OF sent_chan_ready, of 3 0] sent_chan_cached by auto

end
