(* ===== verification/Send_Thread.thy ===== *)
theory Send_Thread
  imports Channel
begin

text \<open>
  \<^verbatim>\<open>TcpVCSendThread\<close> (\<^verbatim>\<open>src/src/common/TcpVCSendThread.h\<close>, \<^verbatim>\<open>.cpp\<close>): rating of the connections, the
  order in which they are tried, writing one packet completely on one connection, the resend path with
  its retry budget, and one iteration of \<^verbatim>\<open>run()\<close>. Answers of the kernel, clock readings and what
  other threads do to the connection in the meantime are inputs.
\<close>

section \<open>Constants\<close>

definition TCP_RUNTIME_REFRESH_MS :: int where "TCP_RUNTIME_REFRESH_MS = 250"
definition MAX_RESEND_RETRIES :: nat where "MAX_RESEND_RETRIES = 6"
definition MAX_RESEND_BATCH :: nat where "MAX_RESEND_BATCH = 8"
definition MAX_RESEND_TRACKED :: nat where "MAX_RESEND_TRACKED = 2000"
definition PARTIAL_SEND_BUDGET_MS :: int where "PARTIAL_SEND_BUDGET_MS = 3000"

section \<open>Rating a connection\<close>

record rate_env =
  re_now :: time
  re_now2 :: time
  re_sample :: tcp_sample

definition refreshConnRuntimeInfo :: "rate_env \<Rightarrow> nat \<Rightarrow> conn_ref list \<Rightarrow> send_thread \<times> conn_heap \<Rightarrow> send_thread \<times> conn_heap" where
  "refreshConnRuntimeInfo re idx conns = (\<lambda>(t, h).
     if idx \<ge> length conns then (t, h)
     else if \<not> alive h (conns ! idx) then (t, h)
     else if re_now re - st_lastRuntimeRefresh t ! idx < ms TCP_RUNTIME_REFRESH_MS then (t, h)
     else (t\<lparr>st_lastRuntimeRefresh := (st_lastRuntimeRefresh t)[idx := re_now re]\<rparr>,
           conn_upd (\<lambda>c. snd (refreshRuntimeInfoIfStale TCP_RUNTIME_REFRESH_MS (re_now2 re) (re_sample re) c)) (conns ! idx) h))"

definition in_i32 :: "int \<Rightarrow> bool" where
  "in_i32 x \<longleftrightarrow> - (2 ^ 31) \<le> x \<and> x < 2 ^ 31"

definition checked_i32 :: "int \<Rightarrow> int outcome" where
  "checked_i32 x = (if in_i32 x then Inr x else Inl SignedOverflow)"

text \<open>
  The unsigned quotients fit an \<^verbatim>\<open>int\<close>. Subtracting \<open>timeoutEpisodes * 200\<close> is unsigned and wraps;
  the multiplication of the failure count is signed and traps on overflow.
\<close>

definition rate_score :: "RuntimeInfo \<Rightarrow> u64 option \<Rightarrow> int outcome" where
  "rate_score info failCount =
     (let score = 10000 + int (unat (inf_congestionWindowBytes info) div 200)
                  - int (unat (inf_smoothedRttUs info) div 200) - int (unat (inf_bytesInFlight info) div 200);
          score2 = wrap_i32 (score - int (unat (inf_timeoutEpisodes info * 200)))
      in and_then
           (case failCount of
              None \<Rightarrow> Inr score2
            | Some fc \<Rightarrow> and_then (checked_i32 (wrap_i32 (int (unat fc)) * 200)) (\<lambda>p. checked_i32 (score2 - p)))
           (\<lambda>score3. Inr (if score3 > 0 then score3 else 0)))"

definition rateConnection :: "rate_env \<Rightarrow> nat \<Rightarrow> conn_ref list \<Rightarrow> ConnSendStats list \<Rightarrow> send_thread \<times> conn_heap \<Rightarrow>
    (int \<times> send_thread \<times> conn_heap) outcome" where
  "rateConnection re idx conns stats = (\<lambda>(t, h).
     if idx \<ge> length conns then Inr (-1, t, h)
     else if \<not> alive h (conns ! idx) then Inr (-1, t, h)
     else let (t1, h1) = refreshConnRuntimeInfo re idx conns (t, h);
              info = (case conns ! idx of Some i \<Rightarrow> lastRuntimeInfo (h1 ! i) | None \<Rightarrow> RuntimeInfo_init)
          in if inf_isInExponentialBackoff info then Inr (-1, t1, h1)
             else and_then (rate_score info (if idx < length stats then Some (st_reenqueueCount (stats ! idx)) else None))
                    (\<lambda>score. Inr (score, t1, h1)))"

fun rate_all :: "(nat \<Rightarrow> rate_env) \<Rightarrow> nat list \<Rightarrow> conn_ref list \<Rightarrow> ConnSendStats list \<Rightarrow> send_thread \<times> conn_heap \<Rightarrow>
    (int list \<times> send_thread \<times> conn_heap) outcome" where
  "rate_all re [] conns stats th = Inr ([], th)"
| "rate_all re (i # is) conns stats th =
     and_then (rateConnection (re i) i conns stats th) (\<lambda>(score, th1).
     and_then (rate_all re is conns stats th1) (\<lambda>(scores, th2). Inr (score # scores, th2)))"

section \<open>The order of attempts\<close>

definition best_score :: "int list \<Rightarrow> int" where
  "best_score scores = fold max scores (-1)"

definition connection_order :: "int list \<Rightarrow> nat \<Rightarrow> nat list" where
  "connection_order scores roundRobinStart =
     (let n = length scores; bestScore = best_score scores;
          uniformScores = list_all (\<lambda>s. s = hd scores) scores;
          order = (if uniformScores then [0..<n] else sort_key (\<lambda>i. - (scores ! i)) [0..<n]);
          rotateCount = (if bestScore \<ge> 0 then length (takeWhile (\<lambda>i. scores ! i = bestScore) order) else n)
      in if rotateCount > 1
         then rotate (roundRobinStart mod rotateCount) (take rotateCount order) @ drop rotateCount order
         else order)"

section \<open>Writing a packet on one connection\<close>

text \<open>
  One round of the loop that completes a partial send: whether the connection and the thread are
  still up, whether the socket became writable, the kernel's answer and the clock.
\<close>

record turn =
  t_connected :: bool
  t_running :: bool
  t_writable :: bool
  t_answer :: "errno + nat"
  t_now :: time

text \<open>\<open>None\<close>: the loop still runs when the inputs end.\<close>

fun flush_rest :: "nat \<Rightarrow> time \<Rightarrow> nat \<Rightarrow> turn list \<Rightarrow> (nat \<times> bool) option" where
  "flush_rest sz partialStart totalSent [] = (if totalSent < sz then None else Some (totalSent, False))"
| "flush_rest sz partialStart totalSent (t # ts) =
     (if totalSent < sz
      then if \<not> t_connected t \<or> \<not> t_running t then Some (totalSent, False)
           else let stuck = (ns_to_ms (t_now t - partialStart) \<ge> PARTIAL_SEND_BUDGET_MS)
                in if \<not> t_writable t
                   then if stuck then Some (totalSent, False) else flush_rest sz partialStart totalSent ts
                   else let r = SendTcpDirect (t_answer t)
                        in if r > 0 then flush_rest sz partialStart (totalSent + nat r) ts
                           else if r = SOCKET_ERROR_WOULD_BLOCK \<or> r = SOCKET_ERROR_INTERRUPTED
                           then if stuck then Some (totalSent, False) else flush_rest sz partialStart totalSent ts
                           else Some (totalSent, True)
      else Some (totalSent, False))"

record attempt =
  at_startMs :: int
  at_first :: "errno + nat"
  at_endMs :: int
  at_partialStart :: time
  at_turns :: "turn list"
  at_doneMs :: int

datatype send_result = SentWhole | SentPart nat bool | NotSent int

text \<open>A closed connection has the descriptor -1, on which \<^verbatim>\<open>send\<close> fails (\<^verbatim>\<open>EBADF\<close>).\<close>

definition first_answer :: "attempt \<Rightarrow> TcpConnection \<Rightarrow> errno + nat" where
  "first_answer a c = (if socketFd c = -1 then Inl EOTHER else at_first a)"

definition send_packet_on :: "attempt \<Rightarrow> bytes \<Rightarrow> TcpConnection \<Rightarrow> (send_result \<times> TcpConnection) option" where
  "send_packet_on a d c =
     (let n = SendTcpDirect (first_answer a c)
      in if n > 0
         then case flush_rest (length d) (at_partialStart a) (nat n) (at_turns a) of
                None \<Rightarrow> None
              | Some (totalSent, hardError) \<Rightarrow>
                  let c1 = c\<lparr>wire := wire c @ take totalSent d\<rparr>
                  in if totalSent < length d then Some (SentPart totalSent hardError, snd (disconnect c1))
                     else Some (SentWhole, c1)
         else Some (NotSent n, if n = SOCKET_ERROR_CLOSED then snd (disconnect c) else c))"

section \<open>Sending a data packet\<close>

definition bump_reenqueue :: "nat \<Rightarrow> chan \<Rightarrow> chan" where
  "bump_reenqueue idx c =
     (if idx < length (connSendStats c)
      then c\<lparr>connSendStats := (connSendStats c)[idx := (connSendStats c ! idx)
               \<lparr>st_reenqueueCount := st_reenqueueCount (connSendStats c ! idx) + 1\<rparr>]\<rparr>
      else c)"

definition note_sent :: "nat \<Rightarrow> u64 \<Rightarrow> int \<Rightarrow> chan \<Rightarrow> chan" where
  "note_sent idx messageId nowMs c =
     (if idx < length (connSendStats c)
      then c\<lparr>connSendStats := (connSendStats c)[idx := (connSendStats c ! idx)
               \<lparr>st_lastTxMessageId := messageId, st_lastTxTimeMs := nowMs, st_txCount := st_txCount (connSendStats c ! idx) + 1,
                st_valid := True, st_reenqueueCount := 0\<rparr>]\<rparr>
      else c)"

definition send_attempt :: "attempt \<Rightarrow> bytes \<Rightarrow> nat \<Rightarrow> conn_ref \<Rightarrow> chan \<Rightarrow> (bool \<times> chan) outcome option" where
  "send_attempt a d idx r c =
     (case r of
        None \<Rightarrow> Some (Inl NullPointer)
      | Some i \<Rightarrow>
          let messageId = pkt_messageId d;
              marked = diagMarkSendEnd messageId (at_endMs a) (diagMarkSendStart messageId (at_startMs a) (heap c ! i))
          in case send_packet_on a d marked of
               None \<Rightarrow> None
             | Some (SentWhole, conn) \<Rightarrow>
                 let c1 = c\<lparr>heap := (heap c)[i := conn]\<rparr>
                 in Some (and_then
                      (case messageTracker c1 of
                         None \<Rightarrow> Inr c1
                       | Some t \<Rightarrow> and_then (recordMessage messageId (int idx) t) (\<lambda>t'. Inr (c1\<lparr>messageTracker := Some t'\<rparr>)))
                      (\<lambda>c2. Inr (True, note_sent idx messageId (at_doneMs a) c2)))
             | Some (SentPart k hard, conn) \<Rightarrow>
                 Some (Inr (False, bump_reenqueue idx (disconnectCB (c\<lparr>heap := (heap c)[i := conn]\<rparr>))))
             | Some (NotSent n, conn) \<Rightarrow>
                 let c1 = bump_reenqueue idx (c\<lparr>heap := (heap c)[i := conn]\<rparr>)
                 in Some (Inr (False, if n = SOCKET_ERROR_CLOSED then disconnectCB c1 else c1)))"

text \<open>Candidates that are passed over: unconnected ones in the fallback, otherwise those rated -1.\<close>

definition skip_conn :: "bool \<Rightarrow> conn_heap \<Rightarrow> conn_ref \<Rightarrow> int \<Rightarrow> bool" where
  "skip_conn anyEligible h r score = (if \<not> anyEligible then \<not> alive h r else score < 0)"

fun send_ranks :: "(nat \<Rightarrow> attempt) \<Rightarrow> bytes \<Rightarrow> int list \<Rightarrow> bool \<Rightarrow> conn_ref list \<Rightarrow> nat list \<Rightarrow> chan \<Rightarrow>
    (bool \<times> chan) outcome option" where
  "send_ranks env d scores anyEligible snap [] c = Some (Inr (False, c))"
| "send_ranks env d scores anyEligible snap (idx # order) c =
     (if skip_conn anyEligible (heap c) (snap ! idx) (scores ! idx)
      then send_ranks env d scores anyEligible snap order c
      else case send_attempt (env idx) d idx (snap ! idx) c of
             None \<Rightarrow> None
           | Some (Inl e) \<Rightarrow> Some (Inl e)
           | Some (Inr (sent, c')) \<Rightarrow>
               if sent then Some (Inr (True, c')) else send_ranks env d scores anyEligible snap order c')"

section \<open>The resend connections\<close>

definition upd_st :: "(send_thread \<Rightarrow> send_thread) \<Rightarrow> chan \<Rightarrow> chan" where
  "upd_st f c = c\<lparr>sendThread := map_option f (sendThread c)\<rparr>"

definition refresh_in :: "rate_env \<Rightarrow> nat \<Rightarrow> conn_ref list \<Rightarrow> chan \<Rightarrow> chan" where
  "refresh_in re idx conns c =
     (case sendThread c of
        None \<Rightarrow> c
      | Some t \<Rightarrow> let (t', h') = refreshConnRuntimeInfo re idx conns (t, heap c) in c\<lparr>sendThread := Some t', heap := h'\<rparr>)"

definition backoff :: "conn_heap \<Rightarrow> conn_ref \<Rightarrow> bool" where
  "backoff h r = (case r of None \<Rightarrow> False | Some i \<Rightarrow> inf_isInExponentialBackoff (lastRuntimeInfo (h ! i)))"

text \<open>The loop over the attempts; the result says whether the packet was sent and how many connections were usable.\<close>

fun resend_attempts :: "(nat \<Rightarrow> rate_env) \<Rightarrow> (nat \<Rightarrow> attempt) \<Rightarrow> bytes \<Rightarrow> conn_ref list \<Rightarrow> nat \<Rightarrow> nat \<Rightarrow> nat list \<Rightarrow> nat \<Rightarrow> chan \<Rightarrow>
    (bool \<times> nat \<times> chan) option" where
  "resend_attempts re env d conns resendCount rr [] aliveN c = Some (False, aliveN, c)"
| "resend_attempts re env d conns resendCount rr (att # atts) aliveN c =
     (let idx = VC_FIRST_RESEND_CONN_INDEX + (rr + att) mod resendCount
      in case conns ! idx of
           None \<Rightarrow> resend_attempts re env d conns resendCount rr atts aliveN c
         | Some i \<Rightarrow>
             if \<not> alive (heap c) (Some i) then resend_attempts re env d conns resendCount rr atts aliveN c
             else let c1 = refresh_in (re idx) idx conns c
                  in if backoff (heap c1) (Some i) then resend_attempts re env d conns resendCount rr atts aliveN c1
                     else case send_packet_on (env idx) d (heap c1 ! i) of
                            None \<Rightarrow> None
                          | Some (SentWhole, conn) \<Rightarrow> Some (True, Suc aliveN, c1\<lparr>heap := (heap c1)[i := conn]\<rparr>)
                          | Some (SentPart k hard, conn) \<Rightarrow>
                              resend_attempts re env d conns resendCount rr atts (Suc aliveN)
                                (disconnectCB (c1\<lparr>heap := (heap c1)[i := conn]\<rparr>))
                          | Some (NotSent n, conn) \<Rightarrow>
                              resend_attempts re env d conns resendCount rr atts (Suc aliveN)
                                (let c2 = c1\<lparr>heap := (heap c1)[i := conn]\<rparr>
                                 in if n = SOCKET_ERROR_CLOSED then disconnectCB c2 else c2))"

definition retry_count :: "u64 \<Rightarrow> send_thread \<Rightarrow> u8" where
  "retry_count m t = (case map_of (st_resendRetryCount t) m of None \<Rightarrow> 0 | Some k \<Rightarrow> k)"

text \<open>What happens to a packet that no resend connection took.\<close>

definition resend_failed :: "bytes \<Rightarrow> nat \<Rightarrow> chan \<Rightarrow> chan" where
  "resend_failed d aliveN c =
     (let m = pkt_messageId d; retryCount = (case sendThread c of None \<Rightarrow> 0 | Some t \<Rightarrow> retry_count m t);
          c1 = upd_st (\<lambda>t. t\<lparr>st_resendRetryCount := AList.update m retryCount (st_resendRetryCount t)\<rparr>) c;
          countThisRetry = (aliveN > 0)
      in if \<not> countThisRetry \<or> unat retryCount < MAX_RESEND_RETRIES
         then let c2 = (if countThisRetry
                        then upd_st (\<lambda>t. t\<lparr>st_resendRetryCount := AList.update m (retryCount + 1) (st_resendRetryCount t)\<rparr>) c1
                        else c1)
              in c2\<lparr>resendQueue := bq_enqueue d (resendQueue c2)\<rparr>
         else upd_st (\<lambda>t. t\<lparr>st_resendRetryCount := AList.delete m (st_resendRetryCount t)\<rparr>) c1)"

definition sendOnResendConn :: "(nat \<Rightarrow> rate_env) \<Rightarrow> (nat \<Rightarrow> attempt) \<Rightarrow> bytes \<Rightarrow> conn_ref list \<Rightarrow> chan \<Rightarrow> chan option" where
  "sendOnResendConn re env d conns c =
     (if length conns \<le> VC_FIRST_RESEND_CONN_INDEX then Some c
      else let resendCount = length conns - VC_FIRST_RESEND_CONN_INDEX;
               rr = (case sendThread c of None \<Rightarrow> 0 | Some t \<Rightarrow> st_resendRoundRobin t);
               next_rr = upd_st (\<lambda>t. t\<lparr>st_resendRoundRobin := (st_resendRoundRobin t + 1) mod resendCount\<rparr>)
           in case resend_attempts re env d conns resendCount rr [0..<resendCount] 0 c of
                None \<Rightarrow> None
              | Some (True, aliveN, c1) \<Rightarrow>
                  Some (upd_st (\<lambda>t. t\<lparr>st_resendRetryCount := AList.delete (pkt_messageId d) (st_resendRetryCount t)\<rparr>) (next_rr c1))
              | Some (False, aliveN, c1) \<Rightarrow> Some (resend_failed d aliveN (next_rr c1)))"

section \<open>One iteration of the thread\<close>

definition any_resend_alive :: "conn_heap \<Rightarrow> conn_ref list \<Rightarrow> bool" where
  "any_resend_alive h conns \<longleftrightarrow> list_ex (alive h) (drop VC_FIRST_RESEND_CONN_INDEX conns)"

text \<open>The inputs of an iteration: for the batch of resends, for the rating and for the data packet.\<close>

record send_env =
  se_resend_rate :: "nat \<Rightarrow> nat \<Rightarrow> rate_env"
  se_resend :: "nat \<Rightarrow> nat \<Rightarrow> attempt"
  se_rate :: "nat \<Rightarrow> rate_env"
  se_data :: "nat \<Rightarrow> attempt"

fun resend_batch :: "nat \<Rightarrow> nat \<Rightarrow> send_env \<Rightarrow> chan \<Rightarrow> chan option" where
  "resend_batch 0 k e c = Some c"
| "resend_batch (Suc n) k e c =
     (case bq_tryDequeue (resendQueue c) of
        (None, q) \<Rightarrow> Some c
      | (Some d, q) \<Rightarrow>
          (case sendOnResendConn (se_resend_rate e k) (se_resend e k) d
                  (case sendThread c of None \<Rightarrow> [] | Some t \<Rightarrow> st_connections t) (c\<lparr>resendQueue := q\<rparr>) of
             None \<Rightarrow> None
           | Some c' \<Rightarrow> resend_batch n (Suc k) e c'))"

definition drain_resends :: "send_env \<Rightarrow> chan \<Rightarrow> chan option" where
  "drain_resends e c =
     (case sendThread c of
        None \<Rightarrow> Some c
      | Some t \<Rightarrow>
          (case (if any_resend_alive (heap c) (st_connections t) then resend_batch MAX_RESEND_BATCH 0 e c else Some c) of
             None \<Rightarrow> None
           | Some c1 \<Rightarrow> Some (upd_st (\<lambda>t. if length (st_resendRetryCount t) > MAX_RESEND_TRACKED
                                          then t\<lparr>st_resendRetryCount := []\<rparr> else t) c1)))"

datatype iter_end = StoppedAt | IdleWait | PacketDropped bytes | PacketSent bytes | PacketRetained bytes

definition send_data_packet :: "send_env \<Rightarrow> bytes \<Rightarrow> send_thread \<Rightarrow> chan \<Rightarrow> (iter_end \<times> chan) outcome option" where
  "send_data_packet e d t c =
     (let snap = st_connections t; numConns = length snap;
          numDataConns = (if numConns > VC_FIRST_RESEND_CONN_INDEX then VC_FIRST_RESEND_CONN_INDEX else numConns)
      in if numDataConns = 0 \<or> snap ! 0 = None then Some (Inr (PacketDropped d, c))
         else case rate_all (se_rate e) [0..<numDataConns] snap (connSendStats c) (t, heap c) of
                Inl err \<Rightarrow> Some (Inl err)
              | Inr (scores, t1, h1) \<Rightarrow>
                  let order = connection_order scores (st_roundRobinStart t1);
                      anyEligible = (best_score scores \<ge> 0);
                      t2 = t1\<lparr>st_roundRobinStart := (st_roundRobinStart t1 + 1) mod numDataConns\<rparr>
                  in (case send_ranks (se_data e) d scores anyEligible snap order (c\<lparr>heap := h1, sendThread := Some t2\<rparr>) of
                        None \<Rightarrow> None
                      | Some (Inl err) \<Rightarrow> Some (Inl err)
                      | Some (Inr (sent, c1)) \<Rightarrow>
                          Some (Inr (if sent then (PacketSent d, c1)
                                     else (PacketRetained d, upd_st (\<lambda>t. t\<lparr>st_pending := Some d\<rparr>) c1)))))"

definition send_iteration :: "send_env \<Rightarrow> chan \<Rightarrow> (iter_end \<times> chan) outcome option" where
  "send_iteration e c =
     (case sendThread c of
        None \<Rightarrow> Some (Inr (StoppedAt, c))
      | Some t0 \<Rightarrow>
          if \<not> th_running (st_thr t0) then Some (Inr (StoppedAt, c))
          else case drain_resends e c of
                 None \<Rightarrow> None
               | Some c1 \<Rightarrow>
                   (case sendThread c1 of
                      None \<Rightarrow> Some (Inr (StoppedAt, c1))
                    | Some t \<Rightarrow>
                        let (dataVec, c2) = (case st_pending t of
                              Some d \<Rightarrow> (Some d, upd_st (\<lambda>t. t\<lparr>st_pending := None\<rparr>) c1)
                            | None \<Rightarrow> let (r, q) = bq_tryDequeue (sendQueue c1) in (r, c1\<lparr>sendQueue := q\<rparr>))
                        in (case dataVec of
                              None \<Rightarrow> Some (Inr (IdleWait, c2))
                            | Some d \<Rightarrow>
                                if \<not> th_running (st_thr t) then Some (Inr (PacketDropped d, c2))
                                else send_data_packet e d (t\<lparr>st_pending := None\<rparr>) c2)))"

end
