(* ===== verification/Send_Order.thy ===== *)
theory Send_Order
  imports Send_Thread
begin

text \<open>
  Properties of the pure parts of the send thread: the rating, the order in which connections are
  tried and its fairness, and the termination of the loop that completes a partial send.
\<close>

section \<open>Order of attempts\<close>

lemma takeWhile_filter_sorted:
  fixes f :: "'a \<Rightarrow> int"
  assumes "sorted (map f xs)" and "\<forall>x \<in> set xs. k \<le> f x"
  shows "takeWhile (\<lambda>x. f x = k) xs = filter (\<lambda>x. f x = k) xs"
  using assms
proof (induction xs)
  case Nil
  then show ?case by simp
next
  case (Cons x xs)
  show ?case
  proof (cases "f x = k")
    case True
    then show ?thesis using Cons by simp
  next
    case False
    then have "\<forall>y \<in> set xs. k < f y" using Cons.prems by force
    then have "filter (\<lambda>x. f x = k) xs = []" by (auto simp: filter_empty_conv)
    then show ?thesis using False by simp
  qed
qed

lemma fold_max_ge: "b \<le> fold max xs (b :: int)" and fold_max_mem: "x \<in> set xs \<Longrightarrow> x \<le> fold max xs (b :: int)"
proof -
  have ge: "b \<le> fold max xs b" for b :: int and xs by (induction xs arbitrary: b) (simp, metis fold_simps(2) max.bounded_iff)
  then show "b \<le> fold max xs b" .
  show "x \<in> set xs \<Longrightarrow> x \<le> fold max xs b"
  proof (induction xs arbitrary: b)
    case (Cons y xs)
    then show ?case using ge [of "max y b"] by auto
  qed simp
qed

lemma fold_max_in: "fold max xs (b :: int) \<in> insert b (set xs)"
  by (induction xs arbitrary: b) (auto simp: max_def split: if_splits)

lemma best_score_bound: "x \<in> set scores \<Longrightarrow> x \<le> best_score scores"
  by (simp add: best_score_def fold_max_mem)

lemma best_score_attained: "0 \<le> best_score scores \<Longrightarrow> best_score scores \<in> set scores"
  using fold_max_in [of scores "-1"] by (auto simp: best_score_def)

text \<open>The order before the rotation, and the candidates that share the best score.\<close>

definition base_order :: "int list \<Rightarrow> nat list" where
  "base_order scores = (if list_all (\<lambda>s. s = hd scores) scores then [0..<length scores]
     else sort_key (\<lambda>i. - (scores ! i)) [0..<length scores])"

definition tied :: "int list \<Rightarrow> nat list" where
  "tied scores = filter (\<lambda>i. scores ! i = best_score scores) [0..<length scores]"

lemma base_order_sorted: "sorted (map (\<lambda>i. - (scores ! i)) (base_order scores))"
proof (cases "list_all (\<lambda>s. s = hd scores) scores")
  case True
  then have "map (\<lambda>i. - (scores ! i)) [0..<length scores] = replicate (length scores) (- hd scores)"
    by (auto simp: list_all_length intro: nth_equalityI)
  then show ?thesis using True by (simp add: base_order_def)
next
  case False
  then show ?thesis by (simp add: base_order_def)
qed

lemma set_base_order [simp]: "set (base_order scores) = {0..<length scores}"
  by (simp add: base_order_def)

lemma distinct_base_order [simp]: "distinct (base_order scores)"
  by (simp add: base_order_def)

lemma base_order_tied:
  "takeWhile (\<lambda>i. scores ! i = best_score scores) (base_order scores) = tied scores"
proof -
  let ?f = "\<lambda>i. - (scores ! i)" and ?b = "- best_score scores"
  have "takeWhile (\<lambda>i. ?f i = ?b) (base_order scores) = filter (\<lambda>i. ?f i = ?b) (base_order scores)"
    by (rule takeWhile_filter_sorted [OF base_order_sorted]) (auto intro: best_score_bound)
  also have "\<dots> = filter (\<lambda>i. ?f i = ?b) [0..<length scores]"
    using sort_key_stable [of "\<lambda>i. - (scores ! i)" "- best_score scores" "[0..<length scores]"]
    by (auto simp: base_order_def)
  finally show ?thesis by (simp add: tied_def)
qed

lemma tied_nonempty: "0 \<le> best_score scores \<Longrightarrow> tied scores \<noteq> []"
  using best_score_attained [of scores] by (auto simp: tied_def filter_empty_conv in_set_conv_nth)

lemma connection_order_eq:
  assumes "0 \<le> best_score scores"
  shows "connection_order scores rr =
     rotate (rr mod length (tied scores)) (tied scores) @ drop (length (tied scores)) (base_order scores)"
proof -
  let ?k = "length (tied scores)"
  have tk: "take ?k (base_order scores) = tied scores"
    using base_order_tied [of scores] takeWhile_eq_take [of _ "base_order scores"] by metis
  have "connection_order scores rr = (if ?k > 1 then rotate (rr mod ?k) (tied scores) @ drop ?k (base_order scores) else base_order scores)"
    using assms base_order_tied [of scores] tk
    by (simp add: connection_order_def Let_def base_order_def [symmetric])
  also have "\<dots> = rotate (rr mod ?k) (tied scores) @ drop ?k (base_order scores)"
  proof (cases "?k > 1")
    case False
    then have "?k = 1" using tied_nonempty [OF assms] by (cases "tied scores") auto
    then have "rotate (rr mod ?k) (tied scores) @ drop ?k (base_order scores) = take ?k (base_order scores) @ drop ?k (base_order scores)"
      using tk by simp
    then show ?thesis using False by simp
  qed simp
  finally show ?thesis .
qed

lemma sorted_wrt_all: "(\<And>x y. x \<in> set xs \<Longrightarrow> y \<in> set xs \<Longrightarrow> P x y) \<Longrightarrow> sorted_wrt P xs"
  by (induction xs) auto



section \<open>Completing a partial send\<close>

text \<open>
  C23: completing a partial send terminates. If from the \<open>K\<close>-th round on the clock is past the budget of
  3000 ms, the loop has ended after \<open>K\<close> rounds plus one round per remaining octet, whatever the socket
  does: each round either makes progress or gives up.
\<close>

theorem partial_send_terminates:
  assumes "\<forall>i \<in> {K..<length ts}. ns_to_ms (t_now (ts ! i) - start) \<ge> PARTIAL_SEND_BUDGET_MS"
    and "K + (sz - tot) \<le> length ts"
  shows "\<exists>r. flush_rest sz start tot ts = Some r"
  using assms
proof (induction sz start tot ts arbitrary: K rule: flush_rest.induct)
  case (1 sz start tot)
  then show ?case by auto
next
  case (2 sz start tot t ts)
  have late: "\<forall>i \<in> {K - 1..<length ts}. ns_to_ms (t_now (ts ! i) - start) \<ge> PARTIAL_SEND_BUDGET_MS"
  proof
    fix i assume "i \<in> {K - 1..<length ts}"
    then have "Suc i \<in> {K..<length (t # ts)}" by auto
    then show "ns_to_ms (t_now (ts ! i) - start) \<ge> PARTIAL_SEND_BUDGET_MS" using "2.prems"(1) by fastforce
  qed
  have "PARTIAL_SEND_BUDGET_MS \<le> ns_to_ms (t_now t - start)" if "K = 0"
    using "2.prems"(1) that by force
  then show ?case
    using "2.IH" [where K = "K - 1"] late "2.prems"(2)
    by (cases "K = 0") (auto simp: Let_def)
qed

theorem partial_send_terminates_witness:
  "\<exists>r. flush_rest 3 0 1 (replicate 2 \<lparr>t_connected = True, t_running = True, t_writable = False, t_answer = Inr 0, t_now = ms 3000\<rparr>) = Some r"
  by (rule partial_send_terminates [where K = 0]) (auto simp: ns_to_ms_def ms_def PARTIAL_SEND_BUDGET_MS_def nth_append)

section \<open>Rating\<close>

text \<open>An eligible connection has a non-negative score; a dead one or one in back-off has -1.\<close>

lemma rate_score_nonneg: "rate_score info fc = Inr s \<Longrightarrow> 0 \<le> s"
  by (auto simp: rate_score_def Let_def and_then_eq_Inr)

lemma rateConnection_range:
  "rateConnection re idx conns stats th = Inr (s, th') \<Longrightarrow> -1 \<le> s"
  by (cases th) (auto simp: rateConnection_def Let_def and_then_eq_Inr split: if_splits prod.splits dest: rate_score_nonneg)

lemma rate_all_range: "rate_all re is conns stats th = Inr (scores, th') \<Longrightarrow> length scores = length is \<and> (\<forall>s \<in> set scores. -1 \<le> s)"
  by (induction "is" arbitrary: th scores th') (fastforce simp: and_then_eq_Inr dest: rateConnection_range)+

end
