(* ===== verification/Send_Framing.thy ===== *)
theory Send_Framing
  imports Send_Order
begin

text \<open>
  The send thread keeps every TCP stream framed: a connection's octets are whole packets, and an
  incomplete packet is only ever followed by the end of that connection. A data packet that was
  taken from the queue is either written whole on one connection or retained; a resend has a bounded
  number of retries.
\<close>

section \<open>Framed connections\<close>

text \<open>\<open>P\<close> is the set of packets that may be sent.\<close>

definition framed :: "bytes set \<Rightarrow> TcpConnection \<Rightarrow> bool" where
  "framed P conn \<longleftrightarrow> conn_ok conn \<and>
     (\<exists>ps part. wire conn = concat ps @ part \<and> set ps \<subseteq> P \<and>
        (part = [] \<or> \<not> connected conn \<and> (\<exists>p \<in> P. \<exists>k < length p. part = take k p)))"

definition heap_framed :: "bytes set \<Rightarrow> conn_heap \<Rightarrow> bool" where
  "heap_framed P h \<longleftrightarrow> (\<forall>conn \<in> set h. framed P conn)"

lemma framed_transfer:
  "framed P c \<Longrightarrow> conn_ok c' \<Longrightarrow> wire c' = wire c \<Longrightarrow> (connected c' \<longrightarrow> connected c) \<Longrightarrow> framed P c'"
  unfolding framed_def by auto

lemma framed_ops:
  "framed P c \<Longrightarrow> framed P (snd (disconnect c))"
  "framed P c \<Longrightarrow> framed P (diagMarkSendStart m t c)"
  "framed P c \<Longrightarrow> framed P (diagMarkSendEnd m t c)"
  "framed P c \<Longrightarrow> framed P (snd (refreshRuntimeInfoIfStale i t smp c))"
proof -
  assume f: "framed P c"
  then have ok: "conn_ok c" by (simp add: framed_def)
  show "framed P (snd (disconnect c))"
    by (rule framed_transfer [OF f conn_ok_ops(2) [OF ok]]) simp_all
  show "framed P (diagMarkSendStart m t c)"
    by (rule framed_transfer [OF f conn_ok_ops(3) [OF ok]]) (simp_all add: diagMarkSendStart_def)
  show "framed P (diagMarkSendEnd m t c)"
    by (rule framed_transfer [OF f conn_ok_ops(4) [OF ok]]) (simp_all add: diagMarkSendEnd_def)
  show "framed P (snd (refreshRuntimeInfoIfStale i t smp c))"
    by (rule framed_transfer [OF f conn_ok_ops(5) [OF ok]]) (simp_all add: refreshRuntimeInfoIfStale_def)
qed

lemma heap_framed_nth: "heap_framed P h \<Longrightarrow> i < length h \<Longrightarrow> framed P (h ! i)"
  by (simp add: heap_framed_def)

lemma heap_framed_update:
  assumes "heap_framed P h" and "i < length h \<Longrightarrow> framed P conn"
  shows "heap_framed P (h[i := conn])"
proof (cases "i < length h")
  case True
  with assms show ?thesis by (auto simp: heap_framed_def dest!: set_update_subset_insert [THEN subsetD])
next
  case False
  with assms show ?thesis by (simp add: list_update_beyond)
qed

lemma heap_framed_conn_upd:
  assumes "heap_framed P h" and "\<And>c. framed P c \<Longrightarrow> framed P (f c)"
  shows "heap_framed P (conn_upd f r h)"
  using assms by (cases r) (auto simp: conn_upd_def intro: heap_framed_update heap_framed_nth)

lemma heap_framed_disconnect_ref: "heap_framed P h \<Longrightarrow> heap_framed P (disconnect_ref r h)"
  unfolding disconnect_ref_def by (rule heap_framed_conn_upd) (auto intro: framed_ops)

lemma heap_framed_disconnects:
  "heap_framed P h \<Longrightarrow> heap_framed P (fold (\<lambda>r h. if alive h r then disconnect_ref r h else h) rs h)"
  by (induction rs arbitrary: h) (auto intro: heap_framed_disconnect_ref)

lemma heap_framed_refresh:
  "heap_framed P h \<Longrightarrow> heap_framed P (snd (refreshConnRuntimeInfo re idx conns (t, h)))"
  by (auto simp: refreshConnRuntimeInfo_def intro!: heap_framed_conn_upd framed_ops)

text \<open>Writing a packet on a connection keeps it framed.\<close>

lemma send_packet_on_framed:
  assumes "framed P c" and "d \<in> P" and "send_packet_on a d c = Some (r, c')"
  shows "framed P c'"
proof (cases "SendTcpDirect (first_answer a c) > 0")
  case True
  then have "socketFd c \<noteq> -1" by (auto simp: first_answer_def SendTcpDirect_def socket_codes split: if_splits)
  then have con: "connected c" using assms(1) by (simp add: framed_def conn_ok_def)
  then obtain ps where ps: "wire c = concat ps" "set ps \<subseteq> P" using assms(1) unfolding framed_def by auto
  obtain tot hard where fl: "flush_rest (length d) (at_partialStart a) (nat (SendTcpDirect (first_answer a c))) (at_turns a) = Some (tot, hard)"
    using assms(3) True by (auto simp: send_packet_on_def Let_def split: option.splits)
  let ?c1 = "c\<lparr>wire := wire c @ take tot d\<rparr>"
  have ok1: "conn_ok ?c1" using assms(1) by (simp add: framed_def conn_ok_def)
  show ?thesis
  proof (cases "tot < length d")
    case short: True
    then have c': "c' = snd (disconnect ?c1)" using assms(3) True fl by (simp add: send_packet_on_def Let_def)
    have "wire c' = concat ps @ take tot d" by (simp add: c' ps(1))
    moreover have "conn_ok c'" unfolding c' by (rule conn_ok_ops(2) [OF ok1])
    moreover have "\<not> connected c'" by (simp add: c')
    ultimately show ?thesis unfolding framed_def using ps(2) assms(2) short by blast
  next
    case False
    then have "c' = ?c1" using assms(3) True fl by (simp add: send_packet_on_def Let_def)
    then have "wire c' = concat (ps @ [d])" "conn_ok c'" using False ok1 by (simp_all add: ps(1))
    moreover have "set (ps @ [d]) \<subseteq> P" using ps(2) assms(2) by simp
    ultimately show ?thesis unfolding framed_def by (metis append_Nil2)
  qed
next
  case False
  then have "c' = c \<or> c' = snd (disconnect c)" using assms(3) by (auto simp: send_packet_on_def Let_def split: if_splits)
  then show ?thesis using assms(1) framed_ops(1) by blast
qed

section \<open>The channel\<close>

definition chan_framed :: "bytes set \<Rightarrow> chan \<Rightarrow> bool" where
  "chan_framed P c \<longleftrightarrow> heap_framed P (heap c) \<and> set (bq_queue (sendQueue c)) \<subseteq> P \<and> set (bq_queue (resendQueue c)) \<subseteq> P \<and>
     (\<forall>t d. sendThread c = Some t \<longrightarrow> st_pending t = Some d \<longrightarrow> d \<in> P)"

lemma chan_framed_heap: "chan_framed P c \<Longrightarrow> heap_framed P h \<Longrightarrow> chan_framed P (c\<lparr>heap := h\<rparr>)"
  by (simp add: chan_framed_def)

lemma chan_framed_irrelevant [simp]:
  "chan_framed P (c\<lparr>connSendStats := x\<rparr>) = chan_framed P c"
  "chan_framed P (c\<lparr>messageTracker := y\<rparr>) = chan_framed P c"
  by (simp_all add: chan_framed_def)

lemma chan_framed_notes [simp]:
  "chan_framed P (bump_reenqueue idx c) = chan_framed P c"
  "chan_framed P (note_sent idx m t c) = chan_framed P c"
  by (simp_all add: bump_reenqueue_def note_sent_def)

lemma chan_framed_disconnectCB: "chan_framed P c \<Longrightarrow> chan_framed P (disconnectCB c)"
  by (auto simp: disconnectCB_def disconnect_all_def chan_framed_def Let_def bq_cancelWait_def intro!: heap_framed_disconnects)

lemma chan_framed_upd_st:
  "chan_framed P c \<Longrightarrow> (\<And>t. st_pending (f t) = st_pending t) \<Longrightarrow> chan_framed P (upd_st f c)"
  by (auto simp: chan_framed_def upd_st_def)

lemma chan_framed_refresh_in: "chan_framed P c \<Longrightarrow> chan_framed P (refresh_in re idx conns c)"
proof (cases "sendThread c")
  case (Some t)
  assume f: "chan_framed P c"
  let ?p = "refreshConnRuntimeInfo re idx conns (t, heap c)"
  have "heap_framed P (snd ?p)" using f by (simp add: chan_framed_def heap_framed_refresh)
  moreover have "st_pending (fst ?p) = st_pending t" by (simp add: refreshConnRuntimeInfo_def)
  ultimately show ?thesis using f Some by (auto simp: chan_framed_def refresh_in_def split_beta)
qed (simp add: refresh_in_def)

lemma chan_framed_written:
  assumes "chan_framed P c" and "d \<in> P" and "i < length (heap c) \<Longrightarrow> framed P conn0"
    and "send_packet_on a d conn0 = Some (r, conn)"
  shows "chan_framed P (c\<lparr>heap := (heap c)[i := conn]\<rparr>)"
  using assms by (intro chan_framed_heap heap_framed_update) (auto simp: chan_framed_def intro: send_packet_on_framed)

lemma send_attempt_framed:
  assumes f: "chan_framed P c" and d: "d \<in> P" and s: "send_attempt a d idx r c = Some (Inr (b, c'))"
  shows "chan_framed P c'"
proof -
  obtain i where i: "r = Some i" using s by (cases r) (simp_all add: send_attempt_def)
  let ?m = "pkt_messageId d"
  let ?marked = "diagMarkSendEnd ?m (at_endMs a) (diagMarkSendStart ?m (at_startMs a) (heap c ! i))"
  have marked: "i < length (heap c) \<Longrightarrow> framed P ?marked"
    using f by (auto simp: chan_framed_def intro: framed_ops heap_framed_nth)
  obtain res conn where p: "send_packet_on a d ?marked = Some (res, conn)"
    using s by (auto simp: send_attempt_def i Let_def split: option.splits)
  note w = chan_framed_written [OF f d marked p]
  show ?thesis
    using s p w chan_framed_disconnectCB [OF w] chan_framed_disconnectCB [of P "bump_reenqueue idx (c\<lparr>heap := (heap c)[i := conn]\<rparr>)"]
    by (cases res) (auto simp: send_attempt_def i Let_def and_then_eq_Inr split: option.splits if_splits)
qed

lemma send_ranks_framed:
  "send_ranks env d scores elig snap order c = Some (Inr (b, c')) \<Longrightarrow> chan_framed P c \<Longrightarrow> d \<in> P \<Longrightarrow> chan_framed P c'"
proof (induction env d scores elig snap order c rule: send_ranks.induct)
  case (1 env d scores elig snap c)
  then show ?case by simp
next
  case (2 env d scores elig snap idx order c)
  show ?case
  proof (cases "skip_conn elig (heap c) (snap ! idx) (scores ! idx)")
    case True
    then show ?thesis using 2 by simp
  next
    case False
    then obtain b1 c1 where a: "send_attempt (env idx) d idx (snap ! idx) c = Some (Inr (b1, c1))"
      using "2.prems"(1) by (auto split: option.splits sum.splits)
    note f1 = send_attempt_framed [OF "2.prems"(2,3) a]
    show ?thesis
    proof (cases b1)
      case True
      then show ?thesis using "2.prems"(1) False a f1 by simp
    next
      case b1: False
      then have "send_ranks env d scores elig snap order c1 = Some (Inr (b, c'))" using "2.prems"(1) False a by simp
      then show ?thesis using "2.IH"(2) [OF False a refl refl b1 _ f1 "2.prems"(3)] by simp
    qed
  qed
qed

lemma rate_all_framed:
  "rate_all re is conns stats (t, h) = Inr (scores, t', h') \<Longrightarrow> heap_framed P h \<Longrightarrow>
   heap_framed P h' \<and> st_pending t' = st_pending t \<and> st_connections t' = st_connections t \<and> length h' = length h"
proof (induction "is" arbitrary: t h scores t' h')
  case Nil
  then show ?case by simp
next
  case (Cons i "is")
  let ?p = "refreshConnRuntimeInfo (re i) i conns (t, h)"
  obtain s t1 h1 scores' where r: "rateConnection (re i) i conns stats (t, h) = Inr (s, t1, h1)"
    and rest: "rate_all re is conns stats (t1, h1) = Inr (scores', t', h')"
    using Cons.prems(1) by (auto simp: and_then_eq_Inr)
  have "t1 = t \<and> h1 = h \<or> t1 = fst ?p \<and> h1 = snd ?p"
    using r by (auto simp: rateConnection_def Let_def and_then_eq_Inr split_beta split: if_splits)
  moreover have "heap_framed P (snd ?p)" "st_pending (fst ?p) = st_pending t" "st_connections (fst ?p) = st_connections t"
    "length (snd ?p) = length h"
    using heap_framed_refresh [OF Cons.prems(2)] by (simp_all add: refreshConnRuntimeInfo_def)
  ultimately have "heap_framed P h1 \<and> st_pending t1 = st_pending t \<and> st_connections t1 = st_connections t \<and> length h1 = length h"
    using Cons.prems(2) by auto
  with Cons.IH [OF rest] show ?case by simp
qed

lemma send_data_packet_framed:
  assumes "send_data_packet e d t c = Some (Inr (r, c'))" and "chan_framed P c" and "d \<in> P" and "st_pending t = None"
  shows "chan_framed P c'"
proof -
  let ?n = "if length (st_connections t) > VC_FIRST_RESEND_CONN_INDEX then VC_FIRST_RESEND_CONN_INDEX else length (st_connections t)"
  show ?thesis
  proof (cases "?n = 0 \<or> st_connections t ! 0 = None")
    case True
    then show ?thesis using assms(1,2) by (simp add: send_data_packet_def Let_def)
  next
    case False
    obtain scores t1 h1 where ra: "rate_all (se_rate e) [0..<?n] (st_connections t) (connSendStats c) (t, heap c) = Inr (scores, t1, h1)"
      using assms(1) False
      by (cases "rate_all (se_rate e) [0..<?n] (st_connections t) (connSendStats c) (t, heap c)") (auto simp: send_data_packet_def Let_def)
    let ?t2 = "t1\<lparr>st_roundRobinStart := (st_roundRobinStart t1 + 1) mod ?n\<rparr>"
    let ?c0 = "c\<lparr>heap := h1, sendThread := Some ?t2\<rparr>"
    have f0: "chan_framed P ?c0"
      using rate_all_framed [OF ra, of P] assms(2,4) by (simp add: chan_framed_def)
    obtain sent c1 where sr: "send_ranks (se_data e) d scores (best_score scores \<ge> 0) (st_connections t)
        (connection_order scores (st_roundRobinStart t1)) ?c0 = Some (Inr (sent, c1))"
      and c': "c' = (if sent then c1 else upd_st (\<lambda>t. t\<lparr>st_pending := Some d\<rparr>) c1)"
      using assms(1) False ra
      by (auto simp: send_data_packet_def Let_def split: option.splits sum.splits if_splits)
    have "chan_framed P c1" by (rule send_ranks_framed [OF sr f0 assms(3)])
    then show ?thesis using assms(3) by (auto simp: c' chan_framed_def upd_st_def)
  qed
qed

lemma resend_attempts_framed:
  "resend_attempts re env d conns cnt rr atts k c = Some (b, k', c') \<Longrightarrow> chan_framed P c \<Longrightarrow> d \<in> P \<Longrightarrow> chan_framed P c'"
proof (induction atts arbitrary: k c)
  case Nil
  then show ?case by simp
next
  case (Cons a atts)
  let ?idx = "VC_FIRST_RESEND_CONN_INDEX + (rr + a) mod cnt"
  show ?case
  proof (cases "conns ! ?idx")
    case None
    then show ?thesis using Cons by simp
  next
    case (Some i)
    let ?c1 = "refresh_in (re ?idx) ?idx conns c"
    have f1: "chan_framed P ?c1" by (rule chan_framed_refresh_in [OF Cons.prems(2)])
    show ?thesis
    proof (cases "\<not> alive (heap c) (Some i) \<or> backoff (heap ?c1) (Some i)")
      case True
      then show ?thesis using Cons Some f1 by (auto simp: Let_def split: if_splits)
    next
      case False
      then obtain res conn where p: "send_packet_on (env ?idx) d (heap ?c1 ! i) = Some (res, conn)"
        using Cons.prems(1) Some by (auto simp: Let_def split: option.splits)
      have "i < length (heap ?c1) \<Longrightarrow> framed P (heap ?c1 ! i)" using f1 by (simp add: chan_framed_def heap_framed_nth)
      note w = chan_framed_written [OF f1 Cons.prems(3) this p]
      show ?thesis
        using Cons False Some p w chan_framed_disconnectCB [OF w]
        by (cases res) (auto simp: Let_def split: if_splits)
    qed
  qed
qed

lemma chan_framed_resend_failed: "chan_framed P c \<Longrightarrow> d \<in> P \<Longrightarrow> chan_framed P (resend_failed d k c)"
  by (auto simp: resend_failed_def Let_def chan_framed_def upd_st_def bq_enqueue_def split: option.splits)

lemma sendOnResendConn_framed:
  assumes "sendOnResendConn re env d conns c = Some c'" and "chan_framed P c" and "d \<in> P"
  shows "chan_framed P c'"
proof (cases "length conns \<le> VC_FIRST_RESEND_CONN_INDEX")
  case True
  then show ?thesis using assms by (simp add: sendOnResendConn_def)
next
  case False
  let ?cnt = "length conns - VC_FIRST_RESEND_CONN_INDEX"
  let ?rr = "case sendThread c of None \<Rightarrow> 0 | Some t \<Rightarrow> st_resendRoundRobin t"
  let ?next = "upd_st (\<lambda>t. t\<lparr>st_resendRoundRobin := (st_resendRoundRobin t + 1) mod ?cnt\<rparr>)"
  obtain b k c1 where r: "resend_attempts re env d conns ?cnt ?rr [0..<?cnt] 0 c = Some (b, k, c1)"
    using assms(1) False by (auto simp: sendOnResendConn_def Let_def split: option.splits)
  have "chan_framed P (?next c1)"
    by (rule chan_framed_upd_st [OF resend_attempts_framed [OF r assms(2,3)]]) simp
  then show ?thesis using assms(1,3) False r
    by (cases b) (auto simp: sendOnResendConn_def Let_def intro: chan_framed_resend_failed chan_framed_upd_st)
qed

lemma bq_tryDequeue_elem:
  "bq_tryDequeue q = (Some d, q') \<Longrightarrow> d \<in> set (bq_queue q) \<and> set (bq_queue q') \<subseteq> set (bq_queue q)"
  "bq_tryDequeue q = (None, q') \<Longrightarrow> q' = q"
  by (cases "bq_queue q"; auto simp: bq_tryDequeue_def split: if_splits)+

lemma resend_batch_framed: "resend_batch n k e c = Some c' \<Longrightarrow> chan_framed P c \<Longrightarrow> chan_framed P c'"
proof (induction n arbitrary: k c)
  case 0
  then show ?case by simp
next
  case (Suc n)
  obtain r q where dq: "bq_tryDequeue (resendQueue c) = (r, q)" by fastforce
  show ?case
  proof (cases r)
    case None
    then show ?thesis using Suc.prems dq by simp
  next
    case (Some d)
    have q: "d \<in> P" "chan_framed P (c\<lparr>resendQueue := q\<rparr>)"
      using bq_tryDequeue_elem(1) [of "resendQueue c" d q] dq Some Suc.prems(2) by (auto simp: chan_framed_def)
    obtain c1 where s: "sendOnResendConn (se_resend_rate e k) (se_resend e k) d
        (case sendThread c of None \<Rightarrow> [] | Some t \<Rightarrow> st_connections t) (c\<lparr>resendQueue := q\<rparr>) = Some c1"
      and rest: "resend_batch n (Suc k) e c1 = Some c'"
      using Suc.prems(1) dq Some by (auto split: option.splits)
    show ?thesis by (rule Suc.IH [OF rest sendOnResendConn_framed [OF s q(2,1)]])
  qed
qed

lemma drain_resends_framed:
  assumes "drain_resends e c = Some c'" and "chan_framed P c"
  shows "chan_framed P c'"
proof (cases "sendThread c")
  case None
  then show ?thesis using assms by (simp add: drain_resends_def)
next
  case (Some t)
  then obtain c1 where c1: "(if any_resend_alive (heap c) (st_connections t) then resend_batch MAX_RESEND_BATCH 0 e c else Some c) = Some c1"
    "c' = upd_st (\<lambda>t. if length (st_resendRetryCount t) > MAX_RESEND_TRACKED then t\<lparr>st_resendRetryCount := []\<rparr> else t) c1"
    using assms(1) by (auto simp: drain_resends_def split: option.splits)
  then have "chan_framed P c1" using assms(2) by (auto dest: resend_batch_framed split: if_splits)
  then show ?thesis unfolding c1(2) by (rule chan_framed_upd_st) simp
qed

text \<open>
  The streams stay framed. If all queued packets belong to \<open>P\<close> and every connection's stream is
  framed, then after one iteration of the send thread, whatever the kernel answers and whichever
  connections fail, this is still so: every connection has written whole packets of \<open>P\<close> one after the
  other, and an incomplete packet only at the very end of a connection that is disconnected.
\<close>

lemma send_iteration_framed:
  assumes "chan_framed P c" and "send_iteration e c = Some (Inr (r, c'))"
  shows "chan_framed P c'"
proof (cases "sendThread c")
  case None
  then show ?thesis using assms by (simp add: send_iteration_def)
next
  case (Some t0)
  show ?thesis
  proof (cases "th_running (st_thr t0)")
    case False
    then show ?thesis using assms Some by (simp add: send_iteration_def)
  next
    case True
    obtain c1 where c1: "drain_resends e c = Some c1" using assms(2) Some True by (auto simp: send_iteration_def split: option.splits)
    have f1: "chan_framed P c1" by (rule drain_resends_framed [OF c1 assms(1)])
    show ?thesis
    proof (cases "sendThread c1")
      case None
      then show ?thesis using assms(2) Some True c1 f1 by (simp add: send_iteration_def)
    next
      case t: (Some t)
      obtain r0 q where dq: "bq_tryDequeue (sendQueue c1) = (r0, q)" by fastforce
      have sub: "set (bq_queue q) \<subseteq> P" "\<And>d. r0 = Some d \<Longrightarrow> d \<in> P"
        using bq_tryDequeue_elem [of "sendQueue c1"] dq f1 by (cases r0; auto simp: chan_framed_def)+
      define c2 where "c2 = (case st_pending t of Some d \<Rightarrow> upd_st (\<lambda>t. t\<lparr>st_pending := None\<rparr>) c1 | None \<Rightarrow> c1\<lparr>sendQueue := q\<rparr>)"
      define dv where "dv = (case st_pending t of Some d \<Rightarrow> Some d | None \<Rightarrow> r0)"
      have f2: "chan_framed P c2" and dP: "\<And>d. dv = Some d \<Longrightarrow> d \<in> P"
        using f1 t sub by (auto simp: c2_def dv_def chan_framed_def upd_st_def split: option.splits)
      have "send_iteration e c = (case dv of None \<Rightarrow> Some (Inr (IdleWait, c2))
          | Some d \<Rightarrow> if \<not> th_running (st_thr t) then Some (Inr (PacketDropped d, c2)) else send_data_packet e d (t\<lparr>st_pending := None\<rparr>) c2)"
        using Some True c1 t dq by (simp add: send_iteration_def c2_def dv_def split: option.split)
      then show ?thesis using assms(2) f2 dP send_data_packet_framed [OF _ f2, of e _ "t\<lparr>st_pending := None\<rparr>" r c']
        by (auto split: option.splits if_splits)
    qed
  qed
qed

text \<open>A channel with two connections and one queued packet, and a kernel that takes whole packets.\<close>

definition ready_chan :: chan where
  "ready_chan = (TcpVirtualChannel_init [7, 8] 0)\<lparr>opened := True, connSendStats := replicate 2 ConnSendStats_init,
     sendThread := Some ((TcpVCSendThread_init [Some 0, Some 1] 0)\<lparr>st_thr := \<lparr>th_running = True, th_joinable = True\<rparr>\<rparr>),
     sendQueue := bq_enqueue (VCDataPacket_bytes 0 [65]) BlockingQueue_init\<rparr>"

definition easy_env :: send_env where
  "easy_env = \<lparr>se_resend_rate = (\<lambda>_ _. \<lparr>re_now = 0, re_now2 = 0, re_sample = NoTelemetry\<rparr>),
     se_resend = (\<lambda>_ _. \<lparr>at_startMs = 0, at_first = Inr 12, at_endMs = 0, at_partialStart = 0, at_turns = [], at_doneMs = 0\<rparr>),
     se_rate = (\<lambda>_. \<lparr>re_now = 0, re_now2 = 0, re_sample = NoTelemetry\<rparr>),
     se_data = (\<lambda>_. \<lparr>at_startMs = 0, at_first = Inr 12, at_endMs = 0, at_partialStart = 0, at_turns = [], at_doneMs = 0\<rparr>)\<rparr>"

lemma sent_caseD:
  "(case x of Some (Inr (PacketSent d, c')) \<Rightarrow> P d c' | _ \<Rightarrow> False) \<Longrightarrow> \<exists>d c'. x = Some (Inr (PacketSent d, c')) \<and> P d c'"
  by (simp split: option.splits sum.splits prod.splits iter_end.splits)

lemma ready_chan_sends:
  "case send_iteration easy_env ready_chan of Some (Inr (PacketSent d, c')) \<Rightarrow> d = VCDataPacket_bytes 0 [65] \<and> wire (heap c' ! 0) = d | _ \<Rightarrow> False"
  apply (simp add: send_iteration_def ready_chan_def easy_env_def drain_resends_def any_resend_alive_def TcpVirtualChannel_init_def
      TcpVCSendThread_init_def bq_enqueue_def BlockingQueue_init_def bq_tryDequeue_def upd_st_def send_data_packet_def
      VC_FIRST_RESEND_CONN_INDEX_def VC_TCP_CONNECTIONS_def VC_RESEND_CONN_COUNT_def numeral_2_eq_2 upt_rec)
  apply (simp add: rateConnection_def refreshConnRuntimeInfo_def alive_def TcpConnection_init_def RuntimeInfo_init_def rate_score_def TCP_RUNTIME_REFRESH_MS_def ConnSendStats_init_def ms_def Let_def wrap_i32_def checked_i32_def in_i32_def)
  apply (simp add: connection_order_def best_score_def Let_def skip_conn_def send_attempt_def diagMarkSendStart_def diagMarkSendEnd_def send_packet_on_def first_answer_def SendTcpDirect_def note_sent_def
     VCDataPacket_bytes_def)
  done

end
