(* ===== verification/Send_Delivery.thy ===== *)
theory Send_Delivery
  imports Send_Framing
begin

text \<open>
  What becomes of a packet that the send thread took: a data packet is written whole on exactly one
  connection or retained for the next iteration; a resend packet has a bounded number of retries.
\<close>

section \<open>Connections on which the packet was not completed\<close>

text \<open>
  \<open>kept d c c'\<close>: between \<open>c\<close> and \<open>c'\<close> the connection gained nothing, or gained a proper prefix of
  \<open>d\<close> and was closed; a closed connection gains nothing.
\<close>

definition kept :: "bytes \<Rightarrow> TcpConnection \<Rightarrow> TcpConnection \<Rightarrow> bool" where
  "kept d c c' \<longleftrightarrow> (conn_ok c \<longrightarrow> conn_ok c' \<and> (socketFd c = -1 \<longrightarrow> socketFd c' = -1 \<and> wire c' = wire c) \<and>
     (wire c' = wire c \<or> socketFd c' = -1 \<and> (\<exists>k < length d. wire c' = wire c @ take k d)))"

abbreviation heap_kept :: "bytes \<Rightarrow> conn_heap \<Rightarrow> conn_heap \<Rightarrow> bool" where
  "heap_kept d \<equiv> list_all2 (kept d)"

lemma kept_refl [simp]: "kept d c c"
  by (simp add: kept_def)

lemma kept_trans: "kept d a b \<Longrightarrow> kept d b c \<Longrightarrow> kept d a c"
  by (auto simp: kept_def)

lemma heap_kept_refl [simp]: "heap_kept d h h"
  by (simp add: list_all2_refl)

lemma heap_kept_trans: "heap_kept d a b \<Longrightarrow> heap_kept d b c \<Longrightarrow> heap_kept d a c"
  by (rule list_all2_trans [of "kept d" "kept d" "kept d"]) (auto intro: kept_trans)

lemma disconnect_closes: "conn_ok c \<Longrightarrow> socketFd (snd (disconnect c)) = -1"
  by (auto simp: disconnect_def conn_ok_def Let_def)

lemma kept_ops [intro]:
  "kept d c (snd (disconnect c))"
  "kept d c (diagMarkSendStart m t c)"
  "kept d c (diagMarkSendEnd m t c)"
  "kept d c (snd (refreshRuntimeInfoIfStale i t smp c))"
proof -
  show "kept d c (snd (disconnect c))" by (simp add: kept_def conn_ok_ops disconnect_closes)
  show "kept d c (diagMarkSendStart m t c)" by (auto simp: kept_def conn_ok_ops) (simp_all add: diagMarkSendStart_def)
  show "kept d c (diagMarkSendEnd m t c)" by (auto simp: kept_def conn_ok_ops) (simp_all add: diagMarkSendEnd_def)
  show "kept d c (snd (refreshRuntimeInfoIfStale i t smp c))"
    using conn_ok_ops(5) by (simp add: kept_def) (simp add: refreshRuntimeInfoIfStale_def)
qed

lemma heap_kept_update: "(i < length h \<Longrightarrow> kept d (h ! i) conn) \<Longrightarrow> heap_kept d h (h[i := conn])"
  by (cases "i < length h") (simp_all add: list_all2_conv_all_nth nth_list_update)

lemma heap_kept_conn_upd: "(\<And>c. kept d c (f c)) \<Longrightarrow> heap_kept d h (conn_upd f r h)"
  by (cases r) (auto simp: conn_upd_def intro: heap_kept_update)

lemma heap_kept_disconnects: "heap_kept d h (fold (\<lambda>r h. if alive h r then disconnect_ref r h else h) rs h)"
proof (induction rs arbitrary: h)
  case (Cons r rs)
  have "heap_kept d h (disconnect_ref r h)" unfolding disconnect_ref_def by (rule heap_kept_conn_upd) auto
  with Cons.IH show ?case by (auto intro: heap_kept_trans)
qed simp

lemma heap_kept_disconnectCB: "heap_kept d (heap c) (heap (disconnectCB c))"
  using heap_kept_disconnects by (simp add: disconnectCB_def disconnect_all_def Let_def)

lemma heap_notes [simp]: "heap (bump_reenqueue idx c) = heap c" "heap (note_sent idx m t c) = heap c"
  by (simp_all add: bump_reenqueue_def note_sent_def)

lemma send_packet_on_kept:
  assumes "send_packet_on a d c = Some (r, c')"
  shows "if r = SentWhole then socketFd c \<noteq> -1 \<and> c' = c\<lparr>wire := wire c @ d\<rparr> else kept d c c'"
proof (cases "SendTcpDirect (first_answer a c) > 0")
  case True
  then have fd: "socketFd c \<noteq> -1" by (auto simp: first_answer_def SendTcpDirect_def socket_codes split: if_splits)
  obtain tot hard where fl: "flush_rest (length d) (at_partialStart a) (nat (SendTcpDirect (first_answer a c))) (at_turns a) = Some (tot, hard)"
    using assms True by (auto simp: send_packet_on_def Let_def split: option.splits)
  let ?c1 = "c\<lparr>wire := wire c @ take tot d\<rparr>"
  have ok: "conn_ok ?c1 = conn_ok c" by (simp add: conn_ok_def)
  show ?thesis
  proof (cases "tot < length d")
    case short: True
    then have r: "r = SentPart tot hard" "c' = snd (disconnect ?c1)" using assms True fl by (simp_all add: send_packet_on_def Let_def)
    have "kept d c (snd (disconnect ?c1))"
      using fd short disconnect_closes [of ?c1] conn_ok_ops(2) [of ?c1] ok by (auto simp: kept_def)
    then show ?thesis by (simp add: r)
  next
    case False
    then show ?thesis using assms True fl fd by (auto simp: send_packet_on_def Let_def)
  qed
next
  case False
  then have "r \<noteq> SentWhole" "c' = c \<or> c' = snd (disconnect c)" using assms by (auto simp: send_packet_on_def Let_def split: if_splits)
  then show ?thesis by (auto intro: kept_ops)
qed

section \<open>The connection that took the packet\<close>

definition written_on :: "bytes \<Rightarrow> conn_heap \<Rightarrow> conn_heap \<Rightarrow> nat \<Rightarrow> bool" where
  "written_on d h h' i \<longleftrightarrow> i < length h \<and> socketFd (h ! i) \<noteq> -1 \<and> wire (h' ! i) = wire (h ! i) @ d \<and> heap_kept d h (h'[i := h ! i])"

definition accounted :: "bytes \<Rightarrow> bool \<Rightarrow> conn_heap \<Rightarrow> conn_heap \<Rightarrow> bool" where
  "accounted d sent h h' \<longleftrightarrow> (if sent then \<exists>i. written_on d h h' i else heap_kept d h h')"

definition conns_ok :: "conn_heap \<Rightarrow> bool" where
  "conns_ok h \<longleftrightarrow> (\<forall>conn \<in> set h. conn_ok conn)"

definition refs_ok :: "conn_ref list \<Rightarrow> conn_heap \<Rightarrow> bool" where
  "refs_ok rs h \<longleftrightarrow> (\<forall>r \<in> set rs. \<forall>i. r = Some i \<longrightarrow> i < length h)"

text \<open>What the attempts leave alone: the retry counts and the contents of the resend queue.\<close>

definition resends_same :: "chan \<Rightarrow> chan \<Rightarrow> bool" where
  "resends_same c c' \<longleftrightarrow> map_option st_resendRetryCount (sendThread c') = map_option st_resendRetryCount (sendThread c) \<and>
     bq_queue (resendQueue c') = bq_queue (resendQueue c)"

lemma conns_ok_kept: "conns_ok h \<Longrightarrow> heap_kept d h h' \<Longrightarrow> conns_ok h'"
  unfolding conns_ok_def list_all2_conv_all_nth by (metis in_set_conv_nth kept_def)

lemma refs_ok_kept: "refs_ok rs h \<Longrightarrow> heap_kept d h h' \<Longrightarrow> refs_ok rs h'"
  by (auto simp: refs_ok_def dest: list_all2_lengthD)

lemma written_on_after:
  assumes "conns_ok h" and k: "heap_kept d h h1" and w: "written_on d h1 h2 i"
  shows "written_on d h h2 i"
proof -
  have len: "length h1 = length h" "length h2 = length h"
    using k w by (auto simp: written_on_def dest!: list_all2_lengthD)
  have i: "i < length h" using w len by (simp add: written_on_def)
  have ki: "kept d (h ! i) (h1 ! i)" using k i by (auto simp: list_all2_conv_all_nth)
  moreover have "conn_ok (h ! i)" using assms(1) i by (simp add: conns_ok_def)
  ultimately have wi: "wire (h1 ! i) = wire (h ! i)" "socketFd (h ! i) \<noteq> -1"
    using w by (auto simp: kept_def written_on_def)
  have "kept d (h ! j) (h2[i := h ! i] ! j)" if "j < length h" for j
  proof (cases "j = i")
    case False
    have "kept d (h ! j) (h1 ! j)" "kept d (h1 ! j) (h2[i := h1 ! i] ! j)"
      using k w that len by (auto simp: list_all2_conv_all_nth written_on_def)
    with False show ?thesis by (auto intro: kept_trans)
  qed (use i len in simp)
  then have "heap_kept d h (h2[i := h ! i])" by (simp add: list_all2_conv_all_nth len)
  with w wi i show ?thesis by (simp add: written_on_def)
qed

lemma accounted_after: "conns_ok h \<Longrightarrow> heap_kept d h h1 \<Longrightarrow> accounted d b h1 h2 \<Longrightarrow> accounted d b h h2"
  by (auto simp: accounted_def intro: written_on_after heap_kept_trans split: if_splits)

text \<open>Writing on the connection \<open>i\<close> of the heap, after marks that leave the stream alone.\<close>

lemma send_packet_on_accounted:
  assumes "send_packet_on a d conn0 = Some (r, conn)" and "i < length h"
    and "kept d (h ! i) conn0" and "wire conn0 = wire (h ! i)" and "socketFd conn0 = socketFd (h ! i)"
  shows "accounted d (r = SentWhole) h (h[i := conn])"
proof (cases "r = SentWhole")
  case True
  then have "written_on d h (h[i := conn]) i"
    using send_packet_on_kept [OF assms(1)] assms(2,4,5) by (simp add: written_on_def)
  with True show ?thesis by (auto simp: accounted_def)
next
  case False
  then have "kept d (h ! i) conn" using send_packet_on_kept [OF assms(1)] kept_trans [OF assms(3)] by simp
  with False show ?thesis by (simp add: accounted_def heap_kept_update)
qed

lemma resends_same_simps [simp]:
  "resends_same c c"
  "resends_same c (c1\<lparr>heap := h\<rparr>) = resends_same c c1"
  "resends_same c (c1\<lparr>messageTracker := m\<rparr>) = resends_same c c1"
  "resends_same c (bump_reenqueue idx c1) = resends_same c c1"
  "resends_same c (note_sent idx m' t c1) = resends_same c c1"
  "resends_same c (disconnectCB c1) = resends_same c c1"
  by (simp_all add: resends_same_def bump_reenqueue_def note_sent_def disconnectCB_def disconnect_all_def Let_def bq_cancelWait_def
      option.map_comp comp_def)

lemma resends_same_trans: "resends_same a b \<Longrightarrow> resends_same b c \<Longrightarrow> resends_same a c"
  by (simp add: resends_same_def)

lemma accounted_disconnectCB: "heap_kept d h (heap c) \<Longrightarrow> heap_kept d h (heap (disconnectCB c))"
  using heap_kept_disconnectCB heap_kept_trans by blast

lemma send_attempt_accounted:
  assumes s: "send_attempt a d idx r c = Some (Inr (b, c'))" and refs: "\<And>i. r = Some i \<Longrightarrow> i < length (heap c)"
  shows "accounted d b (heap c) (heap c') \<and> resends_same c c'"
proof -
  obtain i where i: "r = Some i" using s by (cases r) (simp_all add: send_attempt_def)
  let ?m = "pkt_messageId d"
  let ?marked = "diagMarkSendEnd ?m (at_endMs a) (diagMarkSendStart ?m (at_startMs a) (heap c ! i))"
  obtain res conn where p: "send_packet_on a d ?marked = Some (res, conn)"
    using s by (auto simp: send_attempt_def i Let_def split: option.splits)
  have "kept d (heap c ! i) ?marked" by (rule kept_trans; rule kept_ops)
  moreover have "wire ?marked = wire (heap c ! i)" "socketFd ?marked = socketFd (heap c ! i)"
    by (simp_all add: diagMarkSendStart_def diagMarkSendEnd_def)
  ultimately have acc: "accounted d (res = SentWhole) (heap c) ((heap c)[i := conn])"
    by (intro send_packet_on_accounted [OF p refs [OF i]])
  show ?thesis
  proof (cases res)
    case SentWhole
    then show ?thesis using s p acc by (auto simp: send_attempt_def i Let_def and_then_eq_Inr split: option.splits)
  next
    case (SentPart k hard)
    then have "heap_kept d (heap c) ((heap c)[i := conn])" using acc by (simp add: accounted_def)
    then show ?thesis using s p SentPart accounted_disconnectCB [of d "heap c" "c\<lparr>heap := (heap c)[i := conn]\<rparr>"]
      by (auto simp: send_attempt_def i Let_def accounted_def)
  next
    case (NotSent n)
    then have "heap_kept d (heap c) ((heap c)[i := conn])" using acc by (simp add: accounted_def)
    then show ?thesis using s p NotSent accounted_disconnectCB [of d "heap c" "bump_reenqueue idx (c\<lparr>heap := (heap c)[i := conn]\<rparr>)"]
      by (auto simp: send_attempt_def i Let_def accounted_def split: if_splits)
  qed
qed

lemma send_ranks_accounted:
  "send_ranks env d scores elig snap order c = Some (Inr (b, c')) \<Longrightarrow> conns_ok (heap c) \<Longrightarrow> refs_ok snap (heap c) \<Longrightarrow>
   \<forall>i \<in> set order. i < length snap \<Longrightarrow> accounted d b (heap c) (heap c') \<and> resends_same c c'"
proof (induction env d scores elig snap order c rule: send_ranks.induct)
  case (1 env d scores elig snap c)
  then show ?case by (simp add: accounted_def)
next
  case (2 env d scores elig snap idx order c)
  show ?case
  proof (cases "skip_conn elig (heap c) (snap ! idx) (scores ! idx)")
    case True
    then show ?thesis using 2 by simp
  next
    case False
    then obtain b1 c1 where a: "send_attempt (env idx) d idx (snap ! idx) c = Some (Inr (b1, c1))"
      using "2.prems"(1) by (auto split: option.splits sum.splits)
    have "i < length (heap c)" if "snap ! idx = Some i" for i
      using "2.prems"(3,4) that nth_mem [of idx snap] by (auto simp: refs_ok_def)
    then have acc: "accounted d b1 (heap c) (heap c1) \<and> resends_same c c1" by (rule send_attempt_accounted [OF a])
    show ?thesis
    proof (cases b1)
      case True
      then show ?thesis using "2.prems"(1) False a acc by simp
    next
      case b1: False
      then have k: "heap_kept d (heap c) (heap c1)" using acc by (simp add: accounted_def)
      have "send_ranks env d scores elig snap order c1 = Some (Inr (b, c'))" using "2.prems"(1) False a b1 by simp
      then have "accounted d b (heap c1) (heap c') \<and> resends_same c1 c'"
        using "2.IH"(2) [OF False a refl refl b1] conns_ok_kept [OF "2.prems"(2) k] refs_ok_kept [OF "2.prems"(3) k] "2.prems"(4) by simp
      then show ?thesis using accounted_after [OF "2.prems"(2) k] acc resends_same_trans by blast
    qed
  qed
qed

lemma refresh_kept: "heap_kept d h (snd (refreshConnRuntimeInfo re idx conns (t, h)))"
  by (auto simp: refreshConnRuntimeInfo_def intro!: heap_kept_conn_upd)

lemma rate_all_kept: "rate_all re is conns stats (t, h) = Inr (scores, t', h') \<Longrightarrow> heap_kept d h h'"
proof (induction "is" arbitrary: t h scores)
  case (Cons i "is")
  obtain s t1 h1 scores' where r: "rateConnection (re i) i conns stats (t, h) = Inr (s, t1, h1)"
    and rest: "rate_all re is conns stats (t1, h1) = Inr (scores', t', h')"
    using Cons.prems by (auto simp: and_then_eq_Inr)
  have "h1 = h \<or> h1 = snd (refreshConnRuntimeInfo (re i) i conns (t, h))"
    using r by (auto simp: rateConnection_def Let_def and_then_eq_Inr split_beta split: if_splits)
  then have "heap_kept d h h1" using refresh_kept by auto
  then show ?case using Cons.IH [OF rest] heap_kept_trans by blast
qed simp

lemma set_connection_order: "set (connection_order scores rr) \<subseteq> {0..<length scores}"
proof -
  have "set (rotate k (take n xs) @ drop n xs) = set xs" for k n and xs :: "nat list"
    by (metis append_take_drop_id set_append set_rotate)
  then show ?thesis by (auto simp: connection_order_def Let_def)
qed

section \<open>The data packet\<close>

text \<open>The fate of a data packet that the send thread took from the queue.\<close>

lemma data_packet_fate:
  assumes "send_data_packet e d t c = Some (Inr (r, c'))"
    and "conns_ok (heap c)" and "refs_ok (st_connections t) (heap c)"
    and "st_connections t \<noteq> []" and "st_connections t ! 0 \<noteq> None"
  shows "r = PacketSent d \<and> (\<exists>i. written_on d (heap c) (heap c') i) \<or>
    r = PacketRetained d \<and> heap_kept d (heap c) (heap c') \<and> (\<exists>t'. sendThread c' = Some t' \<and> st_pending t' = Some d)"
proof -
  let ?n = "if length (st_connections t) > VC_FIRST_RESEND_CONN_INDEX then VC_FIRST_RESEND_CONN_INDEX else length (st_connections t)"
  have n: "?n \<noteq> 0" using assms(4) by (simp add: VC_FIRST_RESEND_CONN_INDEX_def VC_TCP_CONNECTIONS_def VC_RESEND_CONN_COUNT_def)
  obtain scores t1 h1 where ra: "rate_all (se_rate e) [0..<?n] (st_connections t) (connSendStats c) (t, heap c) = Inr (scores, t1, h1)"
    using assms(1,5) n
    by (cases "rate_all (se_rate e) [0..<?n] (st_connections t) (connSendStats c) (t, heap c)") (auto simp: send_data_packet_def Let_def)
  let ?t2 = "t1\<lparr>st_roundRobinStart := (st_roundRobinStart t1 + 1) mod ?n\<rparr>"
  let ?ca = "c\<lparr>heap := h1, sendThread := Some ?t2\<rparr>"
  obtain sent c1 where sr: "send_ranks (se_data e) d scores (best_score scores \<ge> 0) (st_connections t)
      (connection_order scores (st_roundRobinStart t1)) ?ca = Some (Inr (sent, c1))"
    and r: "r = (if sent then PacketSent d else PacketRetained d)"
    and c': "c' = (if sent then c1 else upd_st (\<lambda>t. t\<lparr>st_pending := Some d\<rparr>) c1)"
    using assms(1,5) n ra
    by (auto simp: send_data_packet_def Let_def split: option.splits sum.splits if_splits)
  have k: "heap_kept d (heap c) h1" by (rule rate_all_kept [OF ra])
  have "length scores = ?n" using rate_all_range [OF ra] by simp
  then have "\<forall>i \<in> set (connection_order scores (st_roundRobinStart t1)). i < length (st_connections t)"
    using set_connection_order [of scores "st_roundRobinStart t1"] by (fastforce split: if_splits)
  then have acc: "accounted d sent h1 (heap c1)" "resends_same ?ca c1"
    using send_ranks_accounted [OF sr] conns_ok_kept [OF assms(2) k] refs_ok_kept [OF assms(3) k] by auto
  from acc(1) have "accounted d sent (heap c) (heap c1)" by (rule accounted_after [OF assms(2) k])
  with acc(2) show ?thesis by (auto simp: r c' accounted_def upd_st_def resends_same_def)
qed

text \<open>
  C11: a data packet that the send thread took from the queue (with at least one connection, the
  first slot filled) is either written whole at the end of exactly one connection's stream, or it is
  retained as the pending packet of the next iteration. Every other connection gains nothing, or
  gains an incomplete prefix and is closed.
\<close>

theorem packet_sent_or_retained:
  assumes "send_data_packet e d t c = Some (Inr (r, c'))"
    and "conns_ok (heap c)" and "refs_ok (st_connections t) (heap c)"
    and "st_connections t \<noteq> []" and "st_connections t ! 0 \<noteq> None"
  shows "r = PacketSent d \<and> (\<exists>i. written_on d (heap c) (heap c') i) \<or>
    r = PacketRetained d \<and> heap_kept d (heap c) (heap c') \<and> (\<exists>t'. sendThread c' = Some t' \<and> st_pending t' = Some d)"
  by (rule data_packet_fate [OF assms])

section \<open>The resend packet\<close>

lemma resends_same_refresh [simp]: "resends_same c (refresh_in re idx conns c)"
  by (cases "sendThread c") (simp_all add: refresh_in_def resends_same_def refreshConnRuntimeInfo_def split_beta)

lemma refresh_in_kept: "heap_kept d (heap c) (heap (refresh_in re idx conns c))"
  using refresh_kept by (cases "sendThread c") (simp_all add: refresh_in_def split_beta)

lemma resend_attempts_accounted:
  "resend_attempts re env d conns cnt rr atts k c = Some (b, k', c') \<Longrightarrow> conns_ok (heap c) \<Longrightarrow> refs_ok conns (heap c) \<Longrightarrow>
   0 < cnt \<Longrightarrow> VC_FIRST_RESEND_CONN_INDEX + cnt \<le> length conns \<Longrightarrow>
   accounted d b (heap c) (heap c') \<and> resends_same c c' \<and> k \<le> k'"
proof (induction atts arbitrary: k c)
  case Nil
  then show ?case by (simp add: accounted_def)
next
  case (Cons a atts)
  let ?idx = "VC_FIRST_RESEND_CONN_INDEX + (rr + a) mod cnt"
  let ?ca = "refresh_in (re ?idx) ?idx conns c"
  have idx: "?idx < length conns" using Cons.prems(4,5) mod_less_divisor [of cnt "rr + a"] by linarith
  have step: "accounted d b (heap c) (heap c') \<and> resends_same c c' \<and> k \<le> k'"
    if "resend_attempts re env d conns cnt rr atts j c1 = Some (b, k', c')" "heap_kept d (heap c) (heap c1)" "resends_same c c1" "k \<le> j" for j c1
  proof -
    have "accounted d b (heap c1) (heap c') \<and> resends_same c1 c' \<and> j \<le> k'"
      by (rule Cons.IH [OF that(1) conns_ok_kept [OF Cons.prems(2) that(2)] refs_ok_kept [OF Cons.prems(3) that(2)] Cons.prems(4,5)])
    then show ?thesis using accounted_after [OF Cons.prems(2) that(2)] that(3,4) resends_same_trans order_trans by blast
  qed
  show ?case
  proof (cases "conns ! ?idx")
    case None
    then show ?thesis using Cons.prems(1) step [of k c] by simp
  next
    case (Some i)
    have ka: "heap_kept d (heap c) (heap ?ca)" by (rule refresh_in_kept)
    have i: "i < length (heap ?ca)"
      using refs_ok_kept [OF Cons.prems(3) ka] nth_mem [OF idx] Some by (auto simp: refs_ok_def)
    show ?thesis
    proof (cases "\<not> alive (heap c) (Some i) \<or> backoff (heap ?ca) (Some i)")
      case True
      then show ?thesis using Cons.prems(1) Some step [of k c] step [of k ?ca, OF _ ka] by (auto simp: Let_def split: if_splits)
    next
      case False
      then obtain res conn where p: "send_packet_on (env ?idx) d (heap ?ca ! i) = Some (res, conn)"
        using Cons.prems(1) Some by (auto simp: Let_def split: option.splits)
      let ?cb = "?ca\<lparr>heap := (heap ?ca)[i := conn]\<rparr>"
      have acc: "accounted d (res = SentWhole) (heap c) (heap ?cb)"
        using accounted_after [OF Cons.prems(2) ka] send_packet_on_accounted [OF p i] by simp
      show ?thesis
      proof (cases "res = SentWhole")
        case True
        then show ?thesis using Cons.prems(1) Some False p acc by (auto simp: Let_def)
      next
        case fail: False
        then have kb: "heap_kept d (heap c) (heap ?cb)" using acc by (simp add: accounted_def)
        show ?thesis
          using Cons.prems(1) Some False p fail step [of "Suc k" ?cb, OF _ kb] step [of "Suc k" "disconnectCB ?cb", OF _ accounted_disconnectCB [OF kb]]
          by (cases res) (auto simp: Let_def split: if_splits)
      qed
    qed
  qed
qed

definition retries :: "u64 \<Rightarrow> chan \<Rightarrow> nat" where
  "retries m c = (case sendThread c of None \<Rightarrow> 0 | Some t \<Rightarrow> unat (retry_count m t))"

lemma retries_same: "resends_same c c' \<Longrightarrow> retries m c' = retries m c"
  by (cases "sendThread c"; cases "sendThread c'") (auto simp: retries_def resends_same_def retry_count_def)

lemma retries_upd [simp]:
  "retries m (upd_st (\<lambda>t. t\<lparr>st_resendRoundRobin := f t\<rparr>) c) = retries m c"
  "retries m (upd_st (\<lambda>t. t\<lparr>st_resendRetryCount := AList.delete m (st_resendRetryCount t)\<rparr>) c) = 0"
  "sendThread c \<noteq> None \<Longrightarrow> retries m (upd_st (\<lambda>t. t\<lparr>st_resendRetryCount := AList.update m k (st_resendRetryCount t)\<rparr>) c) = unat k"
  by (auto simp: retries_def upd_st_def retry_count_def delete_conv update_conv split: option.split)

text \<open>A packet that no resend connection took: re-enqueued or dropped.\<close>

lemma resend_failed_cases:
  assumes "sendThread c \<noteq> None" and "retries (pkt_messageId d) c \<le> MAX_RESEND_RETRIES"
  shows "let c' = resend_failed d k c; m = pkt_messageId d in heap c' = heap c \<and> sendThread c' \<noteq> None \<and>
     (bq_queue (resendQueue c') = bq_queue (resendQueue c) @ [d] \<and>
        (k = 0 \<and> retries m c' = retries m c \<or> 0 < k \<and> retries m c < MAX_RESEND_RETRIES \<and> retries m c' = Suc (retries m c)) \<or>
      bq_queue (resendQueue c') = bq_queue (resendQueue c) \<and> 0 < k \<and> retries m c = MAX_RESEND_RETRIES \<and> retries m c' = 0)"
proof -
  obtain t where t: "sendThread c = Some t" using assms(1) by auto
  let ?m = "pkt_messageId d"
  have r: "unat (retry_count ?m t) = retries ?m c" by (simp add: retries_def t)
  have up: "unat (retry_count ?m t + 1) = Suc (retries ?m c)" if "retries ?m c < MAX_RESEND_RETRIES"
    using that r by (simp add: MAX_RESEND_RETRIES_def unat_word_ariths)
  show ?thesis
  proof (cases "k > 0 \<and> retries ?m c \<ge> MAX_RESEND_RETRIES")
    case True
    then show ?thesis using assms(2) r t
      by (simp add: resend_failed_def Let_def) (simp add: upd_st_def retries_def retry_count_def delete_conv)
  next
    case False
    then show ?thesis using up r t
      by (auto simp: resend_failed_def Let_def upd_st_def bq_enqueue_def retries_def retry_count_def update_conv split: option.splits)
  qed
qed


section \<open>Concrete runs\<close>

lemma ready_chan_ok:
  "conns_ok (heap ready_chan)" "refs_ok [Some 0, Some 1] (heap ready_chan)"
  "sendThread ready_chan = Some ((TcpVCSendThread_init [Some 0, Some 1] 0)\<lparr>st_thr := \<lparr>th_running = True, th_joinable = True\<rparr>\<rparr>)"
  by (simp_all add: conns_ok_def refs_ok_def ready_chan_def TcpVirtualChannel_init_def conn_ok_ops)

lemma ready_data_packet:
  "case send_data_packet easy_env (VCDataPacket_bytes 0 [65]) (the (sendThread ready_chan)) ready_chan of
     Some (Inr (PacketSent d, c')) \<Rightarrow> True | _ \<Rightarrow> False"
  by (simp add: ready_chan_def easy_env_def TcpVirtualChannel_init_def
      TcpVCSendThread_init_def bq_enqueue_def BlockingQueue_init_def upd_st_def send_data_packet_def
      VC_FIRST_RESEND_CONN_INDEX_def VC_TCP_CONNECTIONS_def VC_RESEND_CONN_COUNT_def numeral_2_eq_2 upt_rec)
    (simp add: rateConnection_def refreshConnRuntimeInfo_def alive_def TcpConnection_init_def RuntimeInfo_init_def rate_score_def
      TCP_RUNTIME_REFRESH_MS_def ConnSendStats_init_def ms_def Let_def wrap_i32_def checked_i32_def in_i32_def connection_order_def
      best_score_def skip_conn_def send_attempt_def diagMarkSendStart_def diagMarkSendEnd_def send_packet_on_def first_answer_def
      SendTcpDirect_def note_sent_def VCDataPacket_bytes_def)

theorem packet_sent_or_retained_witness:
  "\<exists>r c'. send_data_packet easy_env (VCDataPacket_bytes 0 [65]) (the (sendThread ready_chan)) ready_chan = Some (Inr (r, c')) \<and>
     (\<exists>i. written_on (VCDataPacket_bytes 0 [65]) (heap ready_chan) (heap c') i)"
proof -
  obtain d c' where c': "send_data_packet easy_env (VCDataPacket_bytes 0 [65]) (the (sendThread ready_chan)) ready_chan = Some (Inr (PacketSent d, c'))"
    using sent_caseD [OF ready_data_packet] by blast
  have "st_connections (the (sendThread ready_chan)) = [Some 0, Some 1]" by (simp add: ready_chan_ok TcpVCSendThread_init_def)
  then show ?thesis using packet_sent_or_retained [OF c'] ready_chan_ok(1,2) c' by auto
qed

text \<open>A channel with 25 connections, the last one the only resend connection.\<close>

definition wide_chan :: chan where
  "wide_chan = (TcpVirtualChannel_init [7] 0)\<lparr>opened := True,
     sendThread := Some (TcpVCSendThread_init (replicate 24 None @ [Some 0]) 0)\<rparr>"

lemma wide_chan_resends:
  "sendOnResendConn (se_resend_rate easy_env 0) (se_resend easy_env 0) (VCDataPacket_bytes 0 [65]) (replicate 24 None @ [Some 0]) wide_chan \<noteq> None"
  by (simp add: sendOnResendConn_def VC_FIRST_RESEND_CONN_INDEX_def VC_TCP_CONNECTIONS_def VC_RESEND_CONN_COUNT_def upt_rec easy_env_def
      nth_append send_packet_on_def Let_def SendTcpDirect_def first_answer_def VCDataPacket_bytes_def socket_codes split: option.split)


end
