(* ===== verification/Io_Run.thy ===== *)
theory Io_Run
  imports Channel_Props
begin

text \<open>
  \<^verbatim>\<open>TcpVCIoThread::run\<close> (\<^verbatim>\<open>src/src/common/TcpVCIoThread.cpp\<close>): one iteration of the receive thread on the
  channel. It refreshes the cached snapshot of the connections, resets the read buffers of slots whose
  descriptor changed, polls, and reads from every ready connection; the callbacks that \<^verbatim>\<open>open()\<close>
  installed run on the channel. What \<^verbatim>\<open>poll\<close> and \<^verbatim>\<open>recv\<close> answer and the clock readings are inputs.
\<close>

section \<open>One iteration\<close>

record io_env =
  ie_ready :: int
  ie_revents :: "nat \<Rightarrow> bool"
  ie_answers :: "nat \<Rightarrow> (errno + bytes) list"
  ie_now :: time
  ie_nowMs :: int

text \<open>The snapshot is copied only when a replacement has bumped the generation.\<close>

definition io_refresh :: "io_thread \<Rightarrow> io_thread" where
  "io_refresh t = (if io_connGeneration t \<noteq> io_cachedGen t
     then t\<lparr>io_snapshot := io_connections t, io_cachedGen := io_connGeneration t\<rparr> else t)"

definition curr_fd :: "conn_heap \<Rightarrow> conn_ref \<Rightarrow> int" where
  "curr_fd h r = (if alive h r then fd_of h r else -1)"

definition io_sync_slot :: "conn_heap \<Rightarrow> nat \<Rightarrow> io_thread \<Rightarrow> io_thread" where
  "io_sync_slot h i t =
     (let currFd = curr_fd h (io_snapshot t ! i)
      in if currFd \<noteq> io_prevFds t ! i
         then t\<lparr>io_readBuffers := (io_readBuffers t)[i := empty_ReadBuffer], io_prevFds := (io_prevFds t)[i := currFd]\<rparr>
         else t)"

definition io_sync :: "conn_heap \<Rightarrow> io_thread \<Rightarrow> io_thread" where
  "io_sync h t = fold (io_sync_slot h) [0..<length (io_prevFds t)] t"

text \<open>The callbacks; \<open>r\<close> is the connection that is being read.\<close>

definition io_dispatch :: "io_env \<Rightarrow> conn_ref \<Rightarrow> io_event \<Rightarrow> chan \<Rightarrow> chan outcome" where
  "io_dispatch e r ev c =
     (case ev of
        DataCallback messageId data i \<Rightarrow> Inr (c\<lparr>ch_rx := processReceivedData messageId data i (ch_rx c)\<rparr>)
      | ResendRequestCallback messageId \<Rightarrow> processResendRequest (ie_nowMs e) messageId c
      | MissingNotifyCallback missingIds \<Rightarrow> processMissingNotify (ie_now e) (ie_nowMs e) missingIds c
      | ConnectionClosed \<Rightarrow> Inr (disconnectCB (c\<lparr>heap := disconnect_ref r (heap c)\<rparr>)))"

fun io_dispatch_all :: "io_env \<Rightarrow> conn_ref \<Rightarrow> io_event list \<Rightarrow> chan \<Rightarrow> chan outcome" where
  "io_dispatch_all e r [] c = Inr c"
| "io_dispatch_all e r (ev # evs) c = and_then (io_dispatch e r ev c) (io_dispatch_all e r evs)"

definition upd_io :: "(io_thread \<Rightarrow> io_thread) \<Rightarrow> chan \<Rightarrow> chan" where
  "upd_io f c = c\<lparr>ioThread := map_option f (ioThread c)\<rparr>"

text \<open>\<^verbatim>\<open>readFromConnection\<close> on the slot \<open>i\<close>, whose snapshot entry is \<open>r\<close>.\<close>

definition io_read_slot :: "io_env \<Rightarrow> nat \<Rightarrow> conn_ref \<Rightarrow> io_thread \<Rightarrow> chan \<Rightarrow> chan outcome" where
  "io_read_slot e i r t c =
     (let (evs, rb) = readFromConnection (alive (heap c) r) (ie_answers e i) (int i) (io_readBuffers t ! i)
      in io_dispatch_all e r evs (upd_io (\<lambda>t. t\<lparr>io_readBuffers := (io_readBuffers t)[i := rb]\<rparr>) c))"

text \<open>The loop over the poll results; \<open>pollfds\<close> are the descriptors that were polled. It ends early when the thread was stopped.\<close>

fun io_read_slots :: "io_env \<Rightarrow> conn_ref list \<Rightarrow> int list \<Rightarrow> nat list \<Rightarrow> chan \<Rightarrow> chan outcome" where
  "io_read_slots e snap pollfds [] c = Inr c"
| "io_read_slots e snap pollfds (i # is) c =
     (if pollfds ! i = -1 \<or> \<not> ie_revents e i then io_read_slots e snap pollfds is c
      else case ioThread c of
             None \<Rightarrow> Inr c
           | Some t \<Rightarrow> and_then (io_read_slot e i (snap ! i) t c) (\<lambda>c1.
               case ioThread c1 of
                 None \<Rightarrow> Inr c1
               | Some t1 \<Rightarrow> if th_running (io_thr t1) then io_read_slots e snap pollfds is c1 else Inr c1))"

definition io_iteration :: "io_env \<Rightarrow> chan \<Rightarrow> chan outcome" where
  "io_iteration e c =
     (case ioThread c of
        None \<Rightarrow> Inr c
      | Some t0 \<Rightarrow>
          if \<not> th_running (io_thr t0) then Inr c
          else let t = io_sync (heap c) (io_refresh t0); c1 = c\<lparr>ioThread := Some t\<rparr>
               in if ie_ready e < 0 then Inr c1
                  else io_read_slots e (io_snapshot t) (io_prevFds t) [0..<length (io_prevFds t)] c1)"

section \<open>Synchronising with replaced connections\<close>

definition io_ok :: "io_thread \<Rightarrow> bool" where
  "io_ok t \<longleftrightarrow> length (io_readBuffers t) = length (io_connections t) \<and> length (io_prevFds t) = length (io_connections t)"

lemma io_ok_ops [inv_intros]:
  "io_ok (TcpVCIoThread_init conns)"
  "io_ok t \<Longrightarrow> io_ok (io_replaceConnection slot conn t)"
  "io_ok t \<Longrightarrow> io_ok (io_refresh t)"
  "io_ok t \<Longrightarrow> io_ok (io_sync_slot h i t)"
  by (auto simp: io_ok_def TcpVCIoThread_init_def io_replaceConnection_def io_refresh_def io_sync_slot_def Let_def)

lemma io_sync_slot_frame [simp]:
  "io_snapshot (io_sync_slot h i t) = io_snapshot t" "io_connections (io_sync_slot h i t) = io_connections t"
  "io_connGeneration (io_sync_slot h i t) = io_connGeneration t" "io_cachedGen (io_sync_slot h i t) = io_cachedGen t"
  "io_thr (io_sync_slot h i t) = io_thr t" "length (io_prevFds (io_sync_slot h i t)) = length (io_prevFds t)"
  "length (io_readBuffers (io_sync_slot h i t)) = length (io_readBuffers t)"
  by (simp_all add: io_sync_slot_def Let_def)

text \<open>The effect of the loop on one slot: its buffer is kept exactly when the descriptor is the recorded one.\<close>

lemma io_sync_prefix:
  assumes "length (io_readBuffers t) = length (io_prevFds t)" and "n \<le> length (io_prevFds t)"
  shows "let t' = fold (io_sync_slot h) [0..<n] t in
     io_snapshot t' = io_snapshot t \<and> length (io_prevFds t') = length (io_prevFds t) \<and>
     length (io_readBuffers t') = length (io_readBuffers t) \<and> io_thr t' = io_thr t \<and>
     (\<forall>i < length (io_prevFds t). let fd = curr_fd h (io_snapshot t ! i) in
        io_prevFds t' ! i = (if i < n then fd else io_prevFds t ! i) \<and>
        io_readBuffers t' ! i = (if i < n \<and> fd \<noteq> io_prevFds t ! i then empty_ReadBuffer else io_readBuffers t ! i))"
  using assms(2)
proof (induction n)
  case 0
  then show ?case by (simp add: Let_def)
next
  case (Suc n)
  define t1 where "t1 = fold (io_sync_slot h) [0..<n] t"
  have eq: "fold (io_sync_slot h) [0..<Suc n] t = io_sync_slot h n t1" by (simp add: t1_def)
  show ?case using Suc assms(1) unfolding eq t1_def [symmetric]
    by (auto simp: io_sync_slot_def Let_def nth_list_update less_Suc_eq)
qed

lemma io_sync_slotwise:
  assumes "length (io_readBuffers t) = length (io_prevFds t)" and "i < length (io_prevFds t)"
  shows "io_prevFds (io_sync h t) ! i = curr_fd h (io_snapshot t ! i)"
    and "io_readBuffers (io_sync h t) ! i =
           (if curr_fd h (io_snapshot t ! i) = io_prevFds t ! i then io_readBuffers t ! i else empty_ReadBuffer)"
  using io_sync_prefix [OF assms(1) order_refl, of h] assms(2) by (simp_all add: io_sync_def Let_def)

lemma io_sync_frame:
  assumes "length (io_readBuffers t) = length (io_prevFds t)"
  shows "io_snapshot (io_sync h t) = io_snapshot t" "length (io_prevFds (io_sync h t)) = length (io_prevFds t)"
    "length (io_readBuffers (io_sync h t)) = length (io_readBuffers t)" "io_thr (io_sync h t) = io_thr t"
  using io_sync_prefix [OF assms order_refl, of h] by (simp_all add: io_sync_def Let_def)

text \<open>
  When a slot's connection is replaced, the next iteration of the IO thread polls the new
  descriptor and reads the new stream into an empty buffer, unless the kernel gave the new connection
  the descriptor number that the thread had recorded for the old one: then the octets left over from
  the old stream stay in front of the new one.
\<close>

theorem replacement_resets_buffer:
  assumes "ioThread c = Some t" and "io_ok t" and "length (connections c) = length (io_connections t)"
    and "slot < length (connections c)" and "io_cachedGen t \<noteq> io_connGeneration t + 1" and "newFd \<noteq> -1"
  shows "\<exists>t'. ioThread (replaceConnection (int slot) newFd now c) = Some t' \<and>
    (let t2 = io_sync (heap (replaceConnection (int slot) newFd now c)) (io_refresh t') in
       io_snapshot t2 ! slot = connections (replaceConnection (int slot) newFd now c) ! slot \<and>
       io_prevFds t2 ! slot = newFd \<and>
       io_readBuffers t2 ! slot = (if newFd = io_prevFds t ! slot then io_readBuffers t ! slot else empty_ReadBuffer))"
proof -
  let ?c = "replaceConnection (int slot) newFd now c" and ?r = "Some (length (heap c))"
  let ?t = "io_replaceConnection (int slot) ?r t"
  have c: "heap ?c = heap c @ [TcpConnection_init newFd]" "connections ?c = (connections c)[slot := ?r]" "ioThread ?c = Some ?t"
    using assms(1,4) by (simp_all add: replaceConnection_def Let_def)
  have t: "io_refresh ?t = t\<lparr>io_connections := (io_connections t)[slot := ?r], io_connGeneration := io_connGeneration t + 1,
      io_snapshot := (io_connections t)[slot := ?r], io_cachedGen := io_connGeneration t + 1\<rparr>"
    using assms(3,4,5) by (simp add: io_refresh_def io_replaceConnection_def)
  have fd: "curr_fd (heap ?c) ?r = newFd"
    by (simp add: c curr_fd_def alive_def fd_of_def nth_append TcpConnection_init_def)
  have l: "length (io_readBuffers (io_refresh ?t)) = length (io_prevFds (io_refresh ?t))" "slot < length (io_prevFds (io_refresh ?t))"
    using assms(2,3,4) by (simp_all add: t io_ok_def)
  have "io_snapshot (io_refresh ?t) ! slot = ?r" using assms(3,4) by (simp add: t)
  with io_sync_slotwise [OF l, of "heap ?c"] io_sync_frame(1) [OF l(1), of "heap ?c"] fd assms(3,4)
  show ?thesis by (simp add: c t Let_def)
qed

text \<open>A channel whose IO thread holds three octets of an unfinished packet of slot 1.\<close>

definition halfread_chan :: chan where
  "halfread_chan = example_chan\<lparr>connections := [Some 0, Some 1], heap := map TcpConnection_init [7, 8],
     ioThread := Some ((TcpVCIoThread_init [Some 0, Some 1])\<lparr>io_readBuffers := [empty_ReadBuffer, \<lparr>rb_data = [0, 5, 0], rb_readOffset = 0\<rparr>],
        io_prevFds := [7, 8]\<rparr>)\<rparr>"

theorem replacement_resets_buffer_witness:
  "(\<exists>t'. ioThread (replaceConnection 1 9 0 halfread_chan) = Some t' \<and>
     io_readBuffers (io_sync (heap (replaceConnection 1 9 0 halfread_chan)) (io_refresh t')) ! 1 = empty_ReadBuffer) \<and>
   (\<exists>t'. ioThread (replaceConnection 1 8 0 halfread_chan) = Some t' \<and>
     rb_data (io_readBuffers (io_sync (heap (replaceConnection 1 8 0 halfread_chan)) (io_refresh t')) ! 1) = [0, 5, 0])"
proof -
  let ?t = "the (ioThread halfread_chan)"
  have h: "ioThread halfread_chan = Some ?t" "io_ok ?t" "length (connections halfread_chan) = length (io_connections ?t)"
    "1 < length (connections halfread_chan)" "io_cachedGen ?t \<noteq> io_connGeneration ?t + 1"
    by (simp_all add: halfread_chan_def io_ok_def TcpVCIoThread_init_def)
  show ?thesis
    using replacement_resets_buffer [OF h, of 9 0] replacement_resets_buffer [OF h, of 8 0]
    by (auto simp: Let_def halfread_chan_def)
qed

end
