(* ===== verification/Sender_System.thy ===== *)
theory Sender_System
  imports Send_Delivery Channel_Resend Io_Run
begin

text \<open>
  The sending half of a channel as a transition system: the application's \<^verbatim>\<open>send\<close>, iterations of the
  send thread, the handlers of resend requests and missing notifications, the notifications of the
  channel's own reorder thread, lost and replaced connections, and \<^verbatim>\<open>close\<close>, in any order. In every
  reachable state each connection's stream consists of whole packets that carry accepted payloads
  under their numbers.
\<close>

section \<open>Steps\<close>

text \<open>
  The second component lists the payloads that \<^verbatim>\<open>send\<close> accepted so far. The last step stands for
  whatever the receiving half does to its own state, and for the setters of callbacks.
\<close>

inductive sstep :: "chan \<times> bytes list \<Rightarrow> chan \<times> bytes list \<Rightarrow> bool" where
  Send: "vc_send (Some d) c = Inr c' \<Longrightarrow> Suc (length ds) < 2 ^ 64 \<Longrightarrow> sstep (c, ds) (c', if sendable d c then ds @ [d] else ds)"
| Iterate: "send_iteration e c = Some (Inr (r, c')) \<Longrightarrow> sstep (c, ds) (c', ds)"
| ResendRequest: "processResendRequest nowMs m c = Inr c' \<Longrightarrow> sstep (c, ds) (c', ds)"
| MissingNotify: "processMissingNotify now nowMs ids c = Inr c' \<Longrightarrow> sstep (c, ds) (c', ds)"
| OwnNotify: "ids \<noteq> [] \<Longrightarrow> sstep (c, ds) (default_missing_notify ids c, ds)"
| Lost: "sstep (c, ds) (disconnectCB (c\<lparr>heap := disconnect_ref r (heap c)\<rparr>), ds)"
| Replace: "newFd \<noteq> -1 \<Longrightarrow> sstep (c, ds) (replaceConnection slot newFd now c, ds)"
| Close: "vc_close who c = Inr c' \<Longrightarrow> sstep (c, ds) (c', ds)"
| Receive: "sstep (c, ds) (c\<lparr>ch_rx := r, hasDisconnectCallback := b\<rparr>, ds)"

inductive sreach :: "chan \<times> bytes list \<Rightarrow> bool" where
  init: "fds \<noteq> [] \<Longrightarrow> -1 \<notin> set fds \<Longrightarrow> vc_open now (TcpVirtualChannel_init fds now') = Inr c \<Longrightarrow> sreach (c, [])"
| step: "sreach s \<Longrightarrow> sstep s s' \<Longrightarrow> sreach s'"

section \<open>What the send thread leaves alone\<close>

definition app_same :: "chan \<Rightarrow> chan \<Rightarrow> bool" where
  "app_same c c' \<longleftrightarrow> sentDataCache c' = sentDataCache c \<and> lastSendMessageId c' = lastSendMessageId c"

lemma app_same_refl [simp]: "app_same c c"
  by (simp add: app_same_def)

lemma app_same_trans: "app_same a b \<Longrightarrow> app_same b c \<Longrightarrow> app_same a c"
  by (simp add: app_same_def)

lemma app_same_simps [simp]:
  "app_same c (c1\<lparr>heap := h\<rparr>) = app_same c c1"
  "app_same c (c1\<lparr>messageTracker := m\<rparr>) = app_same c c1"
  "app_same c (c1\<lparr>sendThread := st\<rparr>) = app_same c c1"
  "app_same c (c1\<lparr>sendQueue := q\<rparr>) = app_same c c1"
  "app_same c (c1\<lparr>resendQueue := q\<rparr>) = app_same c c1"
  "app_same (c\<lparr>resendQueue := q\<rparr>) c1 = app_same c c1"
  "app_same (c\<lparr>heap := h, sendThread := st\<rparr>) c1 = app_same c c1"
  "app_same (c\<lparr>sendQueue := q\<rparr>) c1 = app_same c c1"
  "app_same (upd_st f c) c1 = app_same c c1"
  "app_same c (bump_reenqueue idx c1) = app_same c c1"
  "app_same c (note_sent idx m' t c1) = app_same c c1"
  "app_same c (disconnectCB c1) = app_same c c1"
  "app_same c (upd_st f c1) = app_same c c1"
  by (simp_all add: app_same_def bump_reenqueue_def note_sent_def disconnectCB_def disconnect_all_def upd_st_def Let_def)

lemma app_same_refresh [simp]: "app_same c (refresh_in re idx conns c)"
  by (cases "sendThread c") (simp_all add: refresh_in_def app_same_def split_beta)

lemma send_attempt_app: "send_attempt a d idx r c = Some (Inr (b, c')) \<Longrightarrow> app_same c c'"
  by (auto simp: send_attempt_def Let_def and_then_eq_Inr split: option.splits send_result.splits if_splits)

lemma send_ranks_app: "send_ranks env d scores elig snap order c = Some (Inr (b, c')) \<Longrightarrow> app_same c c'"
proof (induction env d scores elig snap order c rule: send_ranks.induct)
  case (2 env d scores elig snap idx order c)
  then show ?case
    by (auto split: if_splits option.splits sum.splits dest: send_attempt_app intro: app_same_trans)
qed simp

lemma send_data_packet_app: "send_data_packet e d t c = Some (Inr (r, c')) \<Longrightarrow> app_same c c'"
  by (auto simp: send_data_packet_def Let_def split: option.splits sum.splits if_splits dest!: send_ranks_app)

lemma resend_attempts_app: "resend_attempts re env d conns cnt rr atts k c = Some (b, k', c') \<Longrightarrow> app_same c c'"
proof (induction atts arbitrary: k c)
  case (Cons a atts)
  let ?idx = "VC_FIRST_RESEND_CONN_INDEX + (rr + a) mod cnt"
  let ?ca = "refresh_in (re ?idx) ?idx conns c"
  have step: "app_same c c'" if "resend_attempts re env d conns cnt rr atts j c1 = Some (b, k', c')" "app_same c c1" for j c1
    using Cons.IH [OF that(1)] that(2) app_same_trans by blast
  show ?case using Cons.prems
    by (auto simp: Let_def split: option.splits if_splits send_result.splits dest!: step)
qed simp

lemma app_same_resend_failed [simp]: "app_same c (resend_failed d k c1) = app_same c c1"
  by (simp add: resend_failed_def Let_def)

lemma sendOnResendConn_app: "sendOnResendConn re env d conns c = Some c' \<Longrightarrow> app_same c c'"
  by (auto simp: sendOnResendConn_def Let_def split: if_splits option.splits bool.splits dest!: resend_attempts_app)

lemma resend_batch_app: "resend_batch n k e c = Some c' \<Longrightarrow> app_same c c'"
proof (induction n k e c rule: resend_batch.induct)
  case (2 n k e c)
  show ?case
  proof (cases "bq_tryDequeue (resendQueue c)")
    case (Pair r q)
    then show ?thesis using 2
      by (auto split: option.splits dest!: sendOnResendConn_app intro: app_same_trans)
  qed
qed simp

lemma drain_resends_app: "drain_resends e c = Some c' \<Longrightarrow> app_same c c'"
  by (auto simp: drain_resends_def split: option.splits if_splits dest!: resend_batch_app)

lemma send_iteration_app:
  assumes "send_iteration e c = Some (Inr (r, c'))"
  shows "app_same c c'"
  using assms
  by (auto simp: send_iteration_def Let_def split_beta split: option.splits if_splits
      dest!: drain_resends_app send_data_packet_app intro: app_same_trans)

section \<open>Invariant\<close>

text \<open>The packets that may be on the wire when the payloads \<open>ds\<close> have been accepted.\<close>

definition data_packets :: "bytes list \<Rightarrow> bytes set" where
  "data_packets ds = (\<lambda>i. VCDataPacket_bytes (word_of_nat i) (ds ! i)) ` {..<length ds}"

definition notify_packets :: "bytes set" where
  "notify_packets = {VCMissingNotify_bytes ids | ids. 0 < length ids \<and> length ids \<le> VC_MAX_MISSING_IDS_PER_NOTIFY}"

definition wire_packets :: "bytes list \<Rightarrow> bytes set" where
  "wire_packets ds = data_packets ds \<union> notify_packets"

definition cache_in :: "bytes set \<Rightarrow> SentDataCache \<Rightarrow> bool" where
  "cache_in P sc \<longleftrightarrow> (\<forall>i < length (sdc_shards sc). \<forall>m p. map_of (sh_items (sdc_shards sc ! i)) m = Some p \<longrightarrow> p \<in> P)"

definition sinv :: "chan \<times> bytes list \<Rightarrow> bool" where
  "sinv = (\<lambda>(c, ds). chan_framed (wire_packets ds) c \<and> cache_ok (sentDataCache c) \<and> cache_in (data_packets ds) (sentDataCache c) \<and>
     lastSendMessageId c = word_of_nat (length ds) \<and> length ds < 2 ^ 64 \<and>
     (\<forall>d \<in> set ds. 0 < length d \<and> length d \<le> VC_MAX_DATA_PAYLOAD_SIZE))"

lemma framed_mono: "framed P c \<Longrightarrow> P \<subseteq> Q \<Longrightarrow> framed Q c"
  unfolding framed_def by blast

lemma chan_framed_mono: "chan_framed P c \<Longrightarrow> P \<subseteq> Q \<Longrightarrow> chan_framed Q c"
  unfolding chan_framed_def heap_framed_def using framed_mono by blast

lemma data_packets_snoc: "data_packets (ds @ [d]) = insert (VCDataPacket_bytes (word_of_nat (length ds)) d) (data_packets ds)"
  by (simp add: data_packets_def lessThan_Suc nth_append cong: image_cong_simp)

lemma cache_in_mono: "cache_in P sc \<Longrightarrow> P \<subseteq> Q \<Longrightarrow> cache_in Q sc"
  by (auto simp: cache_in_def)

lemma cache_in_insert:
  assumes "cache_in P sc" and "p \<in> P" and "sdc_insert m p sc = Inr sc'"
  shows "cache_in P sc'"
  unfolding cache_in_def
proof (intro allI impI)
  fix i k x
  assume i: "i < length (sdc_shards sc')" and x: "map_of (sh_items (sdc_shards sc' ! i)) k = Some x"
  let ?j = "unat m mod length (sdc_shards sc)"
  have sc': "sdc_shards sc' = (sdc_shards sc)[?j := shard_insert (sdc_capacityPerConn sc) m p (sdc_shards sc ! ?j)]"
    using assms(3) by (auto simp: sdc_insert_def Let_def split: if_splits)
  show "x \<in> P"
  proof (cases "i = ?j")
    case True
    then show ?thesis using map_of_shard_insert [of "sdc_capacityPerConn sc" m p "sdc_shards sc ! ?j" k x] assms(1,2) i x
      by (auto simp: sc' cache_in_def)
  next
    case False
    then show ?thesis using assms(1) i x by (simp add: sc' cache_in_def)
  qed
qed

lemma cache_in_find: "cache_in P sc \<Longrightarrow> sdc_find m sc = Inr (Some p) \<Longrightarrow> p \<in> P"
  by (simp add: cache_in_def sdc_find_def Let_def split: if_splits) (metis length_greater_0_conv mod_less_divisor)

lemma cache_clear: "cache_ok sc \<Longrightarrow> cache_ok (sdc_clear sc)" "cache_in P (sdc_clear sc)"
  by (simp_all add: cache_ok_def cache_in_def sdc_clear_def empty_shard_def)

lemma framed_fresh: "fd \<noteq> -1 \<Longrightarrow> framed P (TcpConnection_init fd)"
  using conn_ok_ops(1) unfolding framed_def by (intro conjI exI [of _ "[]"]) (simp_all add: TcpConnection_init_def)

lemma sinv_init:
  assumes "fds \<noteq> []" and "-1 \<notin> set fds" and "vc_open now (TcpVirtualChannel_init fds now') = Inr c"
  shows "sinv (c, [])"
proof -
  have "heap_framed P (map TcpConnection_init fds)" for P
    using assms(2) by (auto simp: heap_framed_def intro!: framed_fresh)
  moreover have "cache_in P (SentDataCache_init n k)" for P n k
    by (simp add: cache_in_def SentDataCache_init_def empty_shard_def)
  moreover have "cache_ok (SentDataCache_init (length fds) 128)" using assms(1) by (simp add: cache_ok_init)
  ultimately show ?thesis using assms(3)
    by (auto simp: sinv_def vc_open_def TcpVirtualChannel_init_def Let_def and_then_eq_Inr chan_framed_def
        bq_setEnqueueNotifier_def BlockingQueue_init_def TcpVCSendThread_init_def)
qed

text \<open>Steps that change neither the cache nor the counter.\<close>

lemma sinv_transfer:
  "sinv (c, ds) \<Longrightarrow> app_same c c' \<Longrightarrow> chan_framed (wire_packets ds) c' \<Longrightarrow> sinv (c', ds)"
  by (simp add: sinv_def app_same_def)

lemma sinv_send:
  assumes inv: "sinv (c, ds)" and s: "vc_send (Some d) c = Inr c'" and len: "Suc (length ds) < 2 ^ 64"
  shows "sinv (c', if sendable d c then ds @ [d] else ds)"
proof (cases "sendable d c")
  case False
  then have "c' = c" using vc_send_reject [of "Some d" c] s by simp
  with False inv show ?thesis by simp
next
  case True
  let ?p = "VCDataPacket_bytes (lastSendMessageId c) d"
  have id: "lastSendMessageId c = word_of_nat (length ds)" and cok: "cache_ok (sentDataCache c)" using inv by (simp_all add: sinv_def)
  obtain c1 sc' where c1: "vc_send (Some d) c = Inr c1" "cache_ok sc'" "sdc_insert (lastSendMessageId c) ?p (sentDataCache c) = Inr sc'"
    "c1 = c\<lparr>lastSendMessageId := lastSendMessageId c + 1, sentDataCache := sc', sendQueue := bq_enqueue ?p (sendQueue c)\<rparr>"
    by (rule vc_send_accept [OF True cok])
  have c': "c' = c1" using s c1(1) by simp
  have mono: "data_packets ds \<subseteq> data_packets (ds @ [d])" "wire_packets ds \<subseteq> wire_packets (ds @ [d])"
    by (auto simp: wire_packets_def data_packets_snoc)
  have p: "?p \<in> data_packets (ds @ [d])" by (simp add: data_packets_snoc id)
  have "cache_in (data_packets (ds @ [d])) sc'"
    using cache_in_insert [OF cache_in_mono [OF _ mono(1)] p c1(3)] inv by (simp add: sinv_def)
  moreover have "chan_framed (wire_packets (ds @ [d])) c1"
    using chan_framed_mono [OF _ mono(2), of c] inv p by (auto simp: sinv_def c1(4) chan_framed_def wire_packets_def)
  moreover have "lastSendMessageId c + 1 = word_of_nat (length (ds @ [d]))" by (simp add: id)
  ultimately show ?thesis using True inv len c1(2) by (simp add: c' sinv_def) (simp add: c1(4) sendable_def)
qed

lemma call_resend_framed:
  assumes "chan_framed P c" and "VCDataPacket_bytes m data \<in> P"
  shows "chan_framed P (call_resend m data c) \<and> app_same c (call_resend m data c)"
  using assms by (cases "resendCallback c") (auto simp: call_resend_def chan_framed_def app_same_def)

lemma mark_tracked_framed:
  assumes "mark_tracked nowMs m c = Inr c'"
  shows "chan_framed P c' = chan_framed P c" "app_same c c'" "resendCallback c' = resendCallback c" "pendingResendIds c' = pendingResendIds c"
  using assms by (auto simp: mark_tracked_def and_then_eq_Inr chan_framed_def app_same_def split: option.splits if_splits)

text \<open>What resending puts on the queue: the packet that the cache holds under the id.\<close>

lemma cached_resend:
  assumes "sinv (c, ds)" and "sdc_find m (sentDataCache c) = Inr (Some packet)"
  shows "VCDataPacket_bytes m (take (pkt_dataLength packet) (pkt_data packet)) \<in> wire_packets ds"
proof -
  have cok: "cache_ok (sentDataCache c)" and cin: "cache_in (data_packets ds) (sentDataCache c)" using assms(1) by (simp_all add: sinv_def)
  obtain d where d: "packet = VCDataPacket_bytes m d" "length d \<le> VC_MAX_DATA_PAYLOAD_SIZE"
    by (rule cache_ok_find [OF cok, of m]) (use assms(2) in auto)
  show ?thesis using cache_in_find [OF cin assms(2)] unfolding d(1) resend_packet [OF d(2)] by (simp add: wire_packets_def)
qed

lemma sinv_resend:
  assumes inv: "sinv (c, ds)" and f: "sdc_find m (sentDataCache c) = Inr (Some packet)"
  shows "sinv (call_resend m (take (pkt_dataLength packet) (pkt_data packet)) c, ds)"
  using call_resend_framed [OF _ cached_resend [OF inv f], of c] inv sinv_transfer [OF inv] by (auto simp: sinv_def)

lemma sinv_mark:
  assumes "sinv (c, ds)" and "mark_tracked nowMs m c = Inr c'"
  shows "sinv (c', ds)"
  using sinv_transfer [OF assms(1) mark_tracked_framed(2) [OF assms(2)]] mark_tracked_framed(1) [OF assms(2)] assms(1)
  by (simp add: sinv_def)

lemma sinv_pending [simp]: "sinv (c\<lparr>pendingResendIds := x\<rparr>, ds) = sinv (c, ds)"
  by (simp add: sinv_def chan_framed_def)

lemma sinv_resend_request:
  assumes inv: "sinv (c, ds)" and r: "processResendRequest nowMs m c = Inr c'"
  shows "sinv (c', ds)"
proof -
  obtain c1 found where c1: "mark_tracked nowMs m c = Inr c1" "sdc_find m (sentDataCache c1) = Inr found"
    using r by (auto simp: processResendRequest_def and_then_eq_Inr)
  note i1 = sinv_mark [OF inv c1(1)]
  show ?thesis
  proof (cases found)
    case None
    then show ?thesis using r c1 i1 by (simp add: processResendRequest_def)
  next
    case (Some packet)
    then show ?thesis using r c1 i1 sinv_resend [OF i1] by (auto simp: processResendRequest_def split: if_splits)
  qed
qed

lemma sinv_missing_step:
  assumes inv: "sinv (c, ds)" and r: "missing_step now nowMs m c = Inr c'"
  shows "sinv (c', ds)"
proof -
  obtain c1 where c1: "mark_tracked nowMs m c = Inr c1" using r by (auto simp: missing_step_def and_then_eq_Inr)
  note i1 = sinv_mark [OF inv c1]
  show ?thesis using r i1 sinv_resend [OF i1]
    by (auto simp: missing_step_def c1 and_then_eq_Inr Let_def split: if_splits option.splits)
qed

lemma sinv_missing_loop: "missing_loop now nowMs ids c = Inr c' \<Longrightarrow> sinv (c, ds) \<Longrightarrow> sinv (c', ds)"
  by (induction ids arbitrary: c) (auto simp: and_then_eq_Inr dest: sinv_missing_step)

lemma sinv_own_notify:
  assumes "sinv (c, ds)" and "ids \<noteq> []"
  shows "sinv (default_missing_notify ids c, ds)"
proof -
  let ?ids = "take (min (length ids) VC_MAX_MISSING_IDS_PER_NOTIFY) ids"
  have "0 < length ?ids \<and> length ?ids \<le> VC_MAX_MISSING_IDS_PER_NOTIFY"
    using assms(2) by (simp add: VC_MAX_MISSING_IDS_PER_NOTIFY_def)
  then have "VCMissingNotify_bytes ?ids \<in> wire_packets ds" unfolding wire_packets_def notify_packets_def by blast
  then show ?thesis using assms(1)
    by (intro sinv_transfer [OF assms(1)]) (auto simp: default_missing_notify_def sinv_def chan_framed_def app_same_def)
qed

lemma sinv_replace:
  assumes inv: "sinv (c, ds)" and "newFd \<noteq> -1"
  shows "sinv (replaceConnection slot newFd now c, ds)"
proof (cases "slot < 0 \<or> nat slot \<ge> length (connections c)")
  case False
  let ?c' = "replaceConnection slot newFd now c"
  have "heap_framed (wire_packets ds) (heap c @ [TcpConnection_init newFd])"
    using inv framed_fresh [OF assms(2)] by (simp add: sinv_def chan_framed_def heap_framed_def)
  then have "chan_framed (wire_packets ds) ?c'"
    using False inv by (auto simp: replaceConnection_def Let_def sinv_def chan_framed_def st_replaceConnection_def split: if_splits)
  moreover have "app_same c ?c'" using False by (simp add: replaceConnection_def Let_def app_same_def)
  ultimately show ?thesis using sinv_transfer [OF inv] by blast
qed (use inv in \<open>auto simp: replaceConnection_def\<close>)

lemma close_threads_framed:
  assumes "close_threads who c = Inr c'" and "chan_framed P c"
  shows "chan_framed P c' \<and> app_same c c'"
  using assms by (auto simp: close_threads_def and_then_eq_Inr chan_framed_def app_same_def bq_setEnqueueNotifier_def split: option.splits)

lemma chan_framed_disconnect_all: "chan_framed P c \<Longrightarrow> chan_framed P (disconnect_all c)"
  by (simp add: disconnect_all_def chan_framed_def heap_framed_disconnects)

lemma sinv_close:
  assumes inv: "sinv (c, ds)" and "vc_close who c = Inr c'"
  shows "sinv (c', ds)"
proof -
  have f: "chan_framed (wire_packets ds) c" using inv by (simp add: sinv_def)
  obtain c1 where c1: "chan_framed (wire_packets ds) c1" "app_same c c1" "close_rest who c1 = Inr c'"
  proof (cases "opened c")
    case True
    let ?ca = "c\<lparr>opened := False, sendQueue := bq_cancelWait (sendQueue c), resendQueue := bq_cancelWait (resendQueue c)\<rparr>"
    obtain cb where cb: "close_threads who ?ca = Inr cb" "close_rest who (disconnect_all cb) = Inr c'"
      using assms(2) True by (auto simp: vc_close_def Let_def and_then_eq_Inr)
    have "chan_framed (wire_packets ds) ?ca" using f by (simp add: chan_framed_def bq_cancelWait_def)
    from close_threads_framed [OF cb(1) this] have "chan_framed (wire_packets ds) cb" "app_same ?ca cb" by auto
    then show ?thesis using cb(2)
      by (intro that [of "disconnect_all cb"]) (auto simp: chan_framed_disconnect_all, auto simp: app_same_def disconnect_all_def)
  next
    case False
    then show ?thesis using assms(2) f
      by (intro that [of "c\<lparr>opened := False\<rparr>"]) (simp_all add: vc_close_def Let_def chan_framed_def app_same_def)
  qed
  have i1: "sinv (c1, ds)" by (rule sinv_transfer [OF inv c1(2,1)])
  have "chan_framed (wire_packets ds) c' \<and> sentDataCache c' = sdc_clear (sentDataCache c1) \<and> lastSendMessageId c' = lastSendMessageId c1"
    using c1(1,3) by (auto simp: close_rest_def Let_def and_then_eq_Inr chan_framed_def split: if_splits)
  then show ?thesis using i1 cache_clear by (simp add: sinv_def)
qed

lemma sinv_step: "sstep s s' \<Longrightarrow> sinv s \<Longrightarrow> sinv s'"
proof (induction rule: sstep.induct)
  case (Send d c c' ds)
  show ?case by (rule sinv_send [OF Send(3,1,2)])
next
  case (Iterate e c r c' ds)
  then have "chan_framed (wire_packets ds) c'" by (auto simp: sinv_def intro: send_iteration_framed)
  then show ?case using Iterate send_iteration_app sinv_transfer by blast
next
  case (MissingNotify now nowMs ids c c' ds)
  then show ?case by (auto simp: processMissingNotify_def intro: sinv_missing_loop)
next
  case (Lost c ds r)
  let ?c = "disconnectCB (c\<lparr>heap := disconnect_ref r (heap c)\<rparr>)"
  have "chan_framed (wire_packets ds) ?c"
    using Lost by (intro chan_framed_disconnectCB chan_framed_heap heap_framed_disconnect_ref) (auto simp: sinv_def chan_framed_def)
  moreover have "app_same c ?c" by simp
  ultimately show ?case using Lost sinv_transfer by blast
next
  case (Receive c ds r b)
  then show ?case by (simp add: sinv_def chan_framed_def)
qed (auto intro: sinv_resend_request sinv_own_notify sinv_replace sinv_close)

lemma sinv_reach: "sreach s \<Longrightarrow> sinv s"
  by (induction rule: sreach.induct) (auto intro: sinv_init sinv_step)

section \<open>What the streams carry\<close>

text \<open>A packet that carries an accepted payload under its number, or a notification.\<close>

fun sent_packet :: "bytes list \<Rightarrow> vc_packet \<Rightarrow> bool" where
  "sent_packet ds (PData m d) \<longleftrightarrow> unat m < length ds \<and> d = ds ! unat m"
| "sent_packet ds (PResendRequest m x) \<longleftrightarrow> False"
| "sent_packet ds (PMissingNotify ids) \<longleftrightarrow> True"

definition good_packets :: "bytes list \<Rightarrow> vc_packet list \<Rightarrow> bool" where
  "good_packets ds ps \<longleftrightarrow> list_all packet_ok ps \<and> list_all (sent_packet ds) ps"

lemma wire_packet_good:
  assumes "sinv (c, ds)" and "w \<in> wire_packets ds"
  obtains p where "packet_bytes p = w" and "packet_ok p" and "sent_packet ds p"
proof (cases "w \<in> notify_packets")
  case True
  then obtain ids where "w = VCMissingNotify_bytes ids" "0 < length ids" "length ids \<le> VC_MAX_MISSING_IDS_PER_NOTIFY"
    by (auto simp: notify_packets_def)
  then show ?thesis using that [of "PMissingNotify ids"] by simp
next
  case False
  then obtain i where i: "i < length ds" "w = VCDataPacket_bytes (word_of_nat i) (ds ! i)"
    using assms(2) by (auto simp: wire_packets_def data_packets_def)
  then have "unat (word_of_nat i :: u64) = i" "length (ds ! i) \<le> VC_MAX_DATA_PAYLOAD_SIZE"
    using assms(1) by (simp_all add: sinv_def unat_of_nat)
  with i show ?thesis using that [of "PData (word_of_nat i) (ds ! i)"] by simp
qed

lemma wire_packets_good:
  assumes "sinv (c, ds)" and "set ws \<subseteq> wire_packets ds"
  shows "\<exists>ps. map packet_bytes ps = ws \<and> good_packets ds ps"
  using assms(2)
proof (induction ws)
  case Nil
  then show ?case by (simp add: good_packets_def)
next
  case (Cons w ws)
  then obtain ps where ps: "map packet_bytes ps = ws" "good_packets ds ps" by auto
  obtain p where p: "packet_bytes p = w" "packet_ok p" "sent_packet ds p"
    by (rule wire_packet_good [OF assms(1)]) (use Cons.prems in auto)
  from ps p have "map packet_bytes (p # ps) = w # ws \<and> good_packets ds (p # ps)" by (simp add: good_packets_def)
  then show ?case by (rule exI)
qed

text \<open>
  C6: what a sending channel puts on its connections. In every state reachable by sends, iterations
  of the send thread, resend requests, missing notifications, lost and replaced connections and
  \<^verbatim>\<open>close\<close>, in any order and whatever the kernel answers, the octets written on each connection are
  whole packets one after the other, each a notification or an accepted payload under the number that
  \<^verbatim>\<open>send\<close> gave it; only a closed connection can end within a packet.
\<close>

theorem streams_carry_accepted:
  assumes "sreach (c, ds)" and "i < length (heap c)"
  shows "\<exists>ps part. wire (heap c ! i) = stream_bytes ps @ part \<and> good_packets ds ps \<and>
     (part = [] \<or> \<not> connected (heap c ! i) \<and> (\<exists>p rest. good_packets ds [p] \<and> packet_bytes p = part @ rest \<and> rest \<noteq> []))"
proof -
  have inv: "sinv (c, ds)" by (rule sinv_reach [OF assms(1)])
  then have "framed (wire_packets ds) (heap c ! i)" using assms(2) by (simp add: sinv_def chan_framed_def heap_framed_def)
  then obtain ws part where w: "wire (heap c ! i) = concat ws @ part" "set ws \<subseteq> wire_packets ds"
    and part: "part = [] \<or> \<not> connected (heap c ! i) \<and> (\<exists>p \<in> wire_packets ds. \<exists>k < length p. part = take k p)"
    unfolding framed_def by blast
  obtain ps where ps: "map packet_bytes ps = ws" "good_packets ds ps" using wire_packets_good [OF inv w(2)] by blast
  have "part = [] \<or> \<not> connected (heap c ! i) \<and> (\<exists>p rest. good_packets ds [p] \<and> packet_bytes p = part @ rest \<and> rest \<noteq> [])"
  proof (cases "part = []")
    case False
    with part obtain p k where p: "\<not> connected (heap c ! i)" "p \<in> wire_packets ds" "k < length p" "part = take k p" by blast
    obtain q where q: "packet_bytes q = p" "packet_ok q" "sent_packet ds q" by (rule wire_packet_good [OF inv p(2)])
    have "good_packets ds [q] \<and> packet_bytes q = part @ drop k p \<and> drop k p \<noteq> []"
      using p q by (simp add: good_packets_def)
    with p(1) show ?thesis by blast
  qed simp
  with w(1) ps show ?thesis by auto
qed

lemma open_reach: "sreach (example_chan, [])"
  by (rule sreach.init [OF _ _ example_chan_open]) simp_all

theorem streams_carry_accepted_witness:
  "\<exists>c' ps. sreach (c', [[65]]) \<and> length (heap c') = 2 \<and> wire (heap c' ! 0) = stream_bytes ps \<and> good_packets [[65]] ps"
proof -
  have s: "sendable [65] example_chan"
    by (simp add: sendable_def VC_MAX_DATA_PAYLOAD_SIZE_def bq_approxSize_def BlockingQueue_init_def)
  obtain c' where c': "vc_send (Some [65]) example_chan = Inr c'" "heap c' = heap example_chan"
    by (rule vc_send_accept [OF s]) auto
  have r: "sreach (c', [[65]])" using sreach.step [OF open_reach sstep.Send [OF c'(1)]] s by simp
  have "0 < length (heap c')" by (simp add: c'(2))
  from streams_carry_accepted [OF r this] obtain ps part where ps: "wire (heap c' ! 0) = stream_bytes ps @ part" "good_packets [[65]] ps"
    "part = [] \<or> \<not> connected (heap c' ! 0)" by blast
  moreover have "connected (heap c' ! 0)" by (simp add: c'(2) TcpConnection_init_def)
  ultimately have "wire (heap c' ! 0) = stream_bytes ps" by simp
  moreover have "length (heap c') = 2" by (simp add: c'(2))
  ultimately show ?thesis using r ps(2) by blast
qed

text \<open>A receiver sees a prefix of a stream of good packets, closed or not.\<close>

lemma wire_prefix_of_good:
  assumes "sreach (c, ds)" and "i < length (heap c)"
  obtains ps later where "wire (heap c ! i) @ later = stream_bytes ps" and "good_packets ds ps"
proof -
  have inv: "sinv (c, ds)" by (rule sinv_reach [OF assms(1)])
  then have "framed (wire_packets ds) (heap c ! i)" using assms(2) by (simp add: sinv_def chan_framed_def heap_framed_def)
  then obtain ws part where w: "wire (heap c ! i) = concat ws @ part" "set ws \<subseteq> wire_packets ds"
    and part: "part = [] \<or> (\<exists>p \<in> wire_packets ds. \<exists>k < length p. part = take k p)"
    unfolding framed_def by blast
  obtain ws' later where ws': "set ws' \<subseteq> wire_packets ds" "part @ later = concat ws'"
  proof (cases "part = []")
    case True
    then show ?thesis using that [of "[]" "[]"] by simp
  next
    case False
    with part obtain p k where "p \<in> wire_packets ds" "part = take k p" by blast
    then show ?thesis using that [of "[p]" "drop k p"] by simp
  qed
  obtain ps where "map packet_bytes ps = ws @ ws'" "good_packets ds ps" using wire_packets_good [OF inv, of "ws @ ws'"] w(2) ws'(1) by auto
  then show ?thesis using that [of later ps] w(1) ws'(2) by simp
qed

text \<open>
  What the receiver makes of such a prefix, in whatever portions it reads it: the callbacks of the
  packets that lie completely inside, with the octets of the next one left in the buffer.
\<close>

lemma io_rounds_split:
  assumes "rb_ok rb" and "list_all packet_ok ps" and "\<forall>cs \<in> set rounds. [] \<notin> set cs"
    and "rb_begin rb @ concat (concat rounds) @ later = stream_bytes ps"
    and "ps \<noteq> [] \<longrightarrow> length (rb_begin rb) < length (packet_bytes (hd ps))"
  shows "\<exists>ps1 ps2 r. ps = ps1 @ ps2 \<and> fst (io_rounds ci rounds rb) = map (packet_event ci) ps1 \<and>
     r @ later = stream_bytes ps2 \<and> (ps2 \<noteq> [] \<longrightarrow> length r < length (packet_bytes (hd ps2)))"
  using assms
proof (induction rounds arbitrary: rb ps)
  case Nil
  then show ?case by (intro exI [of _ "[]"] exI [of _ ps] exI [of _ "rb_begin rb"]) simp
next
  case (Cons cs rounds)
  let ?read = "readFromConnection True (map Inr cs @ [Inl EAGAIN]) ci rb"
  have "(rb_begin rb @ concat cs) @ concat (concat rounds) @ later = stream_bytes ps"
    using Cons.prems(4) by simp
  from spec_parse_stream [OF Cons.prems(2) this, of ci] obtain ps1 ps2 r where split: "ps = ps1 @ ps2"
    and parse: "spec_parse ci (rb_begin rb @ concat cs) = (map (packet_event ci) ps1, r)"
    and rest: "r @ concat (concat rounds) @ later = stream_bytes ps2"
    and short: "ps2 \<noteq> [] \<longrightarrow> length r < length (packet_bytes (hd ps2))" by blast
  have "[] \<notin> set cs" using Cons.prems(3) by simp
  from readFromConnection_spec [OF Cons.prems(1) this, of ci] parse
  have read: "fst ?read = map (packet_event ci) ps1" "rb_begin (snd ?read) = r"
    by (simp_all add: prod_eq_iff)
  obtain qs rs r' where qs: "ps2 = qs @ rs" "fst (io_rounds ci rounds (snd ?read)) = map (packet_event ci) qs"
    "r' @ later = stream_bytes rs" "rs \<noteq> [] \<longrightarrow> length r' < length (packet_bytes (hd rs))"
    using Cons.IH [of "snd ?read" ps2] readFromConnection_ok [OF Cons.prems(1)] Cons.prems(2,3) read(2) rest split short by auto
  then have "ps = (ps1 @ qs) @ rs \<and> fst (io_rounds ci (cs # rounds) rb) = map (packet_event ci) (ps1 @ qs)"
    using split read by (simp add: split_beta Let_def)
  then show ?case using qs(3,4) by blast
qed

lemma io_rounds_prefix:
  assumes "list_all packet_ok ps" and "\<forall>cs \<in> set rounds. [] \<notin> set cs" and "concat (concat rounds) @ later = stream_bytes ps"
  obtains ps1 ps2 r where "ps = ps1 @ ps2" and "fst (io_rounds ci rounds empty_ReadBuffer) = map (packet_event ci) ps1"
    and "stream_bytes ps1 @ r = concat (concat rounds)" and "ps2 \<noteq> [] \<longrightarrow> length r < length (packet_bytes (hd ps2))"
proof -
  have "ps \<noteq> [] \<longrightarrow> packet_bytes (hd ps) \<noteq> []" using assms(1) packet_bytes_min by (cases ps) (fastforce simp: layout_simps)+
  then have "\<exists>ps1 ps2 r. ps = ps1 @ ps2 \<and> fst (io_rounds ci rounds empty_ReadBuffer) = map (packet_event ci) ps1 \<and>
     r @ later = stream_bytes ps2 \<and> (ps2 \<noteq> [] \<longrightarrow> length r < length (packet_bytes (hd ps2)))"
    using assms by (intro io_rounds_split) auto
  then obtain ps1 ps2 r where p: "ps = ps1 @ ps2" "fst (io_rounds ci rounds empty_ReadBuffer) = map (packet_event ci) ps1"
    "r @ later = stream_bytes ps2" "ps2 \<noteq> [] \<longrightarrow> length r < length (packet_bytes (hd ps2))" by blast
  have "(stream_bytes ps1 @ r) @ later = concat (concat rounds) @ later" using assms(3) p(1,3) by simp
  then have "stream_bytes ps1 @ r = concat (concat rounds)" by (rule append_same_eq [THEN iffD1])
  with p that show ?thesis by blast
qed

text \<open>A packet that lies whole within the stream is among the callbacks.\<close>

lemma io_rounds_complete:
  assumes "list_all packet_ok ps" and "\<forall>cs \<in> set rounds. [] \<notin> set cs" and "concat (concat rounds) @ later = stream_bytes ps"
    and "list_all packet_ok (qs @ [q])" and "concat (concat rounds) = stream_bytes (qs @ [q]) @ rest"
  shows "packet_event ci q \<in> set (fst (io_rounds ci rounds empty_ReadBuffer))"
proof -
  let ?b = "stream_bytes (qs @ [q])"
  obtain ps1 ps2 r where p: "ps = ps1 @ ps2" "fst (io_rounds ci rounds empty_ReadBuffer) = map (packet_event ci) ps1"
    "stream_bytes ps1 @ r = concat (concat rounds)" "ps2 \<noteq> [] \<longrightarrow> length r < length (packet_bytes (hd ps2))"
    by (rule io_rounds_prefix [OF assms(1-3)])
  obtain b1 b2 s where b: "qs @ [q] = b1 @ b2" "spec_parse ci ?b = (map (packet_event ci) b1, s)" "s @ [] = stream_bytes b2"
    "b2 \<noteq> [] \<longrightarrow> length s < length (packet_bytes (hd b2))"
    using spec_parse_stream [OF assms(4) append_Nil2, of ci] by blast
  have "b2 = []" using b(3,4) by (cases b2) auto
  then have parse: "spec_parse ci ?b = (map (packet_event ci) (qs @ [q]), [])" unfolding b(1) using b(2,3) b(1) by simp
  have "?b @ rest @ later = stream_bytes ps" using assms(3,5) by simp
  from spec_parse_stream [OF assms(1) this, of ci] obtain a1 a2 s' where a0: "ps = a1 @ a2"
    "spec_parse ci ?b = (map (packet_event ci) a1, s')" "s' @ rest @ later = stream_bytes a2" by blast
  then have a: "ps = a1 @ a2" "map (packet_event ci) a1 = map (packet_event ci) (qs @ [q])" "rest @ later = stream_bytes a2"
    unfolding parse by simp_all
  have "?b @ rest @ later = stream_bytes a1 @ rest @ later" using a(1,3) assms(3,5) by simp
  then have sa: "stream_bytes a1 = ?b" by simp
  have "length a1 \<le> length ps1"
  proof (rule ccontr)
    assume "\<not> length a1 \<le> length ps1"
    then obtain us where us: "a1 = ps1 @ us" "us \<noteq> []" "ps2 = us @ a2" using a(1) p(1) by (auto simp: append_eq_append_conv2)
    then obtain u us' where "us = u # us'" by (cases us) auto
    then have "stream_bytes ps1 @ packet_bytes u @ stream_bytes us' @ rest = stream_bytes ps1 @ r" using us sa assms(5) p(3) by simp
    then show False using p(4) us \<open>us = u # us'\<close> by auto
  qed
  then obtain us where "ps1 = a1 @ us" using a(1) p(1) by (auto simp: append_eq_append_conv2)
  then show ?thesis using p(2) a(2) by auto
qed

end
