(* ===== verification/Sender_Complete.thy ===== *)
theory Sender_Complete
  imports Sender_System
begin

text \<open>
  Nothing that \<^verbatim>\<open>send\<close> accepted is forgotten on the sending side: while the channel is open every accepted
  packet is in the send queue, is the retained packet of the send thread, or has been written as a whole
  on one of the connections. The argument is a conservation law over all the actions of
  \<open>Sender_System\<close>: streams only grow, and the queue and the retained packet change hands nowhere
  but in \<^verbatim>\<open>send\<close> and in the send thread.
\<close>

section \<open>Streams only grow\<close>

definition wires_grow :: "conn_heap \<Rightarrow> conn_heap \<Rightarrow> bool" where
  "wires_grow h h' \<longleftrightarrow> length h \<le> length h' \<and> (\<forall>k < length h. \<exists>x. wire (h' ! k) = wire (h ! k) @ x)"

lemma wires_grow_refl [simp]: "wires_grow h h"
  by (simp add: wires_grow_def)

lemma wires_grow_trans: "wires_grow a b \<Longrightarrow> wires_grow b c \<Longrightarrow> wires_grow a c"
  unfolding wires_grow_def by (metis append.assoc less_le_trans order_trans)

lemma wires_grow_update: "(i < length h \<Longrightarrow> \<exists>x. wire conn = wire (h ! i) @ x) \<Longrightarrow> wires_grow h (h[i := conn])"
  unfolding wires_grow_def by (metis append_Nil2 length_list_update nth_list_update_eq nth_list_update_neq order_refl)

lemma wires_grow_conn_upd: "(\<And>c. wire (f c) = wire c) \<Longrightarrow> wires_grow h (conn_upd f r h)"
  by (cases r) (auto simp: conn_upd_def intro!: wires_grow_update)

lemma wire_ops [simp]:
  "wire (snd (disconnect c)) = wire c"
  "wire (diagMarkSendStart m t c) = wire c"
  "wire (diagMarkSendEnd m t c) = wire c"
  "wire (snd (refreshRuntimeInfoIfStale i now s c)) = wire c"
  by (simp_all add: disconnect_def diagMarkSendStart_def diagMarkSendEnd_def refreshRuntimeInfoIfStale_def sampleRuntimeInfo_def Let_def split_beta)

lemma wires_grow_disconnects: "wires_grow h (fold (\<lambda>r h. if alive h r then disconnect_ref r h else h) rs h)"
proof (induction rs arbitrary: h)
  case (Cons r rs)
  have "wires_grow h (if alive h r then disconnect_ref r h else h)" by (simp add: disconnect_ref_def wires_grow_conn_upd)
  from wires_grow_trans [OF this Cons] show ?case by simp
qed simp

lemma wires_grow_refresh: "wires_grow h (snd (refreshConnRuntimeInfo re idx conns (t, h)))"
  by (simp add: refreshConnRuntimeInfo_def wires_grow_conn_upd)

lemma send_packet_on_grows: "send_packet_on a d c = Some (r, c') \<Longrightarrow> \<exists>x. wire c' = wire c @ x"
  by (auto simp: send_packet_on_def Let_def split: if_splits option.splits)

section \<open>What the send thread leaves alone\<close>

definition st_key :: "send_thread \<Rightarrow> bytes option \<times> StopableThread \<times> conn_ref list" where
  "st_key t = (st_pending t, st_thr t, st_connections t)"

text \<open>\<open>grows c c'\<close>: streams grew; if the channel is still open, queue and thread are what they were.\<close>

definition grows :: "chan \<Rightarrow> chan \<Rightarrow> bool" where
  "grows c c' \<longleftrightarrow> wires_grow (heap c) (heap c') \<and>
     (opened c' \<longrightarrow> opened c \<and> bq_queue (sendQueue c') = bq_queue (sendQueue c) \<and>
        map_option st_key (sendThread c') = map_option st_key (sendThread c))"

lemma grows_refl [simp]: "grows c c"
  by (simp add: grows_def)

lemma grows_trans [trans]: "grows a b \<Longrightarrow> grows b c \<Longrightarrow> grows a c"
  by (auto simp: grows_def intro: wires_grow_trans)

lemma grows_heap: "wires_grow (heap c) h \<Longrightarrow> grows c (c\<lparr>heap := h\<rparr>)"
  by (simp add: grows_def)

lemma grows_simps [simp]:
  "grows c (c1\<lparr>messageTracker := m\<rparr>) = grows c c1"
  "grows c (c1\<lparr>resendQueue := q\<rparr>) = grows c c1"
  "grows (c\<lparr>resendQueue := q\<rparr>) c1 = grows c c1"
  "grows c (c1\<lparr>connSendStats := s\<rparr>) = grows c c1"
  "grows c (c1\<lparr>socketStatuses := s'\<rparr>) = grows c c1"
  "grows c (c1\<lparr>pendingResendIds := p\<rparr>) = grows c c1"
  "grows (c\<lparr>pendingResendIds := p\<rparr>) c1 = grows c c1"
  "grows c (c1\<lparr>customResends := cr\<rparr>) = grows c c1"
  by (simp_all add: grows_def)

lemma grows_notes [simp]:
  "grows c (bump_reenqueue idx c1) = grows c c1"
  "grows c (note_sent idx m t c1) = grows c c1"
  by (simp_all add: bump_reenqueue_def note_sent_def)

lemma grows_disconnectCB: "grows c (disconnectCB c)"
  by (auto simp: disconnectCB_def disconnect_all_def grows_def Let_def wires_grow_disconnects)

lemma grows_disconnect: "grows c c1 \<Longrightarrow> grows c (disconnectCB c1)"
  using grows_disconnectCB grows_trans by blast

lemma grows_upd_st: "(\<And>t. st_key (f t) = st_key t) \<Longrightarrow> grows c (upd_st f c)"
  by (simp add: grows_def upd_st_def option.map_comp comp_def)

lemma refresh_key: "st_key (fst (refreshConnRuntimeInfo re idx conns (t, h))) = st_key t"
  by (simp add: refreshConnRuntimeInfo_def st_key_def)

lemma grows_refresh_in: "grows c (refresh_in re idx conns c)"
  by (cases "sendThread c") (simp_all add: refresh_in_def grows_def split_beta wires_grow_refresh refresh_key)

lemma grows_written: "send_packet_on a d conn0 = Some (r, conn) \<Longrightarrow> wire conn0 = wire (heap c ! i) \<Longrightarrow> grows c (c\<lparr>heap := (heap c)[i := conn]\<rparr>)"
  by (intro grows_heap wires_grow_update) (use send_packet_on_grows in fastforce)

lemma send_attempt_grows:
  assumes "send_attempt a d idx r c = Some (Inr (b, c'))"
  shows "grows c c'"
proof -
  obtain i where i: "r = Some i" using assms by (cases r) (simp_all add: send_attempt_def)
  let ?marked = "diagMarkSendEnd (pkt_messageId d) (at_endMs a) (diagMarkSendStart (pkt_messageId d) (at_startMs a) (heap c ! i))"
  obtain res conn where p: "send_packet_on a d ?marked = Some (res, conn)"
    using assms by (auto simp: send_attempt_def i Let_def split: option.splits)
  have w: "grows c (c\<lparr>heap := (heap c)[i := conn]\<rparr>)" by (rule grows_written [OF p]) simp
  show ?thesis using assms w p
    by (auto simp: send_attempt_def i Let_def and_then_eq_Inr intro!: grows_disconnect split: option.splits send_result.splits if_splits)
qed

lemma send_ranks_grows: "send_ranks env d scores elig snap order c = Some (Inr (b, c')) \<Longrightarrow> grows c c'"
proof (induction env d scores elig snap order c rule: send_ranks.induct)
  case (2 env d scores elig snap idx order c)
  then show ?case by (auto split: if_splits option.splits sum.splits dest: send_attempt_grows intro: grows_trans)
qed simp

lemma resend_attempts_grows: "resend_attempts re env d conns cnt rr atts k c = Some (b, k', c') \<Longrightarrow> grows c c'"
proof (induction atts arbitrary: k c)
  case (Cons a atts)
  let ?idx = "VC_FIRST_RESEND_CONN_INDEX + (rr + a) mod cnt"
  let ?ca = "refresh_in (re ?idx) ?idx conns c"
  have step: "grows c c'" if "resend_attempts re env d conns cnt rr atts j c1 = Some (b, k', c')" "grows c c1" for j c1
    using Cons.IH [OF that(1)] that(2) grows_trans by blast
  have wr: "grows c (?ca\<lparr>heap := (heap ?ca)[i := conn]\<rparr>)" if "send_packet_on (env ?idx) d (heap ?ca ! i) = Some (res, conn)" for i res conn
    using grows_trans [OF grows_refresh_in grows_written [OF that refl]] .
  show ?case using Cons.prems
    by (auto simp: Let_def grows_refresh_in split: option.splits if_splits send_result.splits dest!: step intro!: wr grows_disconnect)
qed simp

lemma grows_resend_failed: "grows c (resend_failed d k c)"
  by (cases "sendThread c") (auto simp: resend_failed_def Let_def upd_st_def grows_def st_key_def)

lemma sendOnResendConn_grows:
  assumes "sendOnResendConn re env d conns c = Some c'"
  shows "grows c c'"
proof (cases "length conns \<le> VC_FIRST_RESEND_CONN_INDEX")
  case False
  let ?n = "length conns - VC_FIRST_RESEND_CONN_INDEX"
  let ?rr = "case sendThread c of None \<Rightarrow> 0 | Some t \<Rightarrow> st_resendRoundRobin t"
  let ?next = "upd_st (\<lambda>t. t\<lparr>st_resendRoundRobin := (st_resendRoundRobin t + 1) mod ?n\<rparr>)"
  obtain b k c1 where r: "resend_attempts re env d conns ?n ?rr [0..<?n] 0 c = Some (b, k, c1)"
    using assms False by (auto simp: sendOnResendConn_def Let_def split: option.splits)
  have "grows c (?next c1)" by (rule grows_trans [OF resend_attempts_grows [OF r] grows_upd_st]) (simp add: st_key_def)
  moreover have "grows (?next c1) c'"
    using assms False r by (cases b) (auto simp: sendOnResendConn_def Let_def st_key_def intro!: grows_upd_st grows_resend_failed)
  ultimately show ?thesis by (rule grows_trans)
qed (use assms in \<open>simp add: sendOnResendConn_def\<close>)

lemma resend_batch_grows: "resend_batch n k e c = Some c' \<Longrightarrow> grows c c'"
proof (induction n k e c rule: resend_batch.induct)
  case (2 n k e c)
  then show ?case
    by (cases "bq_tryDequeue (resendQueue c)") (auto split: option.splits dest!: sendOnResendConn_grows intro: grows_trans)
qed simp

lemma drain_resends_grows:
  assumes "drain_resends e c = Some c'"
  shows "grows c c'"
proof (cases "sendThread c")
  case (Some t)
  let ?trim = "upd_st (\<lambda>t. if length (st_resendRetryCount t) > MAX_RESEND_TRACKED then t\<lparr>st_resendRetryCount := []\<rparr> else t)"
  obtain c1 where c1: "(if any_resend_alive (heap c) (st_connections t) then resend_batch MAX_RESEND_BATCH 0 e c else Some c) = Some c1" "c' = ?trim c1"
    using assms Some unfolding drain_resends_def option.case by (auto split: option.splits)
  have "grows c c1" using c1(1) by (auto split: if_splits dest: resend_batch_grows)
  moreover have "grows c1 c'" unfolding c1(2) by (rule grows_upd_st) (simp add: st_key_def)
  ultimately show ?thesis by (rule grows_trans)
qed (use assms in \<open>simp add: drain_resends_def\<close>)

lemma rate_all_grows:
  "rate_all re is conns stats (t, h) = Inr (scores, t', h') \<Longrightarrow> st_key t' = st_key t \<and> wires_grow h h'"
proof (induction "is" arbitrary: t h scores)
  case (Cons i "is")
  then obtain s t1 h1 ss where r: "rateConnection (re i) i conns stats (t, h) = Inr (s, t1, h1)" "rate_all re is conns stats (t1, h1) = Inr (ss, t', h')"
    by (auto simp: and_then_eq_Inr)
  have "st_key t1 = st_key t \<and> wires_grow h h1"
    using r(1) refresh_key [of "re i" i conns t h] wires_grow_refresh [of h "re i" i conns t]
    by (auto simp: rateConnection_def Let_def split_beta and_then_eq_Inr split: if_splits)
  then show ?case using Cons.IH [OF r(2)] wires_grow_trans by auto
qed simp

lemma send_data_packet_grows:
  assumes s: "send_data_packet e d t c = Some (Inr (r, c'))" and t: "sendThread c = Some t"
  shows "wires_grow (heap c) (heap c')"
    and "opened c' \<Longrightarrow> opened c \<and> bq_queue (sendQueue c') = bq_queue (sendQueue c) \<and>
      (\<exists>t'. sendThread c' = Some t' \<and> st_thr t' = st_thr t \<and> st_connections t' = st_connections t \<and>
         (r = PacketSent d \<longrightarrow> st_pending t' = st_pending t))"
proof -
  let ?n = "if length (st_connections t) > VC_FIRST_RESEND_CONN_INDEX then VC_FIRST_RESEND_CONN_INDEX else length (st_connections t)"
  have "wires_grow (heap c) (heap c') \<and> (opened c' \<longrightarrow> opened c \<and> bq_queue (sendQueue c') = bq_queue (sendQueue c) \<and>
      (\<exists>t'. sendThread c' = Some t' \<and> st_thr t' = st_thr t \<and> st_connections t' = st_connections t \<and>
         (r = PacketSent d \<longrightarrow> st_pending t' = st_pending t)))"
  proof (cases "?n = 0 \<or> st_connections t ! 0 = None")
    case True
    then show ?thesis using s t by (simp add: send_data_packet_def Let_def)
  next
    case False
    obtain scores t1 h1 where ra: "rate_all (se_rate e) [0..<?n] (st_connections t) (connSendStats c) (t, heap c) = Inr (scores, t1, h1)"
      using s False
      by (cases "rate_all (se_rate e) [0..<?n] (st_connections t) (connSendStats c) (t, heap c)") (auto simp: send_data_packet_def Let_def)
    let ?t2 = "t1\<lparr>st_roundRobinStart := (st_roundRobinStart t1 + 1) mod ?n\<rparr>"
    let ?ca = "c\<lparr>heap := h1, sendThread := Some ?t2\<rparr>"
    obtain sent c1 where sr: "send_ranks (se_data e) d scores (best_score scores \<ge> 0) (st_connections t)
        (connection_order scores (st_roundRobinStart t1)) ?ca = Some (Inr (sent, c1))"
      and r: "r = (if sent then PacketSent d else PacketRetained d)"
      and c': "c' = (if sent then c1 else upd_st (\<lambda>t. t\<lparr>st_pending := Some d\<rparr>) c1)"
      using s False ra by (auto simp: send_data_packet_def Let_def split: option.splits sum.splits if_splits)
    have k: "st_key ?t2 = st_key t" "wires_grow (heap c) h1" using rate_all_grows [OF ra] by (simp_all add: st_key_def)
    have g: "wires_grow h1 (heap c1)" "opened c1 \<Longrightarrow> opened c \<and> bq_queue (sendQueue c1) = bq_queue (sendQueue c) \<and>
        map_option st_key (sendThread c1) = Some (st_key t)"
      using send_ranks_grows [OF sr] k(1) by (auto simp: grows_def)
    have "wires_grow (heap c) (heap c1)" using k(2) g(1) by (rule wires_grow_trans)
    moreover have "\<exists>t'. sendThread c' = Some t' \<and> st_thr t' = st_thr t \<and> st_connections t' = st_connections t \<and>
         (r = PacketSent d \<longrightarrow> st_pending t' = st_pending t)" if "opened c1"
      using g(2) [OF that] by (auto simp: c' r upd_st_def st_key_def)
    ultimately show ?thesis using g(2) by (auto simp: c' upd_st_def)
  qed
  then show "wires_grow (heap c) (heap c')" and "opened c' \<Longrightarrow> opened c \<and> bq_queue (sendQueue c') = bq_queue (sendQueue c) \<and>
      (\<exists>t'. sendThread c' = Some t' \<and> st_thr t' = st_thr t \<and> st_connections t' = st_connections t \<and>
         (r = PacketSent d \<longrightarrow> st_pending t' = st_pending t))" by auto
qed

section \<open>The conservation law\<close>

text \<open>The packet waits to be sent, or is one of the whole packets on some connection's stream.\<close>

definition waiting :: "chan \<Rightarrow> bytes \<Rightarrow> bool" where
  "waiting c p \<longleftrightarrow> p \<in> set (bq_queue (sendQueue c)) \<or> (\<exists>t. sendThread c = Some t \<and> st_pending t = Some p)"

definition carried :: "bytes set \<Rightarrow> conn_heap \<Rightarrow> bytes \<Rightarrow> bool" where
  "carried P h p \<longleftrightarrow> (\<exists>k < length h. \<exists>ws rest. wire (h ! k) = concat ws @ p @ rest \<and> set ws \<subseteq> P)"

definition thread_up :: "chan \<Rightarrow> bool" where
  "thread_up c \<longleftrightarrow> (\<exists>t. sendThread c = Some t \<and> th_running (st_thr t) \<and> st_connections t \<noteq> [] \<and>
     None \<notin> set (st_connections t) \<and> refs_ok (st_connections t) (heap c))"

definition linv :: "chan \<times> bytes list \<Rightarrow> bool" where
  "linv = (\<lambda>(c, ds). opened c \<longrightarrow> thread_up c \<and> (\<forall>p \<in> data_packets ds. waiting c p \<or> carried (wire_packets ds) (heap c) p))"

lemma carried_grow: "carried P h p \<Longrightarrow> wires_grow h h' \<Longrightarrow> carried P h' p"
  unfolding carried_def wires_grow_def by (metis append.assoc less_le_trans)

lemma carried_mono: "carried P h p \<Longrightarrow> P \<subseteq> Q \<Longrightarrow> carried Q h p"
  unfolding carried_def by (meson subset_trans)

lemma refs_ok_longer: "refs_ok rs h \<Longrightarrow> length h \<le> length h' \<Longrightarrow> refs_ok rs h'"
  by (auto simp: refs_ok_def)

lemma carried_written:
  assumes "written_on d h h' i" and "heap_framed P h"
  shows "carried P h' d"
proof -
  have i: "i < length h" "socketFd (h ! i) \<noteq> -1" "wire (h' ! i) = wire (h ! i) @ d" "length h' = length h"
    using assms(1) by (auto simp: written_on_def dest: list_all2_lengthD)
  from heap_framed_nth [OF assms(2) i(1)] i(2) obtain ps where "wire (h ! i) = concat ps" "set ps \<subseteq> P"
    by (auto simp: framed_def conn_ok_def)
  then have "wire (h' ! i) = concat ps @ d @ [] \<and> set ps \<subseteq> P" using i(3) by simp
  then show ?thesis using i(1,4) unfolding carried_def by metis
qed

lemma grows_thread:
  assumes "grows c c'" and "opened c'" and "thread_up c"
  shows "thread_up c' \<and> (waiting c p \<longrightarrow> waiting c' p)"
proof -
  obtain t t' where t: "sendThread c = Some t" "sendThread c' = Some t'" "st_key t' = st_key t"
    using assms by (auto simp: grows_def thread_up_def)
  then show ?thesis using assms refs_ok_longer
    by (fastforce simp: grows_def thread_up_def waiting_def st_key_def wires_grow_def)
qed

lemma linv_grows: "linv (c, ds) \<Longrightarrow> grows c c' \<Longrightarrow> linv (c', ds)"
  using grows_thread carried_grow by (fastforce simp: linv_def grows_def)

lemma framed_conns_ok: "heap_framed P h \<Longrightarrow> conns_ok h"
  by (auto simp: heap_framed_def conns_ok_def framed_def)

text \<open>The half of an iteration that deals with the packet \<open>d\<close> taken from the queue or retained before.\<close>

lemma linv_packet:
  assumes s: "send_data_packet e d t c = Some (Inr (r, c'))" and t: "sendThread c = Some t" "st_pending t = None"
    and up: "opened c \<Longrightarrow> thread_up c" and f: "heap_framed (wire_packets ds) (heap c)"
    and w: "\<And>p. p \<in> data_packets ds \<Longrightarrow> opened c \<Longrightarrow> waiting c p \<or> p = d \<or> carried (wire_packets ds) (heap c) p"
  shows "linv (c', ds)"
  unfolding linv_def prod.case
proof (intro impI)
  assume op': "opened c'"
  note g = send_data_packet_grows(1) [OF s t(1)]
  from send_data_packet_grows(2) [OF s t(1) op'] obtain t' where
    t': "opened c" "bq_queue (sendQueue c') = bq_queue (sendQueue c)" "sendThread c' = Some t'" "st_thr t' = st_thr t"
      "st_connections t' = st_connections t" "r = PacketSent d \<longrightarrow> st_pending t' = st_pending t" by blast
  have tu: "st_connections t \<noteq> []" "None \<notin> set (st_connections t)" "refs_ok (st_connections t) (heap c)"
    and thr: "th_running (st_thr t)"
    using up [OF t'(1)] t(1) by (auto simp: thread_up_def)
  then have "st_connections t ! 0 \<noteq> None" by (metis length_greater_0_conv nth_mem)
  from data_packet_fate [OF s framed_conns_ok [OF f] tu(3,1) this]
  have d: "waiting c' d \<or> carried (wire_packets ds) (heap c') d" using carried_written [OF _ f] by (auto simp: waiting_def)
  have "waiting c' p \<or> carried (wire_packets ds) (heap c') p" if "p \<in> data_packets ds" for p
    using w [OF that t'(1)] d carried_grow [OF _ g] t t' by (auto simp: waiting_def)
  moreover have "thread_up c'"
    using t' tu thr refs_ok_longer g by (auto simp: thread_up_def wires_grow_def)
  ultimately show "thread_up c' \<and> (\<forall>p \<in> data_packets ds. waiting c' p \<or> carried (wire_packets ds) (heap c') p)" by blast
qed

lemma bq_tryDequeue_split:
  "bq_tryDequeue q = (r, q') \<Longrightarrow> set (bq_queue q) = set_option r \<union> set (bq_queue q')"
  by (cases "bq_queue q") (auto simp: bq_tryDequeue_def split: if_splits)

lemma linv_take:
  assumes l: "linv (c, ds)" and t: "sendThread c = Some t" and dq: "bq_tryDequeue (sendQueue c) = (r0, q)"
    and c2: "c2 = (case st_pending t of Some d \<Rightarrow> upd_st (\<lambda>t. t\<lparr>st_pending := None\<rparr>) c | None \<Rightarrow> c\<lparr>sendQueue := q\<rparr>)"
    and dv: "dv = (case st_pending t of Some d \<Rightarrow> Some d | None \<Rightarrow> r0)"
  shows "heap c2 = heap c" and "opened c2 = opened c" and "sendThread c2 = Some (t\<lparr>st_pending := None\<rparr>)"
    and "opened c2 \<Longrightarrow> thread_up c2" and "waiting c p \<Longrightarrow> waiting c2 p \<or> dv = Some p"
proof -
  have "t\<lparr>st_pending := None\<rparr> = t" if "st_pending t = None" using that by simp
  then show h: "heap c2 = heap c" "opened c2 = opened c" "sendThread c2 = Some (t\<lparr>st_pending := None\<rparr>)"
    by (auto simp: c2 t upd_st_def split: option.split)
  show "opened c2 \<Longrightarrow> thread_up c2" using l h t by (auto simp: linv_def thread_up_def)
  have "p \<in> set (bq_queue (sendQueue c)) \<Longrightarrow> r0 = Some p \<or> p \<in> set (bq_queue q)"
    using bq_tryDequeue_split [OF dq] by (cases r0) auto
  then show "waiting c p \<Longrightarrow> waiting c2 p \<or> dv = Some p"
    by (cases "st_pending t") (auto simp: waiting_def c2 dv t upd_st_def)
qed

lemma linv_iterate:
  assumes inv: "linv (c, ds)" and f: "chan_framed (wire_packets ds) c" and it: "send_iteration e c = Some (Inr (r, c'))"
  shows "linv (c', ds)"
proof (cases "\<exists>t0. sendThread c = Some t0 \<and> th_running (st_thr t0)")
  case False
  then show ?thesis using it inv by (auto simp: send_iteration_def split: option.splits)
next
  case True
  then obtain c1 where dr: "drain_resends e c = Some c1" using it by (auto simp: send_iteration_def split: option.splits)
  have f1: "heap_framed (wire_packets ds) (heap c1)" using drain_resends_framed [OF dr f] by (simp add: chan_framed_def)
  have l1: "linv (c1, ds)" by (rule linv_grows [OF inv drain_resends_grows [OF dr]])
  show ?thesis
  proof (cases "sendThread c1")
    case None
    then show ?thesis using it True dr l1 by (auto simp: send_iteration_def)
  next
    case (Some t)
    obtain r0 q where dq: "bq_tryDequeue (sendQueue c1) = (r0, q)" by fastforce
    define c2 where "c2 = (case st_pending t of Some d \<Rightarrow> upd_st (\<lambda>t. t\<lparr>st_pending := None\<rparr>) c1 | None \<Rightarrow> c1\<lparr>sendQueue := q\<rparr>)"
    define dv where "dv = (case st_pending t of Some d \<Rightarrow> Some d | None \<Rightarrow> r0)"
    note take = linv_take [OF l1 Some dq c2_def dv_def]
    have res: "(case dv of None \<Rightarrow> Some (Inr (IdleWait, c2))
        | Some d \<Rightarrow> if \<not> th_running (st_thr t) then Some (Inr (PacketDropped d, c2)) else send_data_packet e d (t\<lparr>st_pending := None\<rparr>) c2)
        = Some (Inr (r, c'))"
      using True dr Some dq it by (auto simp: send_iteration_def c2_def dv_def split: option.split)
    have w: "waiting c2 p \<or> dv = Some p \<or> carried (wire_packets ds) (heap c2) p" if "p \<in> data_packets ds" "opened c2" for p
      using l1 take that by (auto simp: linv_def)
    have same: "linv (c', ds)" if "c' = c2" "dv = None \<or> \<not> opened c2" using w take(4) that by (auto simp: linv_def)
    show ?thesis
    proof (cases "dv = None \<or> \<not> th_running (st_thr t)")
      case True
      then have "c' = c2" using res by (auto split: option.splits)
      moreover have "\<not> opened c2" if "\<not> th_running (st_thr t)" using take(3,4) that by (auto simp: thread_up_def)
      ultimately show ?thesis using same True by blast
    next
      case False
      then obtain d where d: "dv = Some d" "send_data_packet e d (t\<lparr>st_pending := None\<rparr>) c2 = Some (Inr (r, c'))" using res by auto
      show ?thesis by (rule linv_packet [OF d(2) take(3) _ take(4)]) (use f1 take(1) w d(1) in auto)
    qed
  qed
qed

section \<open>All other actions\<close>

lemma call_resend_grows: "grows c (call_resend m data c)"
  by (cases "resendCallback c") (auto simp: call_resend_def grows_def)

lemma mark_tracked_grows: "mark_tracked nowMs m c = Inr c' \<Longrightarrow> grows c c'"
  by (auto simp: mark_tracked_def and_then_eq_Inr grows_def split: option.splits if_splits)

lemma processResendRequest_grows: "processResendRequest nowMs m c = Inr c' \<Longrightarrow> grows c c'"
  by (auto simp: processResendRequest_def and_then_eq_Inr split: option.splits if_splits
      dest!: mark_tracked_grows intro: grows_trans [OF _ call_resend_grows])

lemma missing_step_grows:
  assumes "missing_step now nowMs m c = Inr c'"
  shows "grows c c'"
proof -
  obtain c1 where c1: "mark_tracked nowMs m c = Inr c1" using assms by (auto simp: missing_step_def and_then_eq_Inr)
  have g: "grows c c1" "grows c (call_resend m data c1)" for data
    using mark_tracked_grows [OF c1] grows_trans [OF _ call_resend_grows] by blast+
  show ?thesis using assms g
    by (auto simp: missing_step_def c1 and_then_eq_Inr Let_def split: option.split_asm if_split_asm)
qed

lemma missing_loop_grows: "missing_loop now nowMs ids c = Inr c' \<Longrightarrow> grows c c'"
  by (induction ids arbitrary: c) (auto simp: and_then_eq_Inr dest: missing_step_grows intro: grows_trans)

lemma linv_notify: "linv (c, ds) \<Longrightarrow> linv (default_missing_notify ids c, ds)"
  by (auto simp: linv_def default_missing_notify_def waiting_def thread_up_def)

lemma linv_replace:
  assumes "linv (c, ds)"
  shows "linv (replaceConnection slot newFd now c, ds)"
proof (cases "slot < 0 \<or> nat slot \<ge> length (connections c) \<or> \<not> opened c")
  case True
  then show ?thesis using assms by (auto simp: replaceConnection_def linv_def Let_def)
next
  case False
  let ?c' = "replaceConnection slot newFd now c" and ?new = "Some (length (heap c))"
  have h: "heap ?c' = heap c @ [TcpConnection_init newFd]" "sendThread ?c' = map_option (st_replaceConnection slot ?new now) (sendThread c)"
    "sendQueue ?c' = sendQueue c" "opened ?c'" using False by (auto simp: replaceConnection_def Let_def)
  have "wires_grow (heap c) (heap ?c')" by (simp add: h wires_grow_def nth_append)
  moreover obtain t where t: "sendThread c = Some t" "th_running (st_thr t)" "st_connections t \<noteq> []" "None \<notin> set (st_connections t)"
    "refs_ok (st_connections t) (heap c)" using assms False by (auto simp: linv_def thread_up_def)
  have "None \<notin> set ((st_connections t)[nat slot := ?new])" "refs_ok ((st_connections t)[nat slot := ?new]) (heap ?c')"
    using t(4,5) by (auto simp: h refs_ok_def dest!: set_update_subset_insert [THEN subsetD])
  then have "thread_up ?c'" using t refs_ok_longer [OF t(5), of "heap ?c'"]
    by (auto simp: thread_up_def h st_replaceConnection_def)
  moreover have "waiting ?c' p" if "waiting c p" for p using that t(1) by (auto simp: waiting_def h st_replaceConnection_def)
  ultimately show ?thesis using assms False carried_grow by (auto simp: linv_def)
qed

lemma close_not_opened: "vc_close who c = Inr c' \<Longrightarrow> \<not> opened c'"
  by (auto simp: vc_close_def Let_def and_then_eq_Inr close_rest_def close_threads_def disconnect_all_def split: if_splits option.splits)

lemma linv_send:
  assumes inv: "sinv (c, ds)" and l: "linv (c, ds)" and s: "vc_send (Some d) c = Inr c'"
  shows "linv (c', if sendable d c then ds @ [d] else ds)"
proof (cases "sendable d c")
  case False
  then have "c' = c" using vc_send_reject [of "Some d" c] s by simp
  with False l show ?thesis by simp
next
  case True
  let ?p = "VCDataPacket_bytes (lastSendMessageId c) d"
  have cok: "cache_ok (sentDataCache c)" and id: "lastSendMessageId c = word_of_nat (length ds)" using inv by (simp_all add: sinv_def)
  obtain c1 sc' where c1: "vc_send (Some d) c = Inr c1"
    "c1 = c\<lparr>lastSendMessageId := lastSendMessageId c + 1, sentDataCache := sc', sendQueue := bq_enqueue ?p (sendQueue c)\<rparr>"
    by (rule vc_send_accept [OF True cok])
  have c': "c' = c\<lparr>lastSendMessageId := lastSendMessageId c + 1, sentDataCache := sc', sendQueue := bq_enqueue ?p (sendQueue c)\<rparr>"
    using s c1 by simp
  have mono: "wire_packets ds \<subseteq> wire_packets (ds @ [d])" by (auto simp: wire_packets_def data_packets_snoc)
  have "waiting c' p \<or> carried (wire_packets (ds @ [d])) (heap c') p" if "opened c" "p \<in> data_packets (ds @ [d])" for p
    using that l carried_mono [OF _ mono] by (auto simp: data_packets_snoc id linv_def waiting_def c')
  moreover have "opened c' = opened c" "opened c \<Longrightarrow> thread_up c'" using l by (auto simp: c' linv_def thread_up_def)
  ultimately show ?thesis using True by (simp add: linv_def)
qed

lemma linv_init:
  assumes "fds \<noteq> []" and "vc_open now (TcpVirtualChannel_init fds now') = Inr c"
  shows "linv (c, [])"
  using assms by (auto simp: linv_def data_packets_def vc_open_def Let_def and_then_eq_Inr thread_up_def refs_ok_def TcpVirtualChannel_init_def
      TcpVCSendThread_init_def StopableThread_init_def thread_start_def split: if_splits)

lemma linv_step: "sstep s s' \<Longrightarrow> sinv s \<Longrightarrow> linv s \<Longrightarrow> linv s'"
proof (induction rule: sstep.induct)
  case (Send d c c' ds)
  show ?case by (rule linv_send [OF Send(3,4,1)])
next
  case (Iterate e c r c' ds)
  then show ?case by (auto simp: sinv_def intro: linv_iterate)
next
  case (MissingNotify now nowMs ids c c' ds)
  have "grows c c'" using missing_loop_grows [OF MissingNotify(1) [unfolded processMissingNotify_def]] by simp
  then show ?case using MissingNotify(3) linv_grows by blast
next
  case (Lost c ds r)
  have "grows c (c\<lparr>heap := disconnect_ref r (heap c)\<rparr>)" by (rule grows_heap) (simp add: disconnect_ref_def wires_grow_conn_upd)
  then show ?case using Lost(2) linv_grows grows_disconnect by blast
next
  case (Close who c c' ds)
  then show ?case by (auto simp: linv_def dest: close_not_opened)
next
  case (Receive c ds r b)
  then show ?case by (simp add: linv_def waiting_def thread_up_def)
qed (auto intro: linv_grows processResendRequest_grows linv_notify linv_replace)

text \<open>The settings that client and server make before \<^verbatim>\<open>open\<close> only concern the receiving half.\<close>

lemma configured_open_reach:
  assumes "fds \<noteq> []" and "-1 \<notin> set fds"
    and "vc_open now ((TcpVirtualChannel_init fds now')\<lparr>ch_rx := r, hasDisconnectCallback := b\<rparr>) = Inr v"
  shows "sreach (v, [])"
proof -
  obtain v0 where v0: "vc_open now (TcpVirtualChannel_init fds now') = Inr v0"
    by (auto simp: vc_open_def Let_def thread_start_def TcpVCIoThread_init_def TcpVCSendThread_init_def StopableThread_init_def TcpVirtualChannel_init_def)
  have "v = v0\<lparr>ch_rx := ch_rx v, hasDisconnectCallback := b\<rparr>"
    using assms(3) v0 by (auto simp: vc_open_def Let_def and_then_eq_Inr TcpVirtualChannel_init_def)
  then show ?thesis using sreach.step [OF sreach.init [OF assms(1,2) v0] sstep.Receive] by metis
qed

text \<open>Sending on a channel never faults.\<close>

lemma vc_send_total:
  assumes "cache_ok (sentDataCache v)"
  obtains v' where "vc_send (Some d) v = Inr v'" and "cache_ok (sentDataCache v')"
proof (cases "sendable d v")
  case True
  obtain v' sc' where "vc_send (Some d) v = Inr v'" "cache_ok sc'"
    "v' = v\<lparr>lastSendMessageId := lastSendMessageId v + 1, sentDataCache := sc',
      sendQueue := bq_enqueue (VCDataPacket_bytes (lastSendMessageId v) d) (sendQueue v)\<rparr>"
    by (rule vc_send_accept [OF True assms])
  then show ?thesis using that [of v'] by simp
next
  case False
  then show ?thesis using that [of v] vc_send_reject [of "Some d" v] assms by simp
qed

lemma linv_reach: "sreach s \<Longrightarrow> linv s"
proof (induction rule: sreach.induct)
  case (init fds now now' c)
  then show ?case by (intro linv_init)
next
  case (step s s')
  then show ?case using linv_step sinv_reach by blast
qed

lemma accepted_somewhere:
  assumes "sreach (c, ds)" and "opened c" and "i < length ds"
  shows "waiting c (VCDataPacket_bytes (word_of_nat i) (ds ! i)) \<or>
     (\<exists>k < length (heap c). \<exists>ps rest. wire (heap c ! k) = stream_bytes (ps @ [PData (word_of_nat i) (ds ! i)]) @ rest \<and> good_packets ds ps)"
proof -
  let ?p = "VCDataPacket_bytes (word_of_nat i) (ds ! i)"
  have inv: "sinv (c, ds)" by (rule sinv_reach [OF assms(1)])
  have "?p \<in> data_packets ds" using assms(3) by (auto simp: data_packets_def)
  then have "waiting c ?p \<or> carried (wire_packets ds) (heap c) ?p" using linv_reach [OF assms(1)] assms(2) by (simp add: linv_def)
  moreover have "\<exists>k < length (heap c). \<exists>ps rest. wire (heap c ! k) = stream_bytes (ps @ [PData (word_of_nat i) (ds ! i)]) @ rest \<and> good_packets ds ps"
    if "carried (wire_packets ds) (heap c) ?p"
  proof -
    from that obtain k ws rest where k: "k < length (heap c)" "wire (heap c ! k) = concat ws @ ?p @ rest" "set ws \<subseteq> wire_packets ds"
      unfolding carried_def by blast
    obtain ps where ps: "map packet_bytes ps = ws" "good_packets ds ps" using wire_packets_good [OF inv k(3)] by blast
    have "wire (heap c ! k) = stream_bytes (ps @ [PData (word_of_nat i) (ds ! i)]) @ rest" using k(2) ps(1) by auto
    with k(1) ps(2) show ?thesis by blast
  qed
  ultimately show ?thesis by blast
qed

text \<open>
  C7: nothing accepted is forgotten. In every reachable state of an open channel, each payload that
  \<^verbatim>\<open>send\<close> accepted is, under its number, still in the send queue, or retained by the send thread for its
  next pass, or written as one of the whole packets on the stream of some connection. Failed, partial
  and repeated attempts, lost and replaced connections change nothing about that.
\<close>

theorem accepted_not_forgotten:
  assumes "sreach (c, ds)" and "opened c" and "i < length ds"
  shows "waiting c (VCDataPacket_bytes (word_of_nat i) (ds ! i)) \<or>
     (\<exists>k < length (heap c). \<exists>ps rest. wire (heap c ! k) = stream_bytes (ps @ [PData (word_of_nat i) (ds ! i)]) @ rest \<and> good_packets ds ps)"
  by (rule accepted_somewhere [OF assms])

theorem accepted_not_forgotten_witness:
  "\<exists>c. sreach (c, [[65]]) \<and> opened c \<and> (waiting c (VCDataPacket_bytes 0 [65]) \<or>
     (\<exists>k < length (heap c). \<exists>ps rest. wire (heap c ! k) = stream_bytes (ps @ [PData 0 [65]]) @ rest \<and> good_packets [[65]] ps))"
proof -
  have s: "sendable [65] example_chan"
    by (simp add: sendable_def VC_MAX_DATA_PAYLOAD_SIZE_def bq_approxSize_def BlockingQueue_init_def)
  obtain c' where c': "vc_send (Some [65]) example_chan = Inr c'" "opened c' = opened example_chan"
    by (rule vc_send_accept [OF s]) auto
  have r: "sreach (c', [[65]])" using sreach.step [OF open_reach sstep.Send [OF c'(1)]] s by simp
  have op: "opened c'" using c'(2) s by (simp add: sendable_def)
  show ?thesis using accepted_not_forgotten [OF r op, of 0] r op by auto
qed

end
