(* ===== verification/Server.thy ===== *)
theory Server
  imports Channel_Props Uvt_Protocol
begin

text \<open>
  The server program (\<^verbatim>\<open>src/src/server\<close>): configuration, peers that collect the TCP sockets of a
  client, the registry of virtual channels, the choice of the slot that a reconnected socket goes to,
  and one round of the accept loop with every branch. Answers of the kernel and clock readings are
  inputs; sockets that the server's own code closes are recorded in \<open>sv_closed\<close>, sockets that a
  channel closes are recorded in its connections.
\<close>

section \<open>Configuration\<close>

record ServerConfiguration =
  portNumber :: int
  udpTargetPort :: int

definition ServerConfiguration_init :: ServerConfiguration where
  "ServerConfiguration_init = \<lparr>portNumber = 7001, udpTargetPort = 7001\<rparr>"

definition setPortNumber :: "int \<Rightarrow> ServerConfiguration \<Rightarrow> ServerConfiguration" where
  "setPortNumber port c = c\<lparr>portNumber := port\<rparr>"

definition setUdpTargetPort :: "int \<Rightarrow> ServerConfiguration \<Rightarrow> ServerConfiguration" where
  "setUdpTargetPort port c = c\<lparr>udpTargetPort := port\<rparr>"

definition getPortNumber :: "ServerConfiguration \<Rightarrow> int" where
  "getPortNumber c = portNumber c"

definition getUdpTargetPort :: "ServerConfiguration \<Rightarrow> int" where
  "getUdpTargetPort c = udpTargetPort c"

text \<open>The single instance is made at the first call; the second result is the pointer afterwards.\<close>

definition getInstance :: "ServerConfiguration option \<Rightarrow> ServerConfiguration \<times> ServerConfiguration option" where
  "getInstance inst =
     (case inst of None \<Rightarrow> (ServerConfiguration_init, Some ServerConfiguration_init) | Some c \<Rightarrow> (c, inst))"

lemma getInstance_same:
  "snd (getInstance inst) = Some (fst (getInstance inst))"
  "getInstance (snd (getInstance inst)) = getInstance inst"
  by (auto simp: getInstance_def split: option.split)

section \<open>Peers\<close>

text \<open>\<open>pr_udpAddress\<close> is the port in host order of the address \<^verbatim>\<open>127.0.0.1\<close>; unset it is \<open>None\<close>.\<close>

record Peer =
  pr_clientId :: u32
  pr_sockets :: "int list"
  pr_udpSocket :: int
  pr_udpAddress :: "u16 option"

definition Peer_init :: "u32 \<Rightarrow> Peer" where
  "Peer_init clientId = \<lparr>pr_clientId = clientId, pr_sockets = [], pr_udpSocket = -1, pr_udpAddress = None\<rparr>"

text \<open>The second result lists the sockets that the call closed.\<close>

definition AddSocket :: "int \<Rightarrow> Peer \<Rightarrow> Peer \<times> int list" where
  "AddSocket socket p =
     (if length (pr_sockets p) \<ge> VC_TCP_CONNECTIONS then (p, [socket])
      else (p\<lparr>pr_sockets := pr_sockets p @ [socket]\<rparr>, []))"

definition GetSocketCount :: "Peer \<Rightarrow> nat" where
  "GetSocketCount p = length (pr_sockets p)"

definition SetUdpSocket :: "int \<Rightarrow> Peer \<Rightarrow> Peer" where
  "SetUdpSocket socket p = p\<lparr>pr_udpSocket := socket\<rparr>"

definition SetUdpAddress :: "u16 \<Rightarrow> Peer \<Rightarrow> Peer" where
  "SetUdpAddress addr p = p\<lparr>pr_udpAddress := Some addr\<rparr>"

definition RemoveAllSockets :: "Peer \<Rightarrow> Peer \<times> int list" where
  "RemoveAllSockets p = (p\<lparr>pr_sockets := []\<rparr>, pr_sockets p)"

definition GetClientId :: "Peer \<Rightarrow> u32" where
  "GetClientId p = pr_clientId p"

definition GetSockets :: "Peer \<Rightarrow> int list" where
  "GetSockets p = pr_sockets p"

definition GetUdpSocket :: "Peer \<Rightarrow> int" where
  "GetUdpSocket p = pr_udpSocket p"

text \<open>Assignment copies the four members and leaves the mutex alone; both peers then hold the same descriptors.\<close>

definition Peer_assign :: "Peer \<Rightarrow> Peer \<Rightarrow> Peer" where
  "Peer_assign other p =
     (if p = other then p
      else p\<lparr>pr_clientId := pr_clientId other, pr_sockets := pr_sockets other,
             pr_udpSocket := pr_udpSocket other, pr_udpAddress := pr_udpAddress other\<rparr>)"

lemma Peer_assign_copies: "Peer_assign other p = other"
  by (simp add: Peer_assign_def)

section \<open>The server's state\<close>

text \<open>
  A \<^verbatim>\<open>shared_ptr\<close> to a channel is an index into \<open>sv_chans\<close>. \<open>sv_owner\<close> holds, for each channel, what
  its disconnect callback captured; \<open>sv_udpThreads\<close> the detached threads that pump datagrams.
\<close>

record server =
  sv_running :: bool
  sv_serverSocket :: int
  sv_config :: ServerConfiguration
  socketToConnId :: "(int, u32) umap"
  clientConnSlots :: "(u32, (u32, int) umap) umap"
  peers :: "(u32, Peer) umap"
  vcs :: "(u32, nat) umap"
  sv_chans :: "chan list"
  sv_owner :: "(u32 \<times> int) option list"
  sv_udpThreads :: "(int \<times> nat) list"
  sv_closed :: "int list"

subsection \<open>Channel registry\<close>

definition VcManager_Add :: "u32 \<Rightarrow> nat \<Rightarrow> server \<Rightarrow> server" where
  "VcManager_Add clientId vc s = s\<lparr>vcs := AList.update clientId vc (vcs s)\<rparr>"

definition VcManager_Remove :: "u32 \<Rightarrow> server \<Rightarrow> server" where
  "VcManager_Remove clientId s = s\<lparr>vcs := AList.delete clientId (vcs s)\<rparr>"

definition VcManager_Exists :: "u32 \<Rightarrow> server \<Rightarrow> bool" where
  "VcManager_Exists clientId s \<longleftrightarrow> map_of (vcs s) clientId \<noteq> None"

definition VcManager_Get :: "u32 \<Rightarrow> server \<Rightarrow> nat option" where
  "VcManager_Get clientId s = map_of (vcs s) clientId"

subsection \<open>Peer registry\<close>

definition GetPeerById :: "u32 \<Rightarrow> server \<Rightarrow> Peer option" where
  "GetPeerById clientId s = map_of (peers s) clientId"

definition AddPeer :: "u32 \<Rightarrow> server \<Rightarrow> server" where
  "AddPeer clientId s =
     (case map_of (peers s) clientId of
        None \<Rightarrow> s\<lparr>peers := AList.update clientId (Peer_init clientId) (peers s)\<rparr>
      | Some p \<Rightarrow>
          if VcManager_Exists clientId s
          then let (p', closed') = RemoveAllSockets p
               in s\<lparr>peers := AList.update clientId p' (peers s), sv_closed := sv_closed s @ closed'\<rparr>
          else s)"

definition RemovePeer :: "u32 \<Rightarrow> server \<Rightarrow> server" where
  "RemovePeer clientId s = s\<lparr>peers := AList.delete clientId (peers s)\<rparr>"

definition CloseAllSockets :: "server \<Rightarrow> server" where
  "CloseAllSockets s =
     s\<lparr>sv_closed := sv_closed s @ concat (map (\<lambda>(k, p). pr_sockets p @ [pr_udpSocket p]) (peers s)), peers := []\<rparr>"

section \<open>Which slot a reconnected socket replaces\<close>

definition DecideReplaceSlot :: "int \<Rightarrow> int \<Rightarrow> int \<Rightarrow> int list \<Rightarrow> int" where
  "DecideReplaceSlot connIdSlot slotIndex numSlots deadSlots =
     (if connIdSlot \<ge> 0 then connIdSlot
      else if slotIndex \<ge> 0 \<and> slotIndex < numSlots then slotIndex
      else if deadSlots \<noteq> [] then deadSlots ! 0
      else -1)"

section \<open>The accept loop\<close>

record accept_env =
  ae_client :: int
  ae_recv :: "(errno + bytes) list"
  ae_udp :: int
  ae_udpBind :: int
  ae_now :: time
  ae_openNow :: time

text \<open>\<open>LoopEnds\<close> is a \<^verbatim>\<open>break\<close>: the server accepts nothing more.\<close>

datatype accept_end = LoopGoesOn | LoopEnds

definition close_socket :: "int \<Rightarrow> server \<Rightarrow> server" where
  "close_socket fd s = s\<lparr>sv_closed := sv_closed s @ [fd]\<rparr>"

text \<open>The disconnect callback that the server installs on a channel.\<close>

definition on_vc_disconnect :: "u32 \<Rightarrow> int \<Rightarrow> server \<Rightarrow> server" where
  "on_vc_disconnect clientId udpSocket s =
     (let s1 = (if VcManager_Exists clientId s then VcManager_Remove clientId s else s);
          s2 = close_socket udpSocket (RemovePeer clientId s1)
      in s2\<lparr>clientConnSlots := AList.delete clientId (clientConnSlots s2)\<rparr>)"

text \<open>An operation of the channel \<open>i\<close>; when it invoked the disconnect callback, the callback runs.\<close>

definition on_chan :: "nat \<Rightarrow> chan \<Rightarrow> server \<Rightarrow> server" where
  "on_chan i c' s =
     (let s1 = s\<lparr>sv_chans := (sv_chans s)[i := c']\<rparr>
      in if disconnects c' > disconnects (sv_chans s ! i)
         then case sv_owner s ! i of None \<Rightarrow> s1 | Some (clientId, udp) \<Rightarrow> on_vc_disconnect clientId udp s1
         else s1)"

text \<open>Reading the bind message: an answer with fewer octets than asked for passes the check \<^verbatim>\<open>received <= 0\<close>.\<close>

definition receive_bind :: "(errno + bytes) list \<Rightarrow> MsgBind option option" where
  "receive_bind answers =
     (case RecvTcpDataWithSize answers sizeof_MsgBind [] of
        None \<Rightarrow> None
      | Some (received, buf) \<Rightarrow>
          Some (if received \<le> 0 then None
                else ExtractMsgBind (buf @ replicate (sizeof_MsgBind - length buf) 0)))"

definition slot_of_connId :: "u32 \<Rightarrow> u32 \<Rightarrow> server \<Rightarrow> int" where
  "slot_of_connId clientId connectionId s =
     (if connectionId \<noteq> 0
      then case map_of (clientConnSlots s) clientId of
             None \<Rightarrow> -1
           | Some slots \<Rightarrow> (case map_of slots connectionId of None \<Rightarrow> -1 | Some i \<Rightarrow> i)
      else -1)"

definition register_connId :: "u32 \<Rightarrow> u32 \<Rightarrow> int \<Rightarrow> server \<Rightarrow> server" where
  "register_connId clientId connectionId targetSlot s =
     (if connectionId \<noteq> 0
      then let slotMap = (case map_of (clientConnSlots s) clientId of None \<Rightarrow> [] | Some m \<Rightarrow> m)
           in s\<lparr>clientConnSlots := AList.update clientId
                  (AList.update connectionId targetSlot (filter (\<lambda>(k, v). v \<noteq> targetSlot) slotMap)) (clientConnSlots s)\<rparr>
      else s)"

definition replace_slot :: "accept_env \<Rightarrow> MsgBind \<Rightarrow> nat \<Rightarrow> server \<Rightarrow> server" where
  "replace_slot e b vc s =
     (let clientId = mb_clientId b; connIdSlot = slot_of_connId clientId (mb_connectionId b) s;
          targetSlot = DecideReplaceSlot connIdSlot (sint (mb_slotIndex b)) (int VC_TCP_CONNECTIONS) (getDeadSlots (sv_chans s ! vc))
      in if targetSlot < 0 then close_socket (ae_client e) s
         else register_connId clientId (mb_connectionId b) targetSlot
                (on_chan vc (replaceConnection targetSlot (ae_client e) (ae_now e) (sv_chans s ! vc)) s))"

text \<open>The loop that turns the recorded connection ids of the collected sockets into the slot map.\<close>

fun build_slots :: "nat \<Rightarrow> int list \<Rightarrow> (int, u32) umap \<Rightarrow> (u32, int) umap \<Rightarrow> (int, u32) umap \<times> (u32, int) umap" where
  "build_slots i [] ids slots = (ids, slots)"
| "build_slots i (fd # fds) ids slots =
     (case map_of ids fd of
        None \<Rightarrow> build_slots (Suc i) fds ids slots
      | Some cid \<Rightarrow> build_slots (Suc i) fds (AList.delete fd ids) (AList.update cid (int i) slots))"

definition create_vc :: "accept_env \<Rightarrow> u32 \<Rightarrow> int list \<Rightarrow> server \<Rightarrow> nat \<times> server" where
  "create_vc e clientId fds s =
     (let vc = length (sv_chans s); c = TcpVirtualChannel_init fds (ae_now e);
          s1 = VcManager_Add clientId vc (s\<lparr>sv_chans := sv_chans s @ [c\<lparr>ch_rx := (ch_rx c)\<lparr>reorderTimeoutMs := 8000\<rparr>\<rparr>],
                 sv_owner := sv_owner s @ [None]\<rparr>);
          slotMap = (case map_of (clientConnSlots s1) clientId of None \<Rightarrow> [] | Some m \<Rightarrow> m);
          (ids, slots) = build_slots 0 fds (socketToConnId s1) slotMap
      in (vc, s1\<lparr>socketToConnId := ids, clientConnSlots := AList.update clientId slots (clientConnSlots s1)\<rparr>))"

text \<open>Wiring the channel to its UDP socket, and opening it.\<close>

definition start_vc :: "accept_env \<Rightarrow> u32 \<Rightarrow> nat \<Rightarrow> server \<Rightarrow> (accept_end \<times> server) outcome" where
  "start_vc e clientId vc s =
     (if ae_udp e = -1 then Inr (LoopEnds, s)
      else if ae_udpBind e < 0 then Inr (LoopEnds, close_socket (ae_udp e) s)
      else let c = sv_chans s ! vc;
               c1 = c\<lparr>ch_rx := (ch_rx c)\<lparr>hasReceiveCallback := True\<rparr>, hasDisconnectCallback := True\<rparr>
           in and_then (vc_open (ae_openNow e) c1) (\<lambda>c2.
              Inr (LoopGoesOn, s\<lparr>
                peers := (case map_of (peers s) clientId of None \<Rightarrow> peers s
                          | Some p \<Rightarrow> AList.update clientId
                              (SetUdpAddress (word_of_int (udpTargetPort (sv_config s))) (SetUdpSocket (ae_udp e) p)) (peers s)),
                sv_owner := (sv_owner s)[vc := Some (clientId, ae_udp e)],
                sv_udpThreads := sv_udpThreads s @ [(ae_udp e, vc)],
                sv_chans := (sv_chans s)[vc := c2]\<rparr>)))"

text \<open>Collecting the sockets of a client until a channel can be made of them.\<close>

definition accumulate :: "accept_env \<Rightarrow> MsgBind \<Rightarrow> server \<Rightarrow> (accept_end \<times> server) outcome" where
  "accumulate e b s =
     (let clientId = mb_clientId b;
          s1 = (if mb_connectionId b \<noteq> 0
                then s\<lparr>socketToConnId := AList.update (ae_client e) (mb_connectionId b) (socketToConnId s)\<rparr> else s);
          s2 = AddPeer clientId s1
      in case GetPeerById clientId s2 of
           None \<Rightarrow> Inr (LoopGoesOn, close_socket (ae_client e) s2)
         | Some p \<Rightarrow>
             let (p', closed') = AddSocket (ae_client e) p;
                 s3 = s2\<lparr>peers := AList.update clientId p' (peers s2), sv_closed := sv_closed s2 @ closed'\<rparr>
             in if GetSocketCount p' \<ge> VC_TCP_CONNECTIONS
                then let (vc, s4) = create_vc e clientId (pr_sockets p') s3 in start_vc e clientId vc s4
                else Inr (LoopGoesOn, s3))"

text \<open>
  One round of the loop. \<open>None\<close>: still blocked in \<^verbatim>\<open>recv\<close>. Every channel of the registry is a
  \<^verbatim>\<open>TcpVirtualChannel\<close>, so the branch for another type of channel does not occur.
\<close>

definition accept_step :: "accept_env \<Rightarrow> server \<Rightarrow> (accept_end \<times> server) outcome option" where
  "accept_step e s =
     (if ae_client e < 0 then Some (Inr (LoopGoesOn, s))
      else case receive_bind (ae_recv e) of
             None \<Rightarrow> None
           | Some None \<Rightarrow> Some (Inr (LoopGoesOn, close_socket (ae_client e) s))
           | Some (Some b) \<Rightarrow>
               (case VcManager_Get (mb_clientId b) s of
                  None \<Rightarrow> Some (accumulate e b s)
                | Some vc \<Rightarrow>
                    if sint (mb_slotIndex b) < 0
                    then Some (and_then (vc_close OtherCaller (sv_chans s ! vc)) (\<lambda>c'.
                           let s1 = on_chan vc c' s;
                               s2 = (if VcManager_Exists (mb_clientId b) s1 then VcManager_Remove (mb_clientId b) s1 else s1)
                           in accumulate e b s2))
                    else Some (Inr (LoopGoesOn, replace_slot e b vc s))))"

section \<open>Start, stop, datagrams\<close>

definition Listen :: "int \<Rightarrow> int \<Rightarrow> int \<Rightarrow> server \<Rightarrow> bool \<times> server" where
  "Listen created bound listening s =
     (let s1 = s\<lparr>sv_serverSocket := created\<rparr>
      in if created = -1 then (False, s1)
         else if bound < 0 then (False, close_socket created s1)
         else if listening < 0 then (False, close_socket created s1)
         else (True, s1))"

definition server_stop :: "server \<Rightarrow> server" where
  "server_stop s =
     (let s1 = s\<lparr>sv_running := False\<rparr>
      in if sv_serverSocket s1 \<noteq> -1 then (close_socket (sv_serverSocket s1) s1)\<lparr>sv_serverSocket := -1\<rparr> else s1)"

text \<open>
  One round of the thread that pumps datagrams from the UDP socket of the channel \<open>vc\<close> into it:
  \<open>Inl\<close> is an error of \<^verbatim>\<open>recv\<close>. The result says whether the thread goes on.
\<close>

definition udp_pump :: "errno + bytes \<Rightarrow> nat \<Rightarrow> server \<Rightarrow> (bool \<times> server) outcome" where
  "udp_pump answer vc s =
     (case answer of
        Inl e \<Rightarrow> Inr (False, s)
      | Inr data \<Rightarrow> if data = [] then Inr (False, s)
          else and_then (vc_send (Some data) (sv_chans s ! vc)) (\<lambda>c'. Inr (True, on_chan vc c' s)))"

end
