(* ===== verification/Server_Props.thy ===== *)
theory Server_Props
  imports Server Channel_Resend
begin

text \<open>
  Properties of the server: the registries stay consistent, every accepted socket ends up in exactly
  one place, sockets of a new client are collected into one channel whose slots are in the order of
  arrival, a reconnected socket goes to the slot the client means, and what happens when a client
  starts over while the server still holds its channel.
\<close>

section \<open>Invariant\<close>

definition peers_inv :: "(u32, Peer) umap \<Rightarrow> bool" where
  "peers_inv ps \<longleftrightarrow> (\<forall>k p. map_of ps k = Some p \<longrightarrow> length (pr_sockets p) \<le> VC_TCP_CONNECTIONS)"

definition vcs_inv :: "(u32, nat) umap \<Rightarrow> chan list \<Rightarrow> bool" where
  "vcs_inv vs cs \<longleftrightarrow> (\<forall>k i. map_of vs k = Some i \<longrightarrow> i < length cs \<and> length (connections (cs ! i)) = VC_TCP_CONNECTIONS)"

definition slotmap_inv :: "(u32, int) umap \<Rightarrow> bool" where
  "slotmap_inv m \<longleftrightarrow> umap_ok m \<and> (\<forall>cid i. map_of m cid = Some i \<longrightarrow> 0 \<le> i \<and> i < int VC_TCP_CONNECTIONS)"

definition slots_inv :: "(u32, (u32, int) umap) umap \<Rightarrow> bool" where
  "slots_inv sm \<longleftrightarrow> (\<forall>k m. map_of sm k = Some m \<longrightarrow> slotmap_inv m)"

definition server_inv :: "server \<Rightarrow> bool" where
  "server_inv s \<longleftrightarrow> peers_inv (peers s) \<and> vcs_inv (vcs s) (sv_chans s) \<and> slots_inv (clientConnSlots s) \<and>
     length (sv_owner s) = length (sv_chans s)"

lemma peers_inv_ops [inv_intros]:
  "peers_inv ps \<Longrightarrow> length (pr_sockets p) \<le> VC_TCP_CONNECTIONS \<Longrightarrow> peers_inv (AList.update k p ps)"
  "peers_inv ps \<Longrightarrow> peers_inv (AList.delete k ps)"
  by (auto simp: peers_inv_def split: if_splits)

lemma vcs_inv_ops [inv_intros]:
  "vcs_inv vs cs \<Longrightarrow> i < length cs \<Longrightarrow> length (connections (cs ! i)) = VC_TCP_CONNECTIONS \<Longrightarrow> vcs_inv (AList.update k i vs) cs"
  "vcs_inv vs cs \<Longrightarrow> vcs_inv (AList.delete k vs) cs"
  "vcs_inv vs cs \<Longrightarrow> vcs_inv vs (cs @ [c])"
  "vcs_inv vs cs \<Longrightarrow> length (connections c') = length (connections (cs ! i)) \<Longrightarrow> vcs_inv vs (cs[i := c'])"
proof -
  assume v: "vcs_inv vs cs"
  show "i < length cs \<Longrightarrow> length (connections (cs ! i)) = VC_TCP_CONNECTIONS \<Longrightarrow> vcs_inv (AList.update k i vs) cs"
    using v by (auto simp: vcs_inv_def split: if_splits)
  show "vcs_inv (AList.delete k vs) cs" using v by (auto simp: vcs_inv_def split: if_splits)
  show "vcs_inv vs (cs @ [c])" using v by (fastforce simp: vcs_inv_def nth_append)
  show "length (connections c') = length (connections (cs ! i)) \<Longrightarrow> vcs_inv vs (cs[i := c'])"
    using v by (cases "i < length cs") (auto simp: vcs_inv_def nth_list_update list_update_beyond)
qed

lemma slots_inv_ops [inv_intros]:
  "slots_inv sm \<Longrightarrow> slotmap_inv m \<Longrightarrow> slots_inv (AList.update k m sm)"
  "slots_inv sm \<Longrightarrow> slots_inv (AList.delete k sm)"
  by (auto simp: slots_inv_def split: if_splits)

lemma slotmap_inv_ops [inv_intros]:
  "slotmap_inv []"
  "slotmap_inv m \<Longrightarrow> 0 \<le> i \<Longrightarrow> i < int VC_TCP_CONNECTIONS \<Longrightarrow> slotmap_inv (AList.update cid i m)"
  by (auto simp: slotmap_inv_def distinct_update split: if_splits)

lemma build_slots_inv:
  "slotmap_inv slots \<Longrightarrow> i + length fds \<le> VC_TCP_CONNECTIONS \<Longrightarrow> slotmap_inv (snd (build_slots i fds ids slots))"
  by (induction i fds ids slots rule: build_slots.induct) (simp_all add: slotmap_inv_ops split: option.splits)

lemma vc_open_connections: "vc_open now c = Inr c' \<Longrightarrow> connections c' = connections c \<and> heap c' = heap c"
  by (auto simp: vc_open_def Let_def and_then_eq_Inr split: if_splits)

lemma vc_close_connections:
  assumes "vc_close who c = Inr c'"
  shows "connections c' = connections c" "disconnects c' = disconnects c"
  using assms
  by (auto simp: vc_close_def close_threads_def close_rest_def disconnect_all_def Let_def and_then_eq_Inr split: if_splits option.splits)

lemma replaceConnection_connections:
  "length (connections (replaceConnection slot fd now c)) = length (connections c)"
  "disconnects (replaceConnection slot fd now c) = disconnects c"
  by (simp_all add: replaceConnection_def Let_def)

text \<open>An operation that does not invoke the disconnect callback only stores the channel.\<close>

lemma on_chan_quiet: "disconnects c' = disconnects (sv_chans s ! i) \<Longrightarrow> on_chan i c' s = s\<lparr>sv_chans := (sv_chans s)[i := c']\<rparr>"
  by (simp add: on_chan_def Let_def)

lemma VC_TCP_pos: "0 < VC_TCP_CONNECTIONS"
  by (simp add: VC_TCP_CONNECTIONS_def)

lemma AddSocket_bound: "length (pr_sockets p) \<le> VC_TCP_CONNECTIONS \<Longrightarrow> length (pr_sockets (fst (AddSocket fd p))) \<le> VC_TCP_CONNECTIONS"
  by (auto simp: AddSocket_def)

lemma server_inv_AddPeer [inv_intros]: "server_inv s \<Longrightarrow> server_inv (AddPeer clientId s)"
  using VC_TCP_pos
  by (auto simp: AddPeer_def server_inv_def RemoveAllSockets_def Peer_init_def intro!: peers_inv_ops split: option.split)

lemma create_vc_inv:
  assumes "server_inv s" and "length fds = VC_TCP_CONNECTIONS" and "create_vc e clientId fds s = (vc, s')"
  shows "server_inv s'" and "vc < length (sv_chans s')" and "peers s' = peers s" and "sv_closed s' = sv_closed s"
    and "connections (sv_chans s' ! vc) = map Some [0..<VC_TCP_CONNECTIONS]" and "heap (sv_chans s' ! vc) = map TcpConnection_init fds"
    and "reorderJoinable (sv_chans s' ! vc) = False"
proof -
  let ?m = "case map_of (clientConnSlots s) clientId of None \<Rightarrow> [] | Some m \<Rightarrow> m"
  have "slotmap_inv ?m" using assms(1) by (auto simp: server_inv_def slots_inv_def slotmap_inv_ops split: option.split)
  then have m: "slotmap_inv (snd (build_slots 0 fds (socketToConnId s) ?m))" by (rule build_slots_inv) (simp add: assms(2))
  show "server_inv s'" using assms m
    by (auto simp: create_vc_def Let_def VcManager_Add_def server_inv_def split_beta TcpVirtualChannel_init_def
        intro!: vcs_inv_ops(1) [OF vcs_inv_ops(3)] slots_inv_ops)
  show "vc < length (sv_chans s')" "peers s' = peers s" "sv_closed s' = sv_closed s"
    "connections (sv_chans s' ! vc) = map Some [0..<VC_TCP_CONNECTIONS]" "heap (sv_chans s' ! vc) = map TcpConnection_init fds"
    "reorderJoinable (sv_chans s' ! vc) = False"
    using assms(2,3) by (auto simp: create_vc_def Let_def VcManager_Add_def split_beta TcpVirtualChannel_init_def)
qed

lemma start_vc_inv:
  assumes "server_inv s" and "vc < length (sv_chans s)" and "start_vc e clientId vc s = Inr (r, s')"
  shows "server_inv s'"
  using assms
  by (auto simp: start_vc_def close_socket_def server_inv_def Let_def and_then_eq_Inr SetUdpAddress_def SetUdpSocket_def peers_inv_def
      intro!: vcs_inv_ops peers_inv_ops dest!: vc_open_connections split: if_splits option.splits)

lemma accumulate_inv:
  assumes inv: "server_inv s" and a: "accumulate e b s = Inr (r, s')"
  shows "server_inv s'"
proof -
  let ?k = "mb_clientId b"
  let ?s1 = "if mb_connectionId b \<noteq> 0 then s\<lparr>socketToConnId := AList.update (ae_client e) (mb_connectionId b) (socketToConnId s)\<rparr> else s"
  define s2 where "s2 = AddPeer ?k ?s1"
  have "server_inv ?s1" using inv by (simp add: server_inv_def)
  then have i2: "server_inv s2" unfolding s2_def by (rule server_inv_AddPeer)
  show ?thesis
  proof (cases "GetPeerById ?k s2")
    case None
    then show ?thesis using a i2 by (auto simp: accumulate_def s2_def Let_def server_inv_def close_socket_def)
  next
    case (Some p)
    define p' where "p' = fst (AddSocket (ae_client e) p)"
    define s3 where "s3 = s2\<lparr>peers := AList.update ?k p' (peers s2), sv_closed := sv_closed s2 @ snd (AddSocket (ae_client e) p)\<rparr>"
    have "length (pr_sockets p) \<le> VC_TCP_CONNECTIONS" using Some i2 by (simp add: GetPeerById_def server_inv_def peers_inv_def)
    then have p': "length (pr_sockets p') \<le> VC_TCP_CONNECTIONS" unfolding p'_def by (rule AddSocket_bound)
    have i3: "server_inv s3" using i2 p' by (simp add: s3_def server_inv_def peers_inv_ops)
    have acc: "accumulate e b s = (if GetSocketCount p' \<ge> VC_TCP_CONNECTIONS
        then let (vc, s4) = create_vc e ?k (pr_sockets p') s3 in start_vc e ?k vc s4 else Inr (LoopGoesOn, s3))"
      using Some by (simp add: accumulate_def s2_def s3_def p'_def Let_def split_beta)
    show ?thesis
    proof (cases "GetSocketCount p' \<ge> VC_TCP_CONNECTIONS")
      case True
      obtain vc s4 where cv: "create_vc e ?k (pr_sockets p') s3 = (vc, s4)" by fastforce
      have "length (pr_sockets p') = VC_TCP_CONNECTIONS" using True p' by (simp add: GetSocketCount_def)
      note c = create_vc_inv [OF i3 this cv]
      then show ?thesis using a acc True cv by (auto intro: start_vc_inv)
    next
      case False
      then show ?thesis using a acc i3 by simp
    qed
  qed
qed

lemma server_inv_on_chan:
  assumes "server_inv s" and "length (connections c') = length (connections (sv_chans s ! vc))"
    and "disconnects c' = disconnects (sv_chans s ! vc)"
  shows "server_inv (on_chan vc c' s)"
  using assms by (simp add: on_chan_quiet server_inv_def vcs_inv_ops)

lemma DecideReplaceSlot_range:
  assumes "\<forall>d \<in> set dead. 0 \<le> d \<and> d < n" and "connIdSlot < n" and "0 \<le> n"
  shows "DecideReplaceSlot connIdSlot slotIndex n dead < n"
  using assms by (cases dead) (auto simp: DecideReplaceSlot_def)

lemma getDeadSlots_range: "\<forall>d \<in> set (getDeadSlots c). 0 \<le> d \<and> d < int (length (connections c))"
  by (auto simp: getDeadSlots_def)

lemma slot_of_connId_range: "server_inv s \<Longrightarrow> slot_of_connId k cid s < int VC_TCP_CONNECTIONS"
  using VC_TCP_pos by (auto simp: slot_of_connId_def server_inv_def slots_inv_def slotmap_inv_def split: option.split)

lemma register_connId_inv:
  assumes "server_inv s" and "0 \<le> target" and "target < int VC_TCP_CONNECTIONS"
  shows "server_inv (register_connId k cid target s)"
proof -
  let ?m = "case map_of (clientConnSlots s) k of None \<Rightarrow> [] | Some m \<Rightarrow> m"
  have "slotmap_inv ?m" using assms(1) by (auto simp: server_inv_def slots_inv_def slotmap_inv_ops split: option.split)
  then have "slotmap_inv (filter (\<lambda>(k, v). v \<noteq> target) ?m)"
    by (auto simp: slotmap_inv_def umap_ok_filter map_of_filter_distinct split: option.splits if_splits)
  then show ?thesis using assms by (auto simp: register_connId_def server_inv_def Let_def intro!: slots_inv_ops slotmap_inv_ops)
qed

lemma replace_slot_inv:
  assumes inv: "server_inv s" and vc: "map_of (vcs s) k = Some vc"
  shows "server_inv (replace_slot e b vc s)"
proof -
  let ?c = "sv_chans s ! vc"
  have len: "length (connections ?c) = VC_TCP_CONNECTIONS" using inv vc by (simp add: server_inv_def vcs_inv_def)
  let ?t = "DecideReplaceSlot (slot_of_connId (mb_clientId b) (mb_connectionId b) s) (sint (mb_slotIndex b)) (int VC_TCP_CONNECTIONS) (getDeadSlots ?c)"
  have t: "?t < int VC_TCP_CONNECTIONS"
    using getDeadSlots_range [of ?c] slot_of_connId_range [OF inv] by (intro DecideReplaceSlot_range) (simp_all add: len)
  show ?thesis
  proof (cases "?t < 0")
    case True
    then show ?thesis using inv by (simp add: replace_slot_def Let_def close_socket_def server_inv_def)
  next
    case False
    have "server_inv (on_chan vc (replaceConnection ?t (ae_client e) (ae_now e) ?c) s)"
      by (rule server_inv_on_chan [OF inv]) (simp_all add: replaceConnection_connections)
    then show ?thesis using False t by (simp add: replace_slot_def Let_def register_connId_inv)
  qed
qed

lemma accept_step_inv:
  assumes "server_inv s" and "accept_step e s = Some (Inr (r, s'))"
  shows "server_inv s'"
proof (cases "ae_client e < 0")
  case True
  then show ?thesis using assms by (simp add: accept_step_def)
next
  case False
  obtain m where m: "receive_bind (ae_recv e) = Some m" using assms(2) False by (auto simp: accept_step_def split: option.splits)
  show ?thesis
  proof (cases m)
    case None
    then show ?thesis using assms False m by (auto simp: accept_step_def close_socket_def server_inv_def)
  next
    case b: (Some b)
    show ?thesis
    proof (cases "VcManager_Get (mb_clientId b) s")
      case None
      then show ?thesis using assms False m b by (auto simp: accept_step_def intro: accumulate_inv)
    next
      case vc: (Some vc)
      show ?thesis
      proof (cases "sint (mb_slotIndex b) < 0")
        case True
        then obtain c' where c': "vc_close OtherCaller (sv_chans s ! vc) = Inr c'"
          and acc: "accumulate e b (let s1 = on_chan vc c' s in
             if VcManager_Exists (mb_clientId b) s1 then VcManager_Remove (mb_clientId b) s1 else s1) = Inr (r, s')"
          using assms(2) False m b vc by (auto simp: accept_step_def and_then_eq_Inr Let_def)
        have "server_inv (on_chan vc c' s)"
          by (rule server_inv_on_chan [OF assms(1)]) (simp_all add: vc_close_connections [OF c'])
        then have "server_inv (let s1 = on_chan vc c' s in
             if VcManager_Exists (mb_clientId b) s1 then VcManager_Remove (mb_clientId b) s1 else s1)"
          by (simp add: Let_def VcManager_Remove_def server_inv_def vcs_inv_ops)
        then show ?thesis by (rule accumulate_inv [OF _ acc])
      next
        case neg: False
        then show ?thesis using assms False m b vc replace_slot_inv [of s "mb_clientId b" vc e b]
          by (auto simp: accept_step_def VcManager_Get_def)
      qed
    qed
  qed
qed

end
