(* ===== verification/Server_Clients.thy ===== *)
theory Server_Clients
  imports Server_Props Channel_Life
begin

text \<open>
  Whole dialogues of the server with a client: the first connection of a new client, and the
  connection of a client that starts over while the server still holds its channel.
\<close>

section \<open>A new client\<close>

fun accept_all :: "accept_env list \<Rightarrow> server \<Rightarrow> (accept_end \<times> server) outcome option" where
  "accept_all [] s = Some (Inr (LoopGoesOn, s))"
| "accept_all (e # es) s =
     (case accept_step e s of
        None \<Rightarrow> None
      | Some (Inl f) \<Rightarrow> Some (Inl f)
      | Some (Inr (LoopEnds, s')) \<Rightarrow> Some (Inr (LoopEnds, s'))
      | Some (Inr (LoopGoesOn, s')) \<Rightarrow> accept_all es s')"

text \<open>The kernel hands over a new socket, and the client \<open>k\<close> introduces it under the connection id \<open>cid\<close>.\<close>

definition introduces :: "u32 \<Rightarrow> accept_env \<Rightarrow> int \<Rightarrow> u32 \<Rightarrow> bool" where
  "introduces k e fd cid \<longleftrightarrow> ae_client e = fd \<and> 0 \<le> fd \<and> cid \<noteq> 0 \<and>
     (\<exists>b. receive_bind (ae_recv e) = Some (Some b) \<and> mb_clientId b = k \<and> sint (mb_slotIndex b) < 0 \<and> mb_connectionId b = cid)"

definition collecting :: "u32 \<Rightarrow> int list \<Rightarrow> u32 list \<Rightarrow> server \<Rightarrow> bool" where
  "collecting k fds cids s \<longleftrightarrow> map_of (vcs s) k = None \<and> map_of (clientConnSlots s) k = None \<and> length cids = length fds \<and>
     (if fds = [] then map_of (peers s) k = None else \<exists>p. map_of (peers s) k = Some p \<and> pr_sockets p = fds) \<and>
     (\<forall>i < length fds. map_of (socketToConnId s) (fds ! i) = Some (cids ! i))"

text \<open>The peer of a client that is still collecting, after the next socket was added.\<close>

lemma accumulate_collecting:
  assumes c: "collecting k fds cids s" and b: "mb_clientId b = k" "mb_connectionId b = cid" "cid \<noteq> 0"
    and fresh: "ae_client e \<notin> set fds" and len: "length fds < VC_TCP_CONNECTIONS"
  obtains s3 p where "pr_sockets p = fds @ [ae_client e]"
    and "accumulate e b s = (if length (fds @ [ae_client e]) \<ge> VC_TCP_CONNECTIONS
       then let (vc, s4) = create_vc e k (fds @ [ae_client e]) s3 in start_vc e k vc s4 else Inr (LoopGoesOn, s3))"
    and "collecting k (fds @ [ae_client e]) (cids @ [cid]) s3" and "map_of (peers s3) k = Some p"
    and "sv_closed s3 = sv_closed s" and "sv_chans s3 = sv_chans s" and "sv_owner s3 = sv_owner s"
proof -
  let ?fd = "ae_client e"
  let ?s1 = "s\<lparr>socketToConnId := AList.update ?fd cid (socketToConnId s)\<rparr>"
  obtain q where q: "map_of (peers (AddPeer k ?s1)) k = Some q" "pr_sockets q = fds"
    using c by (cases "fds = []") (auto simp: collecting_def AddPeer_def Peer_init_def VcManager_Exists_def)
  have s2: "vcs (AddPeer k ?s1) = vcs s" "clientConnSlots (AddPeer k ?s1) = clientConnSlots s" "sv_chans (AddPeer k ?s1) = sv_chans s"
    "socketToConnId (AddPeer k ?s1) = AList.update ?fd cid (socketToConnId s)" "sv_closed (AddPeer k ?s1) = sv_closed s"
    "sv_owner (AddPeer k ?s1) = sv_owner s"
    using c by (auto simp: collecting_def AddPeer_def VcManager_Exists_def Let_def split: option.splits)
  have ne: "fds ! i \<noteq> ?fd" if "i < length fds" for i using fresh that by (metis nth_mem)
  let ?p = "q\<lparr>pr_sockets := fds @ [?fd]\<rparr>"
  let ?s3 = "(AddPeer k ?s1)\<lparr>peers := AList.update k ?p (peers (AddPeer k ?s1))\<rparr>"
  have add: "AddSocket ?fd q = (?p, [])" using q len by (simp add: AddSocket_def)
  show ?thesis
  proof (rule that [of ?p ?s3])
    show "accumulate e b s = (if length (fds @ [?fd]) \<ge> VC_TCP_CONNECTIONS
       then let (vc, s4) = create_vc e k (fds @ [?fd]) ?s3 in start_vc e k vc s4 else Inr (LoopGoesOn, ?s3))"
      using b q add by (simp add: accumulate_def GetPeerById_def GetSocketCount_def Let_def)
    show "collecting k (fds @ [?fd]) (cids @ [cid]) ?s3"
      using c ne s2 by (auto simp: collecting_def nth_append less_Suc_eq)
  qed (simp_all add: s2)
qed

lemma collect_one:
  assumes "collecting k fds cids s" and "introduces k e fd cid" and "fd \<notin> set fds" and "Suc (length fds) < VC_TCP_CONNECTIONS"
  obtains s' where "accept_step e s = Some (Inr (LoopGoesOn, s'))" and "collecting k (fds @ [fd]) (cids @ [cid]) s'"
proof -
  obtain b where b: "receive_bind (ae_recv e) = Some (Some b)" "mb_clientId b = k" "mb_connectionId b = cid" "cid \<noteq> 0" "ae_client e = fd" "0 \<le> fd"
    using assms(2) by (auto simp: introduces_def)
  have "VcManager_Get k s = None" using assms(1) by (simp add: collecting_def VcManager_Get_def)
  then have step: "accept_step e s = Some (accumulate e b s)" using b by (simp add: accept_step_def)
  show ?thesis
    by (rule accumulate_collecting [OF assms(1) b(2-4), of e]) (use assms(3,4) b step that in auto)
qed

lemma build_slots_lookup:
  assumes "distinct fds" and "length cids = length fds" and "\<forall>i < length fds. map_of ids (fds ! i) = Some (cids ! i)"
  shows "(cid \<notin> set cids \<longrightarrow> map_of (snd (build_slots n fds ids slots)) cid = map_of slots cid) \<and>
     (distinct cids \<longrightarrow> (\<forall>j < length fds. map_of (snd (build_slots n fds ids slots)) (cids ! j) = Some (int (n + j))))"
  using assms
proof (induction fds arbitrary: n ids slots cids cid)
  case Nil
  then show ?case by simp
next
  case (Cons fd fds)
  then obtain c cs where cids: "cids = c # cs" by (cases cids) auto
  have fd: "map_of ids fd = Some c" using Cons.prems(3) by (auto simp: cids)
  have "\<forall>i < length fds. map_of (AList.delete fd ids) (fds ! i) = Some (cs ! i)"
    using Cons.prems by (auto simp: cids nth_Cons)
  note IH = Cons.IH [OF _ _ this, of _ "Suc n" "AList.update c (int n) slots"]
  show ?case using IH [of cid] IH [of c] Cons.prems(1,2) fd
    by (auto simp: cids nth_Cons split: nat.split)
qed

text \<open>Making a channel of the collected sockets.\<close>

lemma start_created:
  assumes cv: "create_vc e k fds s = (vc, s4)" and "length fds = VC_TCP_CONNECTIONS" and "length (sv_owner s) = length (sv_chans s)"
    and "ae_udp e \<noteq> -1" and "0 \<le> ae_udpBind e"
  obtains s' c where "start_vc e k vc s4 = Inr (LoopGoesOn, s')" and "vc = length (sv_chans s)" and "map_of (vcs s') k = Some vc"
    and "sv_chans s' ! vc = c" and "opened c" and "heap c = map TcpConnection_init fds" and "connections c = map Some [0..<VC_TCP_CONNECTIONS]"
    and "sv_owner s' ! vc = Some (k, ae_udp e)" and "clientConnSlots s' = clientConnSlots s4" and "sv_closed s' = sv_closed s"
    and "\<forall>i < length (sv_chans s). sv_chans s' ! i = sv_chans s ! i"
    and "map_option pr_sockets (map_of (peers s') k) = map_option pr_sockets (map_of (peers s) k)"
proof -
  have vc: "vc = length (sv_chans s)" and l: "length (sv_chans s4) = Suc (length (sv_chans s))" "length (sv_owner s4) = Suc (length (sv_owner s))"
    and old: "\<forall>i < length (sv_chans s). sv_chans s4 ! i = sv_chans s ! i" and v: "map_of (vcs s4) k = Some vc"
    and cl: "sv_closed s4 = sv_closed s" and ps: "peers s4 = peers s"
    using cv by (auto simp: create_vc_def Let_def VcManager_Add_def split_beta nth_append)
  let ?c = "sv_chans s4 ! vc"
  let ?c1 = "?c\<lparr>ch_rx := (ch_rx ?c)\<lparr>hasReceiveCallback := True\<rparr>, hasDisconnectCallback := True\<rparr>"
  have c: "heap ?c = map TcpConnection_init fds" "connections ?c = map Some [0..<VC_TCP_CONNECTIONS]" "\<not> reorderJoinable ?c"
    using cv assms(2) by (auto simp: create_vc_def Let_def VcManager_Add_def split_beta TcpVirtualChannel_init_def)
  then obtain c2 where c2: "vc_open (ae_openNow e) ?c1 = Inr c2" "opened c2"
    by (auto simp: vc_open_def Let_def thread_start_def TcpVCIoThread_init_def TcpVCSendThread_init_def StopableThread_init_def)
  from vc_open_connections [OF c2(1)] have c2': "heap c2 = heap ?c" "connections c2 = connections ?c" by simp_all
  obtain s' where s': "start_vc e k vc s4 = Inr (LoopGoesOn, s')" "vcs s' = vcs s4" "sv_chans s' = (sv_chans s4)[vc := c2]"
    "sv_owner s' = (sv_owner s4)[vc := Some (k, ae_udp e)]" "clientConnSlots s' = clientConnSlots s4" "sv_closed s' = sv_closed s4"
    "map_option pr_sockets (map_of (peers s') k) = map_option pr_sockets (map_of (peers s4) k)"
    using assms(4,5) c2(1) by (simp add: start_vc_def Let_def SetUdpAddress_def SetUdpSocket_def split: option.split)
  show ?thesis
    by (rule that [OF s'(1) vc, of c2]) (use assms(3) c2(2) c2' c l old v cl ps vc in \<open>auto simp: s' nth_list_update\<close>)
qed

lemma accept_all_snoc:
  "accept_all es s = Some (Inr (LoopGoesOn, s1)) \<Longrightarrow> accept_all (es @ [e]) s = accept_step e s1"
proof (induction es arbitrary: s)
  case Nil
  then show ?case by (auto split: option.splits sum.splits accept_end.splits prod.splits)
next
  case (Cons x es)
  then show ?case by (auto split: option.splits sum.splits accept_end.splits prod.splits)
qed

lemma collect_many:
  assumes "collecting k [] [] s" and "server_inv s" and "length fds = length es" and "length cids = length es"
    and "\<forall>i < length es. introduces k (es ! i) (fds ! i) (cids ! i)" and "distinct fds" and "length es < VC_TCP_CONNECTIONS"
  shows "\<exists>s'. accept_all es s = Some (Inr (LoopGoesOn, s')) \<and> collecting k fds cids s' \<and> server_inv s'"
  using assms(3-7)
proof (induction es arbitrary: fds cids rule: rev_induct)
  case Nil
  then show ?case using assms(1,2) by simp
next
  case (snoc e es)
  obtain fs fd where fds: "fds = fs @ [fd]" using snoc.prems(1) by (cases fds rule: rev_cases) auto
  obtain cs cid where cids: "cids = cs @ [cid]" using snoc.prems(2) by (cases cids rule: rev_cases) auto
  have l: "length fs = length es" "length cs = length es" using snoc.prems(1,2) by (simp_all add: fds cids)
  have intro: "introduces k e fd cid" using snoc.prems(3) [rule_format, of "length es"] l by (simp add: fds cids nth_append)
  have "\<forall>i < length es. introduces k (es ! i) (fs ! i) (cs ! i)"
    using snoc.prems(3) l by (auto simp: fds cids nth_append less_Suc_eq split: if_splits)
  then obtain s1 where s1: "accept_all es s = Some (Inr (LoopGoesOn, s1))" "collecting k fs cs s1" "server_inv s1"
    using snoc.IH [of fs cs] snoc.prems(4,5) l by (auto simp: fds)
  obtain s' where s': "accept_step e s1 = Some (Inr (LoopGoesOn, s'))" "collecting k (fs @ [fd]) (cs @ [cid]) s'"
    by (rule collect_one [OF s1(2) intro]) (use snoc.prems(4,5) l in \<open>auto simp: fds\<close>)
  have "server_inv s'" by (rule accept_step_inv [OF s1(3) s'(1)])
  then show ?case using accept_all_snoc [OF s1(1), of e] s' by (auto simp: fds cids)
qed

lemma new_client_outcome:
  assumes "server_inv s" and "map_of (vcs s) k = None" and "map_of (peers s) k = None" and "map_of (clientConnSlots s) k = None"
    and "length es = VC_TCP_CONNECTIONS" and "length fds = length es" and "length cids = length es"
    and "\<forall>i < length es. introduces k (es ! i) (fds ! i) (cids ! i)" and "distinct fds" and "distinct cids"
    and "ae_udp (last es) \<noteq> -1" and "0 \<le> ae_udpBind (last es)"
  shows "\<exists>s' vc. accept_all es s = Some (Inr (LoopGoesOn, s')) \<and> map_of (vcs s') k = Some vc \<and> opened (sv_chans s' ! vc) \<and>
     heap (sv_chans s' ! vc) = map TcpConnection_init fds \<and> connections (sv_chans s' ! vc) = map Some [0..<VC_TCP_CONNECTIONS] \<and>
     (\<forall>i < length cids. slot_of_connId k (cids ! i) s' = int i) \<and> (\<forall>cid. cid \<notin> set cids \<longrightarrow> slot_of_connId k cid s' = -1) \<and>
     server_inv s' \<and> (\<exists>p. map_of (peers s') k = Some p \<and> pr_sockets p = fds)"
proof -
  obtain es' e where es: "es = es' @ [e]" using assms(5) VC_TCP_pos by (cases es rule: rev_cases) auto
  obtain fs fd where fds: "fds = fs @ [fd]" using assms(6) es by (cases fds rule: rev_cases) auto
  obtain cs cid where cids: "cids = cs @ [cid]" using assms(7) es by (cases cids rule: rev_cases) auto
  have l: "length fs = length es'" "length cs = length es'" "Suc (length es') = VC_TCP_CONNECTIONS" using assms(5-7) by (simp_all add: es fds cids)
  have intro: "introduces k e fd cid" using assms(8) [rule_format, of "length es'"] l by (simp add: es fds cids nth_append)
  have ith: "\<forall>i < length es'. introduces k (es' ! i) (fs ! i) (cs ! i)"
    using assms(8) l by (auto simp: es fds cids nth_append less_Suc_eq split: if_splits)
  have "collecting k [] [] s" using assms(2-4) by (simp add: collecting_def)
  then obtain s1 where s1: "accept_all es' s = Some (Inr (LoopGoesOn, s1))" "collecting k fs cs s1" "server_inv s1"
    using collect_many [OF _ assms(1) l(1,2) ith] assms(9) l(3) by (auto simp: fds)
  obtain b where b: "receive_bind (ae_recv e) = Some (Some b)" "mb_clientId b = k" "mb_connectionId b = cid" "cid \<noteq> 0" "ae_client e = fd" "0 \<le> fd"
    using intro by (auto simp: introduces_def)
  have "VcManager_Get k s1 = None" using s1(2) by (simp add: collecting_def VcManager_Get_def)
  then have step: "accept_step e s1 = Some (accumulate e b s1)" using b by (simp add: accept_step_def)
  have fresh: "ae_client e \<notin> set fs" using assms(9) by (simp add: fds b(5))
  obtain s3 p where s3: "accumulate e b s1 = (if length (fs @ [ae_client e]) \<ge> VC_TCP_CONNECTIONS
       then let (vc, s4) = create_vc e k (fs @ [ae_client e]) s3 in start_vc e k vc s4 else Inr (LoopGoesOn, s3))"
    "collecting k (fs @ [ae_client e]) (cs @ [cid]) s3" "sv_chans s3 = sv_chans s1" "sv_owner s3 = sv_owner s1"
    by (rule accumulate_collecting [OF s1(2) b(2-4) fresh]) (use l in auto)
  obtain vc s4 where cv: "create_vc e k fds s3 = (vc, s4)" by fastforce
  have len: "length fds = VC_TCP_CONNECTIONS" using l by (simp add: fds)
  have "length (sv_owner s3) = length (sv_chans s3)" using s1(3) s3(3,4) by (simp add: server_inv_def)
  then obtain s' c where s': "start_vc e k vc s4 = Inr (LoopGoesOn, s')" "map_of (vcs s') k = Some vc" "sv_chans s' ! vc = c" "opened c"
    "heap c = map TcpConnection_init fds" "connections c = map Some [0..<VC_TCP_CONNECTIONS]" "clientConnSlots s' = clientConnSlots s4"
    "map_option pr_sockets (map_of (peers s') k) = map_option pr_sockets (map_of (peers s3) k)"
    by (rule start_created [OF cv len]) (use assms(11,12) in \<open>auto simp: es\<close>)
  have slots: "map_of (clientConnSlots s') k = Some (snd (build_slots 0 fds (socketToConnId s3) []))"
    using cv s'(7) s3(2) by (auto simp: create_vc_def Let_def VcManager_Add_def split_beta collecting_def)
  have "\<forall>j < length fds. map_of (snd (build_slots 0 fds (socketToConnId s3) [])) (cids ! j) = Some (int j)"
    using build_slots_lookup [of fds cids "socketToConnId s3" 0 0 "[]"] s3(2) assms(9,10) by (simp add: collecting_def fds cids b(5))
  moreover have "cids ! i \<noteq> 0" if "i < length cids" for i using assms(7,8) that by (auto simp: introduces_def)
  ultimately have "\<forall>i < length cids. slot_of_connId k (cids ! i) s' = int i"
    using slots l by (simp add: slot_of_connId_def fds cids)
  moreover have "slot_of_connId k x s' = -1" if "x \<notin> set cids" for x
    using build_slots_lookup [of fds cids "socketToConnId s3" x 0 "[]"] s3(2) assms(9) that slots
    by (simp add: collecting_def fds cids b(5) slot_of_connId_def)
  moreover have "accept_all es s = Some (Inr (LoopGoesOn, s'))"
    using accept_all_snoc [OF s1(1), of e] step s3(1) cv s'(1) l by (simp add: es fds b(5))
  moreover have "accept_step e s1 = Some (Inr (LoopGoesOn, s'))" using step s3(1) cv s'(1) l by (simp add: fds b(5))
  then have "server_inv s'" by (rule accept_step_inv [OF s1(3)])
  moreover have "\<exists>p. map_of (peers s') k = Some p \<and> pr_sockets p = fds" using s'(8) s3(2) by (auto simp: collecting_def fds b(5))
  ultimately show ?thesis using s' by blast
qed

text \<open>
  C13: how a channel comes into being. When a client that the server does not know opens 32
  connections and introduces each under an id of its own, the server ends up with one open channel
  for that client whose slot \<open>i\<close> is the \<open>i\<close>-th connection, and it resolves the \<open>i\<close>-th id to the slot
  \<open>i\<close>.
\<close>

theorem new_client_channel:
  assumes "server_inv s" and "map_of (vcs s) k = None" and "map_of (peers s) k = None" and "map_of (clientConnSlots s) k = None"
    and "length es = VC_TCP_CONNECTIONS" and "length fds = length es" and "length cids = length es"
    and "\<forall>i < length es. introduces k (es ! i) (fds ! i) (cids ! i)" and "distinct fds" and "distinct cids"
    and "ae_udp (last es) \<noteq> -1" and "0 \<le> ae_udpBind (last es)"
  shows "\<exists>s' vc. accept_all es s = Some (Inr (LoopGoesOn, s')) \<and> map_of (vcs s') k = Some vc \<and> opened (sv_chans s' ! vc) \<and>
     heap (sv_chans s' ! vc) = map TcpConnection_init fds \<and> connections (sv_chans s' ! vc) = map Some [0..<VC_TCP_CONNECTIONS] \<and>
     (\<forall>i < length cids. slot_of_connId k (cids ! i) s' = int i)"
  using new_client_outcome [OF assms] by blast

text \<open>An empty server, and a client that introduces 32 sockets.\<close>

definition empty_server :: server where
  "empty_server = \<lparr>sv_running = True, sv_serverSocket = 3, sv_config = ServerConfiguration_init, socketToConnId = [],
     clientConnSlots = [], peers = [], vcs = [], sv_chans = [], sv_owner = [], sv_udpThreads = [], sv_closed = []\<rparr>"

definition hello :: "u32 \<Rightarrow> int \<Rightarrow> u32 \<Rightarrow> accept_env" where
  "hello k fd cid = \<lparr>ae_client = fd, ae_recv = [Inr (MsgBind_bytes [] \<lparr>mb_clientId = k, mb_slotIndex = -1, mb_connectionId = cid\<rparr>)],
     ae_udp = 4, ae_udpBind = 0, ae_now = 0, ae_openNow = 0\<rparr>"

lemma receive_bind_whole: "receive_bind [Inr (MsgBind_bytes pad b)] = Some (Some b)"
proof -
  have "recv_respects [MsgBind_bytes pad b] sizeof_MsgBind" by (simp add: sizeof_MsgBind_def MsgBind_bytes_def)
  from RecvTcpDataWithSize_chunks [of "[MsgBind_bytes pad b]" sizeof_MsgBind "[]" "[]"] this
  have "RecvTcpDataWithSize [Inr (MsgBind_bytes pad b)] sizeof_MsgBind [] = Some (int sizeof_MsgBind, MsgBind_bytes pad b)" by simp
  then show ?thesis using MsgBind_fields [of pad b "[]"] by (simp add: receive_bind_def ExtractMsgBind_def sizeof_MsgBind_def)
qed

lemma hello_udp [simp]: "ae_udp (hello k fd cid) = 4" "ae_udpBind (hello k fd cid) = 0"
  by (simp_all add: hello_def)

lemma hello_introduces: "0 \<le> fd \<Longrightarrow> cid \<noteq> 0 \<Longrightarrow> introduces k (hello k fd cid) fd cid"
  by (simp add: introduces_def hello_def receive_bind_whole)

lemma server_inv_empty: "server_inv empty_server"
  by (simp add: server_inv_def empty_server_def peers_inv_def vcs_inv_def slots_inv_def)

abbreviation hello_fds :: "int list" where "hello_fds \<equiv> map (\<lambda>i. 10 + int i) [0..<32]"
abbreviation hello_ids :: "u32 list" where "hello_ids \<equiv> map (\<lambda>i. 1 + word_of_nat i) [0..<32]"
abbreviation hellos :: "accept_env list" where "hellos \<equiv> map (\<lambda>i. hello 5 (10 + int i) (1 + word_of_nat i)) [0..<32]"

lemma hellos_ok:
  "length hellos = VC_TCP_CONNECTIONS" "length hello_fds = length hellos" "length hello_ids = length hellos"
  "\<forall>i < length hellos. introduces 5 (hellos ! i) (hello_fds ! i) (hello_ids ! i)" "distinct hello_fds" "distinct hello_ids"
  "ae_udp (last hellos) \<noteq> -1" "0 \<le> ae_udpBind (last hellos)"
  "map_of (vcs empty_server) 5 = None" "map_of (peers empty_server) 5 = None" "map_of (clientConnSlots empty_server) 5 = None"
proof -
  have u: "unat (1 + word_of_nat i :: u32) = Suc i" if "i < 32" for i
    using that by (simp add: unat_word_ariths unat_of_nat)
  have ne: "1 + word_of_nat i \<noteq> (0 :: u32)" if "i < 32" for i using u [OF that] by (metis nat.distinct(1) unat_0)
  show "\<forall>i < length hellos. introduces 5 (hellos ! i) (hello_fds ! i) (hello_ids ! i)" using ne by (simp add: hello_introduces)
  have "inj_on (\<lambda>i. 1 + word_of_nat i :: u32) {0..<32}" by (rule inj_onI) (metis Suc_inject atLeastLessThan_iff u)
  then show "distinct hello_ids" by (simp add: distinct_map)
  show "distinct hello_fds" by (simp add: distinct_map inj_on_def)
qed (simp_all add: VC_TCP_CONNECTIONS_def last_map empty_server_def)

theorem new_client_channel_witness:
  "\<exists>s' vc. accept_all hellos empty_server = Some (Inr (LoopGoesOn, s')) \<and> map_of (vcs s') 5 = Some vc \<and>
     opened (sv_chans s' ! vc) \<and> heap (sv_chans s' ! vc) = map TcpConnection_init hello_fds"
  using new_client_channel [OF server_inv_empty hellos_ok(9-11,1-8)] by blast

section \<open>A client that starts over\<close>

text \<open>
  A client reconnects from scratch while the server still holds its channel. The server closes
  the old channel and forgets it, but not the peer with the 32 old sockets: \<^verbatim>\<open>close()\<close> does not run the
  disconnect callback that would remove it. The first new socket is closed as one too many, and at
  once a new channel is built from the 32 old descriptors and registered and opened.
\<close>

theorem stale_channel_rebuilt:
  assumes "server_inv s" and "map_of (vcs s) k = Some vc" and "map_of (peers s) k = Some p"
    and "length (pr_sockets p) = VC_TCP_CONNECTIONS" and "introduces k e fd cid" and "ae_udp e \<noteq> -1" and "0 \<le> ae_udpBind e"
    and "opened (sv_chans s ! vc)"
  shows "\<exists>s' vc'. accept_step e s = Some (Inr (LoopGoesOn, s')) \<and> fd \<in> set (sv_closed s') \<and> aliveCount (sv_chans s' ! vc) = 0 \<and>
     map_of (vcs s') k = Some vc' \<and> vc' \<noteq> vc \<and> opened (sv_chans s' ! vc') \<and>
     heap (sv_chans s' ! vc') = map TcpConnection_init (pr_sockets p)"
proof -
  obtain b where b: "receive_bind (ae_recv e) = Some (Some b)" "mb_clientId b = k" "mb_connectionId b = cid" "cid \<noteq> 0" "ae_client e = fd"
    "0 \<le> fd" "sint (mb_slotIndex b) < 0"
    using assms(5) by (auto simp: introduces_def)
  have vc: "vc < length (sv_chans s)" using assms(1,2) by (simp add: server_inv_def vcs_inv_def)
  obtain c' where c': "vc_close OtherCaller (sv_chans s ! vc) = Inr c'" "aliveCount c' = 0"
    using close_completes [of "sv_chans s ! vc"] assms(8) by blast
  define s2 where "s2 = VcManager_Remove k (s\<lparr>sv_chans := (sv_chans s)[vc := c']\<rparr>)"
  define s3 where "s3 = s2\<lparr>socketToConnId := AList.update fd cid (socketToConnId s2),
      peers := AList.update k p (peers s2), sv_closed := sv_closed s @ [fd]\<rparr>"
  have step: "accept_step e s = Some (accumulate e b s2)"
    using b c'(1) assms(2)
    by (simp add: accept_step_def VcManager_Get_def VcManager_Exists_def on_chan_quiet vc_close_connections [OF c'(1)] s2_def Let_def)
  have "map_of (peers s2) k = Some p" "map_of (vcs s2) k = None" using assms(3) by (simp_all add: s2_def VcManager_Remove_def)
  then have acc: "accumulate e b s2 = (let (v, s4) = create_vc e k (pr_sockets p) s3 in start_vc e k v s4)"
    using b assms(4) by (simp add: accumulate_def AddPeer_def VcManager_Exists_def GetPeerById_def AddSocket_def GetSocketCount_def
        s3_def s2_def VcManager_Remove_def Let_def)
  obtain v s4 where cv: "create_vc e k (pr_sockets p) s3 = (v, s4)" by fastforce
  have own: "length (sv_owner s3) = length (sv_chans s3)" "length (sv_chans s3) = length (sv_chans s)"
    using assms(1) by (simp_all add: s3_def s2_def VcManager_Remove_def server_inv_def)
  obtain s' c where s': "start_vc e k v s4 = Inr (LoopGoesOn, s')" "v = length (sv_chans s3)" "map_of (vcs s') k = Some v"
    "sv_chans s' ! v = c" "opened c" "heap c = map TcpConnection_init (pr_sockets p)" "sv_closed s' = sv_closed s3"
    "\<forall>i < length (sv_chans s3). sv_chans s' ! i = sv_chans s3 ! i"
    by (rule start_created [OF cv assms(4) own(1) assms(6,7)]) auto
  have "sv_chans s' ! vc = c'" using s'(8) vc own(2) by (simp add: s3_def s2_def VcManager_Remove_def)
  moreover have "fd \<in> set (sv_closed s')" by (simp add: s'(7) s3_def)
  moreover have "accept_step e s = Some (Inr (LoopGoesOn, s'))" using step acc cv s'(1) by simp
  ultimately show ?thesis using s' c'(2) vc own(2) by auto
qed

theorem stale_channel_rebuilt_witness:
  "\<exists>s s' vc. accept_all hellos empty_server = Some (Inr (LoopGoesOn, s)) \<and>
     accept_step (hello 5 99 7) s = Some (Inr (LoopGoesOn, s')) \<and> 99 \<in> set (sv_closed s') \<and>
     map_of (vcs s') 5 = Some vc \<and> heap (sv_chans s' ! vc) = map TcpConnection_init hello_fds"
proof -
  obtain s vc p where s: "accept_all hellos empty_server = Some (Inr (LoopGoesOn, s))" "map_of (vcs s) 5 = Some vc" "opened (sv_chans s ! vc)"
    "server_inv s" "map_of (peers s) 5 = Some p" "pr_sockets p = hello_fds"
    using new_client_outcome [OF server_inv_empty hellos_ok(9-11,1-8)] by blast
  have "length (pr_sockets p) = VC_TCP_CONNECTIONS" by (simp add: s(6) VC_TCP_CONNECTIONS_def)
  from stale_channel_rebuilt [OF s(4,2,5) this hello_introduces [of 99 7] _ _ s(3)] s(1,6) show ?thesis by (simp add: hello_udp) blast
qed

section \<open>The registries\<close>



end
