(* ===== verification/Client.thy ===== *)
theory Client
  imports Channel_Life Uvt_Protocol
begin

text \<open>
  The client program (\<^verbatim>\<open>src/src/client/Client.h\<close>, \<^verbatim>\<open>Client.cpp\<close>): building the virtual channel over 32
  TCP connections, tearing it down, reconnecting with back-off, the watchdog that replaces single
  dead connections, and the UDP side. What the kernel answers, what other threads have stored in the
  atomics when they are read, and clock readings are inputs. \<open>cl_closed\<close> records the descriptors that
  the client's own code passes to \<^verbatim>\<open>SocketClose\<close>, \<open>cl_binds\<close> the bind messages it sent.
\<close>

section \<open>State\<close>

record client =
  cl_running :: bool
  cl_clientId :: u32
  tcpSockets :: "int list"
  tcpConnectionIds :: "u32 list"
  nextConnectionId :: u32
  cl_udpSocket :: int
  remoteUdpAddr :: "(u32 \<times> u16) option"
  cl_vc :: "chan option"
  watchdogRunning :: bool
  watchdogJoinable :: bool
  reconnectEpoch :: int
  cl_closed :: "int list"
  cl_binds :: "(int \<times> MsgBind) list"

definition client_close :: "int \<Rightarrow> client \<Rightarrow> client" where
  "client_close fd c = c\<lparr>cl_closed := cl_closed c @ [fd]\<rparr>"

section \<open>Tearing down\<close>

definition StopWatchdog :: "client \<Rightarrow> client" where
  "StopWatchdog c = c\<lparr>watchdogRunning := False, watchdogJoinable := False\<rparr>"

definition TeardownVc :: "client \<Rightarrow> client outcome" where
  "TeardownVc c0 =
     (let c = StopWatchdog c0
      in case cl_vc c of
           Some v \<Rightarrow> and_then (vc_close OtherCaller v) (\<lambda>_.
             Inr (c\<lparr>cl_vc := None, tcpSockets := [], tcpConnectionIds := []\<rparr>))
         | None \<Rightarrow>
             Inr (c\<lparr>cl_closed := cl_closed c @ filter (\<lambda>fd. fd \<noteq> -1) (tcpSockets c), tcpSockets := [], tcpConnectionIds := []\<rparr>))"

section \<open>Building the channel\<close>

text \<open>What the kernel answers for one connection: \<^verbatim>\<open>socket\<close>, \<^verbatim>\<open>connect\<close>, \<^verbatim>\<open>send\<close>.\<close>

record conn_try =
  ct_create :: int
  ct_connect :: int
  ct_send :: int

record prepare_env =
  pe_try :: "nat \<Rightarrow> conn_try"
  pe_now :: time
  pe_openNow :: time

definition initial_bind :: "u32 \<Rightarrow> u32 \<Rightarrow> MsgBind" where
  "initial_bind clientId connId = \<lparr>mb_clientId = clientId, mb_slotIndex = -1, mb_connectionId = connId\<rparr>"

definition fail_prepare :: "client \<Rightarrow> (bool \<times> client) outcome" where
  "fail_prepare c = and_then (TeardownVc c) (\<lambda>c'. Inr (False, c'))"

text \<open>The loop over the connections that are still to be made.\<close>

fun connect_loop :: "prepare_env \<Rightarrow> nat list \<Rightarrow> client \<Rightarrow> (bool \<times> client) outcome" where
  "connect_loop e [] c = Inr (True, c)"
| "connect_loop e (i # is) c =
     (let t = pe_try e i; fd = ct_create t
      in if fd = -1 then fail_prepare c
         else if ct_connect t < 0 then fail_prepare (client_close fd c)
         else let connId = nextConnectionId c; c1 = c\<lparr>nextConnectionId := nextConnectionId c + 1\<rparr>
              in if ct_send t \<le> 0 then fail_prepare (client_close fd c1)
                 else connect_loop e is (c1\<lparr>cl_binds := cl_binds c1 @ [(fd, initial_bind (cl_clientId c1) connId)],
                        tcpSockets := tcpSockets c1 @ [fd], tcpConnectionIds := tcpConnectionIds c1 @ [connId]\<rparr>))"

text \<open>\<^verbatim>\<open>std::thread\<close> assignment over a joinable handle ends the program (in a debug build the assertion does).\<close>

definition StartWatchdog :: "client \<Rightarrow> client outcome" where
  "StartWatchdog c =
     (if watchdogJoinable c then Inl Terminate else Inr (c\<lparr>watchdogRunning := True, watchdogJoinable := True\<rparr>))"

definition PrepareVC :: "prepare_env \<Rightarrow> client \<Rightarrow> (bool \<times> client) outcome" where
  "PrepareVC e c =
     and_then (TeardownVc c) (\<lambda>c1.
     and_then (connect_loop e [0..<VC_TCP_CONNECTIONS] c1) (\<lambda>(ok, c2).
       if \<not> ok then Inr (False, c2)
       else let v = TcpVirtualChannel_init (tcpSockets c2) (pe_now e);
                v1 = v\<lparr>ch_rx := (ch_rx v)\<lparr>reorderTimeoutMs := 8000, hasReceiveCallback := True\<rparr>, hasDisconnectCallback := True\<rparr>
            in and_then (vc_open (pe_openNow e) v1) (\<lambda>v2.
               and_then (StartWatchdog (c2\<lparr>cl_vc := Some v2\<rparr>)) (\<lambda>c3. Inr (True, c3)))))"

section \<open>The UDP side\<close>

definition open_udp :: "int \<Rightarrow> int \<Rightarrow> client \<Rightarrow> bool \<times> client" where
  "open_udp created bound c =
     (let c1 = c\<lparr>cl_udpSocket := created\<rparr>
      in if created = -1 then (False, c1)
         else if bound < 0 then (False, client_close created c1)
         else (True, c1))"

text \<open>The receive loop over what \<^verbatim>\<open>recvfrom\<close> answers while the client runs; an empty datagram ends it.\<close>

fun udp_loop :: "(errno + ((u32 \<times> u16) \<times> bytes)) list \<Rightarrow> client \<Rightarrow> client outcome" where
  "udp_loop [] c = Inr c"
| "udp_loop (a # rest) c =
     (case a of
        Inl e \<Rightarrow> udp_loop rest c
      | Inr (src, data) \<Rightarrow>
          if data = [] then Inr c
          else let c1 = c\<lparr>remoteUdpAddr := Some src\<rparr>
               in case cl_vc c1 of
                    None \<Rightarrow> udp_loop rest c1
                  | Some v \<Rightarrow> if opened v then and_then (vc_send (Some data) v) (\<lambda>v'. udp_loop rest (c1\<lparr>cl_vc := Some v'\<rparr>))
                      else udp_loop rest c1)"

definition PrepareUdpSocket :: "int \<Rightarrow> int \<Rightarrow> (errno + ((u32 \<times> u16) \<times> bytes)) list \<Rightarrow> client \<Rightarrow> (bool \<times> client) outcome" where
  "PrepareUdpSocket created bound answers c =
     (let (ok, c1) = open_udp created bound c
      in if \<not> ok then Inr (False, c1) else and_then (udp_loop answers c1) (\<lambda>c2. Inr (True, c2)))"

section \<open>Start and stop\<close>

definition client_stop :: "client \<Rightarrow> client outcome" where
  "client_stop c =
     (let c1 = StopWatchdog (c\<lparr>cl_running := False\<rparr>)
      in case cl_vc c1 of
           None \<Rightarrow> Inr c1
         | Some v \<Rightarrow> and_then (vc_close OtherCaller v) (\<lambda>v'. Inr (c1\<lparr>cl_vc := Some v'\<rparr>)))"

text \<open>The result says whether the call reaches its main loop.\<close>

definition client_start :: "prepare_env \<Rightarrow> int \<Rightarrow> int \<Rightarrow> (errno + ((u32 \<times> u16) \<times> bytes)) list \<Rightarrow> client \<Rightarrow> (bool \<times> client) outcome" where
  "client_start e created bound answers c0 =
     and_then (PrepareVC e (c0\<lparr>cl_running := True\<rparr>)) (\<lambda>(ok, c1).
       if \<not> ok then and_then (TeardownVc c1) (\<lambda>c2. Inr (False, c2))
       else and_then (PrepareUdpSocket created bound answers c1) (\<lambda>(ok2, c2).
              if \<not> ok2
              then and_then (TeardownVc c2) (\<lambda>c3.
                     Inr (False, if cl_udpSocket c3 \<noteq> -1 then (client_close (cl_udpSocket c3) c3)\<lparr>cl_udpSocket := -1\<rparr> else c3))
              else Inr (True, c2)))"

section \<open>Reconnecting\<close>

text \<open>
  One attempt: whether another thread has cleared \<^verbatim>\<open>running\<close> when it is read at the head of the loop,
  before the wait and after a failed attempt, and the answers for \<^verbatim>\<open>PrepareVC\<close>.
\<close>

record reconnect_env =
  rc_stop1 :: bool
  rc_stop2 :: bool
  rc_stop3 :: bool
  rc_prepare :: prepare_env

definition drop_vc :: "client \<Rightarrow> client outcome" where
  "drop_vc c =
     and_then (case cl_vc c of None \<Rightarrow> Inr c | Some v \<Rightarrow> and_then (vc_close OtherCaller v) (\<lambda>_. Inr (c\<lparr>cl_vc := None\<rparr>)))
       (\<lambda>c1. Inr (c1\<lparr>tcpSockets := [], tcpConnectionIds := []\<rparr>))"

definition next_delay :: "int \<Rightarrow> nat \<Rightarrow> int" where
  "next_delay initialBackoffMs retryCount =
     (if retryCount = 1 then initialBackoffMs else initialBackoffMs * 2 ^ (retryCount - 1))"

text \<open>The list of the delays that were waited is returned besides the result.\<close>

fun reconnect_loop :: "(nat \<Rightarrow> reconnect_env) \<Rightarrow> int \<Rightarrow> nat list \<Rightarrow> int \<Rightarrow> client \<Rightarrow> (bool \<times> int list \<times> client) outcome" where
  "reconnect_loop env initial [] delayMs c = Inr (False, [], c)"
| "reconnect_loop env initial (r # rs) delayMs c =
     (let e = env r
      in if \<not> cl_running c \<or> rc_stop1 e then Inr (False, [], c\<lparr>cl_running := False\<rparr>)
         else and_then (drop_vc c) (\<lambda>c1.
              if rc_stop2 e then Inr (False, [], c1\<lparr>cl_running := False\<rparr>)
              else and_then (PrepareVC (rc_prepare e) c1) (\<lambda>(ok, c2).
                   if ok then Inr (True, [delayMs], c2)
                   else if rc_stop3 e then Inr (False, [delayMs], c2\<lparr>cl_running := False\<rparr>)
                   else and_then (reconnect_loop env initial rs (next_delay initial (Suc r)) c2)
                          (\<lambda>(res, delays, c3). Inr (res, delayMs # delays, c3)))))"

definition ReconnectVC :: "(nat \<Rightarrow> reconnect_env) \<Rightarrow> nat \<Rightarrow> int \<Rightarrow> client \<Rightarrow> (bool \<times> int list \<times> client) outcome" where
  "ReconnectVC env maxRetries initialBackoffMs c =
     reconnect_loop env initialBackoffMs [0..<maxRetries] 3000
       (StopWatchdog (c\<lparr>reconnectEpoch := reconnectEpoch c + 1\<rparr>))"

section \<open>The watchdog\<close>

text \<open>
  The loads of \<^verbatim>\<open>watchdogRunning\<close> and of \<^verbatim>\<open>reconnectEpoch\<close> are inputs, since a full reconnect may run at
  the same time: at the start, after the connect, before the bind message and before the swap.
\<close>

record slot_env =
  sl_epochStart :: int
  sl_watchdogStart :: bool
  sl_create :: int
  sl_connect :: int
  sl_watchdogConnected :: bool
  sl_epochConnected :: int
  sl_epochBind :: int
  sl_send :: int
  sl_epochSwap :: int
  sl_now :: time

definition slot_bind :: "client \<Rightarrow> nat \<Rightarrow> MsgBind" where
  "slot_bind c slotIndex =
     \<lparr>mb_clientId = cl_clientId c, mb_slotIndex = word_of_nat slotIndex,
      mb_connectionId = (if slotIndex < length (tcpConnectionIds c) then tcpConnectionIds c ! slotIndex else 0)\<rparr>"

text \<open>The part under \<^verbatim>\<open>vcMutex\<close> at the end: the new socket goes into the channel.\<close>

definition swap_slot :: "slot_env \<Rightarrow> nat \<Rightarrow> u32 \<Rightarrow> client \<Rightarrow> bool \<times> client" where
  "swap_slot e slotIndex newConnId c =
     (case cl_vc c of
        None \<Rightarrow> (False, client_close (sl_create e) c)
      | Some v \<Rightarrow>
          if \<not> opened v then (False, client_close (sl_create e) c)
          else if sl_epochSwap e \<noteq> sl_epochStart e then (False, client_close (sl_create e) c)
          else (True, c\<lparr>tcpSockets := (tcpSockets c)[slotIndex := sl_create e],
                        tcpConnectionIds := (tcpConnectionIds c)[slotIndex := newConnId],
                        cl_vc := Some (replaceConnection (int slotIndex) (sl_create e) (sl_now e) v)\<rparr>))"

definition ReconnectSingleSlot :: "slot_env \<Rightarrow> nat \<Rightarrow> client \<Rightarrow> bool \<times> client" where
  "ReconnectSingleSlot e slotIndex c =
     (if \<not> sl_watchdogStart e then (False, c)
      else if sl_create e = -1 then (False, c)
      else if sl_connect e < 0 then (False, client_close (sl_create e) c)
      else if \<not> sl_watchdogConnected e \<or> sl_epochConnected e \<noteq> sl_epochStart e then (False, client_close (sl_create e) c)
      else let newConnId = nextConnectionId c; c1 = c\<lparr>nextConnectionId := nextConnectionId c + 1\<rparr>
           in if sl_epochBind e \<noteq> sl_epochStart e then (False, client_close (sl_create e) c1)
              else if sl_send e \<le> 0 then (False, client_close (sl_create e) c1)
              else swap_slot e slotIndex newConnId (c1\<lparr>cl_binds := cl_binds c1 @ [(sl_create e, slot_bind c1 slotIndex)]\<rparr>))"

text \<open>One round of the watchdog after its sleep; the flags tell whether the watchdog still runs before each slot.\<close>

fun watchdog_slots :: "(nat \<Rightarrow> bool) \<Rightarrow> (nat \<Rightarrow> slot_env) \<Rightarrow> int list \<Rightarrow> client \<Rightarrow> client" where
  "watchdog_slots run env [] c = c"
| "watchdog_slots run env (slot # slots) c =
     (if \<not> run (nat slot) then c else watchdog_slots run env slots (snd (ReconnectSingleSlot (env (nat slot)) (nat slot) c)))"

definition watchdog_round :: "(nat \<Rightarrow> bool) \<Rightarrow> (nat \<Rightarrow> slot_env) \<Rightarrow> client \<Rightarrow> client" where
  "watchdog_round run env c =
     (if \<not> watchdogRunning c then c
      else case cl_vc c of
             None \<Rightarrow> c
           | Some v \<Rightarrow> if \<not> opened v then c else watchdog_slots run env (getDeadSlots v) c)"

text \<open>The channel's disconnect callback, up to the thread that it spawns for the full reconnect.\<close>

definition on_disconnect :: "client \<Rightarrow> client" where
  "on_disconnect c = c\<lparr>watchdogRunning := False\<rparr>"

end
