(* ===== verification/Client_Props.thy ===== *)
theory Client_Props
  imports Client
begin

text \<open>
  Properties of the client: building a channel succeeds completely or leaves nothing behind, full
  reconnection is bounded and backs off, replacing one connection neither leaks nor closes a foreign
  descriptor, and what happens when the UDP port cannot be bound.
\<close>

section \<open>Tearing down and building\<close>

definition idle :: "client \<Rightarrow> bool" where
  "idle c \<longleftrightarrow> cl_vc c = None \<and> tcpSockets c = [] \<and> tcpConnectionIds c = [] \<and> \<not> watchdogRunning c \<and> \<not> watchdogJoinable c"

lemma vc_close_other: "\<exists>v'. vc_close OtherCaller v = Inr v'"
  using close_completes by blast

lemma TeardownVc_total:
  obtains c' where "TeardownVc c = Inr c'" and "idle c'"
    and "cl_closed c' = cl_closed c @ (if cl_vc c = None then filter (\<lambda>fd. fd \<noteq> -1) (tcpSockets c) else [])"
    and "nextConnectionId c' = nextConnectionId c" and "cl_clientId c' = cl_clientId c" and "cl_running c' = cl_running c"
    and "cl_binds c' = cl_binds c" and "cl_udpSocket c' = cl_udpSocket c"
proof (cases "cl_vc c")
  case None
  then show ?thesis using that by (auto simp: TeardownVc_def StopWatchdog_def idle_def)
next
  case (Some v)
  then show ?thesis using that vc_close_other [of v] by (auto simp: TeardownVc_def StopWatchdog_def idle_def)
qed

text \<open>
  The state of the loop when the connections \<open>0..<k\<close> have been made, starting from the idle state \<open>c\<close>.
\<close>

definition connected_upto :: "prepare_env \<Rightarrow> client \<Rightarrow> nat \<Rightarrow> client \<Rightarrow> bool" where
  "connected_upto e c k c' \<longleftrightarrow> cl_vc c' = None \<and> \<not> watchdogJoinable c' \<and> \<not> watchdogRunning c' \<and>
     tcpSockets c' = map (\<lambda>i. ct_create (pe_try e i)) [0..<k] \<and>
     tcpConnectionIds c' = map (\<lambda>i. nextConnectionId c + word_of_nat i) [0..<k] \<and>
     nextConnectionId c' = nextConnectionId c + word_of_nat k \<and> cl_clientId c' = cl_clientId c \<and> cl_closed c' = cl_closed c \<and>
     (\<forall>i < k. ct_create (pe_try e i) \<noteq> -1) \<and>
     cl_binds c' = cl_binds c @ map (\<lambda>i. (ct_create (pe_try e i), initial_bind (cl_clientId c) (nextConnectionId c + word_of_nat i))) [0..<k]"

definition try_ok :: "conn_try \<Rightarrow> bool" where
  "try_ok t \<longleftrightarrow> ct_create t \<noteq> -1 \<and> 0 \<le> ct_connect t \<and> 0 < ct_send t"

text \<open>What a failed attempt closes: the connection that failed, then those made before.\<close>

definition closed_by_failure :: "prepare_env \<Rightarrow> nat \<Rightarrow> int list" where
  "closed_by_failure e k =
     (if ct_create (pe_try e k) = -1 then [] else [ct_create (pe_try e k)]) @ map (\<lambda>i. ct_create (pe_try e i)) [0..<k]"

lemma fail_prepare_closes:
  assumes "cl_vc c1 = None" and "\<forall>fd \<in> set (tcpSockets c1). fd \<noteq> -1"
  obtains c' where "fail_prepare c1 = Inr (False, c')" and "idle c'" and "cl_closed c' = cl_closed c1 @ tcpSockets c1"
proof -
  obtain c' where c': "TeardownVc c1 = Inr c'" "idle c'" "cl_closed c' = cl_closed c1 @ filter (\<lambda>fd. fd \<noteq> -1) (tcpSockets c1)"
    by (rule TeardownVc_total [of c1]) (use assms(1) in auto)
  have "filter (\<lambda>fd. fd \<noteq> -1) (tcpSockets c1) = tcpSockets c1" using assms(2) by (simp add: filter_id_conv)
  with c' show ?thesis by (intro that [of c']) (simp_all add: fail_prepare_def)
qed

lemma connect_loop_result:
  assumes "connected_upto e c k c1" and "k \<le> n"
  shows "(\<forall>i \<in> {k..<n}. try_ok (pe_try e i)) \<and> (\<exists>c'. connect_loop e [k..<n] c1 = Inr (True, c') \<and> connected_upto e c n c') \<or>
    (\<exists>j \<in> {k..<n}. \<not> try_ok (pe_try e j) \<and> (\<exists>c'. connect_loop e [k..<n] c1 = Inr (False, c') \<and> idle c' \<and>
       cl_closed c' = cl_closed c @ closed_by_failure e j))"
  using assms(2,1)
proof (induction k arbitrary: c1 rule: inc_induct)
  case base
  then show ?case by auto
next
  case (step k)
  let ?t = "pe_try e k"
  have list: "[k..<n] = k # [Suc k..<n]" using step.hyps by (simp add: upt_conv_Cons)
  have socks: "cl_vc c1 = None" "\<forall>fd \<in> set (tcpSockets c1). fd \<noteq> -1" "tcpSockets c1 = map (\<lambda>i. ct_create (pe_try e i)) [0..<k]"
    "cl_closed c1 = cl_closed c"
    using step.prems by (auto simp: connected_upto_def)
  show ?case
  proof (cases "try_ok ?t")
    case True
    let ?c2 = "c1\<lparr>nextConnectionId := nextConnectionId c1 + 1,
      cl_binds := cl_binds c1 @ [(ct_create ?t, initial_bind (cl_clientId c1) (nextConnectionId c1))],
      tcpSockets := tcpSockets c1 @ [ct_create ?t], tcpConnectionIds := tcpConnectionIds c1 @ [nextConnectionId c1]\<rparr>"
    have eq: "connect_loop e [k..<n] c1 = connect_loop e [Suc k..<n] ?c2"
      using True by (simp add: list try_ok_def Let_def)
    have "connected_upto e c (Suc k) ?c2"
      using step.prems True by (auto simp: connected_upto_def try_ok_def less_Suc_eq)
    note IH = step.IH [OF this]
    have "{k..<n} = insert k {Suc k..<n}" using step.hyps by auto
    with IH True show ?thesis unfolding eq by simp
  next
    case False
    let ?ca = "if ct_create ?t = -1 then c1 else if ct_connect ?t < 0 then client_close (ct_create ?t) c1
      else client_close (ct_create ?t) (c1\<lparr>nextConnectionId := nextConnectionId c1 + 1\<rparr>)"
    have eq: "connect_loop e [k..<n] c1 = fail_prepare ?ca"
      using False by (auto simp: list try_ok_def Let_def)
    have ca: "cl_vc ?ca = None" "tcpSockets ?ca = tcpSockets c1"
      "cl_closed ?ca = cl_closed c @ (if ct_create ?t = -1 then [] else [ct_create ?t])"
      using socks by (simp_all add: client_close_def)
    obtain c' where "fail_prepare ?ca = Inr (False, c')" "idle c'" "cl_closed c' = cl_closed ?ca @ tcpSockets ?ca"
      by (rule fail_prepare_closes [OF ca(1)]) (use socks(2) ca(2) in simp)
    then have "connect_loop e [k..<n] c1 = Inr (False, c') \<and> idle c' \<and> cl_closed c' = cl_closed c @ closed_by_failure e k"
      using eq ca socks(3) by (simp add: closed_by_failure_def)
    then show ?thesis using False step.hyps by (auto intro!: bexI [of _ k])
  qed
qed

lemma prepare_vc_cases:
  assumes "TeardownVc c = Inr c0"
  shows "(\<forall>i < VC_TCP_CONNECTIONS. try_ok (pe_try e i)) \<and>
      (\<exists>c' v. PrepareVC e c = Inr (True, c') \<and> cl_vc c' = Some v \<and> opened v \<and> watchdogRunning c' \<and> cl_closed c' = cl_closed c0 \<and>
        connections v = map Some [0..<VC_TCP_CONNECTIONS] \<and> heap v = map TcpConnection_init (tcpSockets c') \<and>
        connected_upto e c0 VC_TCP_CONNECTIONS (c'\<lparr>cl_vc := None, watchdogRunning := False, watchdogJoinable := False\<rparr>)) \<or>
    (\<exists>j < VC_TCP_CONNECTIONS. \<not> try_ok (pe_try e j) \<and>
      (\<exists>c'. PrepareVC e c = Inr (False, c') \<and> idle c' \<and> cl_closed c' = cl_closed c0 @ closed_by_failure e j))"
proof -
  have idle: "idle c0" by (rule TeardownVc_total [of c]) (use assms in auto)
  then have "connected_upto e c0 0 c0" by (simp add: connected_upto_def idle_def)
  from connect_loop_result [OF this, of VC_TCP_CONNECTIONS] consider
    (ok) c1 where "\<forall>i < VC_TCP_CONNECTIONS. try_ok (pe_try e i)" "connect_loop e [0..<VC_TCP_CONNECTIONS] c0 = Inr (True, c1)"
      "connected_upto e c0 VC_TCP_CONNECTIONS c1"
  | (fail) j c1 where "j < VC_TCP_CONNECTIONS" "\<not> try_ok (pe_try e j)" "connect_loop e [0..<VC_TCP_CONNECTIONS] c0 = Inr (False, c1)"
      "idle c1" "cl_closed c1 = cl_closed c0 @ closed_by_failure e j"
    by fastforce
  then show ?thesis
  proof cases
    case ok
    let ?v = "TcpVirtualChannel_init (tcpSockets c1) (pe_now e)"
    let ?v1 = "?v\<lparr>ch_rx := (ch_rx ?v)\<lparr>reorderTimeoutMs := 8000, hasReceiveCallback := True\<rparr>, hasDisconnectCallback := True\<rparr>"
    have len: "length (tcpSockets c1) = VC_TCP_CONNECTIONS" and nj: "\<not> watchdogJoinable c1" using ok(3) by (simp_all add: connected_upto_def)
    obtain v2 where v2: "vc_open (pe_openNow e) ?v1 = Inr v2" "opened v2" "connections v2 = map Some [0..<VC_TCP_CONNECTIONS]"
      "heap v2 = map TcpConnection_init (tcpSockets c1)"
      by (auto simp: vc_open_def Let_def thread_start_def TcpVCIoThread_init_def TcpVCSendThread_init_def StopableThread_init_def
          TcpVirtualChannel_init_def len)
    have "PrepareVC e c = Inr (True, c1\<lparr>cl_vc := Some v2, watchdogRunning := True, watchdogJoinable := True\<rparr>)"
      using assms ok(2) v2(1) nj by (simp add: PrepareVC_def StartWatchdog_def Let_def)
    moreover have "connected_upto e c0 VC_TCP_CONNECTIONS (c1\<lparr>cl_vc := None, watchdogRunning := False, watchdogJoinable := False\<rparr>)"
      using ok(3) by (simp add: connected_upto_def)
    ultimately show ?thesis using ok v2 by (auto simp: connected_upto_def)
  next
    case fail
    then have "PrepareVC e c = Inr (False, c1)" using assms by (simp add: PrepareVC_def)
    with fail show ?thesis by blast
  qed
qed

text \<open>
  C16: \<^verbatim>\<open>PrepareVC\<close> succeeds completely or leaves nothing behind, and never ends the program. If all 32
  connections can be made, the client has an open channel whose slot \<open>i\<close> is the \<open>i\<close>-th socket, 32
  consecutive connection ids, has introduced each socket under its id as an initial connection, and
  runs the watchdog. Otherwise it is idle, and every socket of the attempt has been closed exactly
  once, the failed one first.
\<close>

theorem prepare_vc_all_or_nothing:
  assumes "TeardownVc c = Inr c0"
  shows "(\<forall>i < VC_TCP_CONNECTIONS. try_ok (pe_try e i)) \<and>
      (\<exists>c' v. PrepareVC e c = Inr (True, c') \<and> cl_vc c' = Some v \<and> opened v \<and> watchdogRunning c' \<and> cl_closed c' = cl_closed c0 \<and>
        connections v = map Some [0..<VC_TCP_CONNECTIONS] \<and> heap v = map TcpConnection_init (tcpSockets c') \<and>
        connected_upto e c0 VC_TCP_CONNECTIONS (c'\<lparr>cl_vc := None, watchdogRunning := False, watchdogJoinable := False\<rparr>)) \<or>
    (\<exists>j < VC_TCP_CONNECTIONS. \<not> try_ok (pe_try e j) \<and>
      (\<exists>c'. PrepareVC e c = Inr (False, c') \<and> idle c' \<and> cl_closed c' = cl_closed c0 @ closed_by_failure e j))"
  using assms by (rule prepare_vc_cases)

text \<open>A fresh client, and a kernel that grants every request but the third connect.\<close>

definition new_client :: client where
  "new_client = \<lparr>cl_running = True, cl_clientId = 5, tcpSockets = [], tcpConnectionIds = [], nextConnectionId = 1, cl_udpSocket = -1,
     remoteUdpAddr = None, cl_vc = None, watchdogRunning = False, watchdogJoinable = False, reconnectEpoch = 0, cl_closed = [], cl_binds = []\<rparr>"

definition third_fails :: prepare_env where
  "third_fails = \<lparr>pe_try = (\<lambda>i. \<lparr>ct_create = 10 + int i, ct_connect = (if i = 2 then -1 else 0), ct_send = 12\<rparr>), pe_now = 0, pe_openNow = 0\<rparr>"

lemma new_client_idle: "TeardownVc new_client = Inr new_client"
  by (simp add: TeardownVc_def StopWatchdog_def new_client_def)

theorem prepare_vc_all_or_nothing_witness:
  "\<exists>c'. PrepareVC third_fails new_client = Inr (False, c') \<and> idle c' \<and> cl_closed c' = [12, 10, 11]"
proof -
  have "\<not> try_ok (pe_try third_fails j) \<longleftrightarrow> j = 2" for j by (simp add: try_ok_def third_fails_def)
  moreover have "closed_by_failure third_fails 2 = [12, 10, 11]" by (simp add: closed_by_failure_def third_fails_def upt_rec)
  moreover have "cl_closed new_client = []" "2 < VC_TCP_CONNECTIONS" by (simp_all add: new_client_def VC_TCP_CONNECTIONS_def)
  ultimately show ?thesis using prepare_vc_all_or_nothing [OF new_client_idle, of third_fails] by (metis append_Nil)
qed

section \<open>Reconnecting\<close>

lemma PrepareVC_total:
  obtains c' v where "PrepareVC e c = Inr (True, c')" and "cl_vc c' = Some v" and "opened v"
  | c' where "PrepareVC e c = Inr (False, c')" and "idle c'"
proof -
  obtain c0 where "TeardownVc c = Inr c0" by (rule TeardownVc_total [of c])
  from prepare_vc_cases [OF this, of e] that show ?thesis by blast
qed

lemma drop_vc_total: obtains c' where "drop_vc c = Inr c'" and "idle c \<Longrightarrow> idle c'"
proof (cases "cl_vc c")
  case None
  then show ?thesis using that by (auto simp: drop_vc_def idle_def)
next
  case (Some v)
  then show ?thesis using that vc_close_other [of v] by (auto simp: drop_vc_def idle_def)
qed

text \<open>The delay before the attempt with the number \<open>r\<close>, counted from 0.\<close>

definition delay_before :: "int \<Rightarrow> nat \<Rightarrow> int" where
  "delay_before initial r = (if r = 0 then 3000 else next_delay initial r)"

lemma delay_Suc: "next_delay initial (Suc r) = delay_before initial (Suc r)"
  by (simp add: delay_before_def)

definition reconnect_post :: "int \<Rightarrow> nat \<Rightarrow> nat \<Rightarrow> client \<Rightarrow> bool \<times> int list \<times> client \<Rightarrow> bool" where
  "reconnect_post initial r n c = (\<lambda>(res, ds, c').
     (\<exists>m. r \<le> m \<and> m \<le> n \<and> ds = map (delay_before initial) [r..<m]) \<and>
     (res \<longrightarrow> (\<exists>v. cl_vc c' = Some v \<and> opened v)) \<and> (\<not> res \<longrightarrow> ds \<noteq> [] \<or> idle c \<longrightarrow> idle c'))"

lemma reconnect_loop_post:
  assumes "r \<le> n"
  shows "\<exists>x. reconnect_loop env initial [r..<n] (delay_before initial r) c = Inr x \<and> reconnect_post initial r n c x"
  using assms
proof (induction r arbitrary: c rule: inc_induct)
  case base
  then show ?case by (auto simp: reconnect_post_def intro: exI [of _ n])
next
  case (step r)
  have list: "[r..<n] = r # [Suc r..<n]" using step.hyps by (simp add: upt_conv_Cons)
  have stop: "reconnect_post initial r n c (False, [], c1\<lparr>cl_running := False\<rparr>)" if "idle c \<Longrightarrow> idle c1" for c1
    using that step.hyps by (auto simp: reconnect_post_def idle_def intro: exI [of _ r])
  have one: "map (delay_before initial) [r..<Suc r] = [delay_before initial r]" by simp
  show ?case
  proof (cases "\<not> cl_running c \<or> rc_stop1 (env r)")
    case True
    then show ?thesis using stop [of c] by (auto simp: list)
  next
    case go: False
    obtain c1 where c1: "drop_vc c = Inr c1" "idle c \<longrightarrow> idle c1" by (rule drop_vc_total [of c]) simp
    show ?thesis
    proof (cases "rc_stop2 (env r)")
      case True
      then show ?thesis using go c1(1) stop [of c1] c1(2) by (auto simp: list)
    next
      case go2: False
      show ?thesis
      proof (cases rule: PrepareVC_total [of "rc_prepare (env r)" c1])
        case (1 c2 v)
        then have "reconnect_loop env initial [r..<n] (delay_before initial r) c = Inr (True, [delay_before initial r], c2)"
          using go go2 c1(1) by (simp add: list)
        then show ?thesis using 1 step.hyps by (auto simp: reconnect_post_def one [symmetric] simp del: upt_Suc intro!: exI [of _ "Suc r"])
      next
        case (2 c2)
        show ?thesis
        proof (cases "rc_stop3 (env r)")
          case True
          then have "reconnect_loop env initial [r..<n] (delay_before initial r) c =
              Inr (False, [delay_before initial r], c2\<lparr>cl_running := False\<rparr>)"
            using go go2 c1(1) 2(1) by (simp add: list)
          then show ?thesis using 2(2) step.hyps
            by (auto simp: reconnect_post_def idle_def one [symmetric] simp del: upt_Suc intro!: exI [of _ "Suc r"])
        next
          case False
          obtain res ds c3 where x: "reconnect_loop env initial [Suc r..<n] (delay_before initial (Suc r)) c2 = Inr (res, ds, c3)"
            "reconnect_post initial (Suc r) n c2 (res, ds, c3)"
            using step.IH [of c2] by auto
          have "reconnect_loop env initial [r..<n] (delay_before initial r) c = Inr (res, delay_before initial r # ds, c3)"
            using go go2 c1(1) 2(1) False x(1) by (simp add: list delay_Suc)
          moreover have "reconnect_post initial r n c (res, delay_before initial r # ds, c3)"
          proof -
            from x(2) obtain m where m: "Suc r \<le> m" "m \<le> n" "ds = map (delay_before initial) [Suc r..<m]"
              by (auto simp: reconnect_post_def)
            then have "r \<le> m \<and> m \<le> n \<and> delay_before initial r # ds = map (delay_before initial) [r..<m]"
              by (simp add: upt_conv_Cons)
            moreover have "(res \<longrightarrow> (\<exists>v. cl_vc c3 = Some v \<and> opened v)) \<and> (\<not> res \<longrightarrow> idle c3)"
              using x(2) 2(2) by (simp add: reconnect_post_def)
            ultimately show ?thesis unfolding reconnect_post_def prod.case by (intro conjI exI [of _ m]) simp_all
          qed
          ultimately show ?thesis by blast
        qed
      qed
    qed
  qed
qed



section \<open>Replacing one connection\<close>

text \<open>
  C27: the watchdog replaces one connection without leaking or closing a foreign descriptor. On success
  the channel was open, no full reconnect had begun meanwhile, the bind message named the slot and the
  id the connection had so far, the slot holds the new socket under a new id, and nothing was closed.
  On failure channel, sockets and ids are as before, and the new socket, if there was one, was closed
  exactly once.
\<close>

theorem slot_reconnect_outcome:
  "case ReconnectSingleSlot e slot c of
     (True, c') \<Rightarrow> (\<exists>v. cl_vc c = Some v \<and> opened v \<and> cl_vc c' = Some (replaceConnection (int slot) (sl_create e) (sl_now e) v)) \<and>
        sl_epochConnected e = sl_epochStart e \<and> sl_epochBind e = sl_epochStart e \<and> sl_epochSwap e = sl_epochStart e \<and>
        cl_binds c' = cl_binds c @ [(sl_create e, slot_bind c slot)] \<and>
        tcpSockets c' = (tcpSockets c)[slot := sl_create e] \<and> tcpConnectionIds c' = (tcpConnectionIds c)[slot := nextConnectionId c] \<and>
        cl_closed c' = cl_closed c
   | (False, c') \<Rightarrow> cl_vc c' = cl_vc c \<and> tcpSockets c' = tcpSockets c \<and> tcpConnectionIds c' = tcpConnectionIds c \<and>
        cl_closed c' = cl_closed c @ (if sl_watchdogStart e \<and> sl_create e \<noteq> -1 then [sl_create e] else [])"
  by (auto simp: ReconnectSingleSlot_def swap_slot_def client_close_def Let_def slot_bind_def split: option.split)

section \<open>The UDP port\<close>

text \<open>
  When the channel could be built but the UDP port cannot be bound, \<^verbatim>\<open>Start\<close> closes the UDP
  descriptor twice: \<^verbatim>\<open>PrepareUdpSocket\<close> closes it without resetting the member, and \<^verbatim>\<open>Start\<close> closes it
  again because the member is not -1.
\<close>

theorem udp_bind_failure_closes_twice:
  assumes "\<forall>i < VC_TCP_CONNECTIONS. try_ok (pe_try e i)" and "created \<noteq> -1" and "bound < 0"
    and "TeardownVc (c\<lparr>cl_running := True\<rparr>) = Inr c0"
  shows "\<exists>c'. client_start e created bound answers c = Inr (False, c') \<and> idle c' \<and> cl_closed c' = cl_closed c0 @ [created, created]"
proof -
  obtain c1 v where c1: "PrepareVC e (c\<lparr>cl_running := True\<rparr>) = Inr (True, c1)" "cl_vc c1 = Some v" "cl_closed c1 = cl_closed c0"
    using prepare_vc_cases [OF assms(4), of e] assms(1) by blast
  let ?c2 = "client_close created (c1\<lparr>cl_udpSocket := created\<rparr>)"
  have udp: "PrepareUdpSocket created bound answers c1 = Inr (False, ?c2)"
    using assms(2,3) by (simp add: PrepareUdpSocket_def open_udp_def Let_def)
  obtain c3 where c3: "TeardownVc ?c2 = Inr c3" "idle c3" "cl_closed c3 = cl_closed ?c2" "cl_udpSocket c3 = created"
    by (rule TeardownVc_total [of ?c2]) (use c1(2) in \<open>auto simp: client_close_def\<close>)
  have "client_start e created bound answers c = Inr (False, (client_close created c3)\<lparr>cl_udpSocket := -1\<rparr>)"
    using c1(1) udp c3 assms(2) by (simp add: client_start_def)
  then show ?thesis using c1(3) c3 by (simp add: client_close_def idle_def)
qed

definition all_fine :: prepare_env where
  "all_fine = \<lparr>pe_try = (\<lambda>i. \<lparr>ct_create = 10 + int i, ct_connect = 0, ct_send = 12\<rparr>), pe_now = 0, pe_openNow = 0\<rparr>"

lemma all_fine_ok: "try_ok (pe_try all_fine i)"
  by (simp add: try_ok_def all_fine_def)

theorem udp_bind_failure_closes_twice_witness:
  "\<exists>c'. client_start all_fine 50 (-1) [] new_client = Inr (False, c') \<and> cl_closed c' = [50, 50]"
proof -
  have "new_client\<lparr>cl_running := True\<rparr> = new_client" by (simp add: new_client_def)
  then have "TeardownVc (new_client\<lparr>cl_running := True\<rparr>) = Inr new_client" using new_client_idle by simp
  from udp_bind_failure_closes_twice [OF _ _ _ this, of all_fine 50 "-1" "[]"] all_fine_ok show ?thesis
    by (auto simp: new_client_def)
qed

end
