(* ===== verification/Reconnect_System.thy ===== *)
theory Reconnect_System
  imports Server_Clients Client_Props
begin

text \<open>
  Client and server together while single connections are replaced: the client's watchdog opens a new
  connection for a slot and sends a bind message; the server takes it, some time later, from its
  accept queue and decides which slot of its own channel the new socket goes to. Bind messages travel
  on connections of their own, so they may be lost or taken in another order than they were sent in.
\<close>

section \<open>Steps\<close>

text \<open>
  The server does not know the client yet, and takes its 32 initial connections in the order in which
  the client made them.
\<close>

definition introduced :: "client \<Rightarrow> accept_env list \<Rightarrow> bool" where
  "introduced c es \<longleftrightarrow> length es = VC_TCP_CONNECTIONS \<and> distinct (map ae_client es) \<and>
     (\<forall>i < length es. 0 \<le> ae_client (es ! i) \<and>
        receive_bind (ae_recv (es ! i)) = Some (Some (initial_bind (cl_clientId c) (tcpConnectionIds c ! i)))) \<and>
     ae_udp (last es) \<noteq> -1 \<and> 0 \<le> ae_udpBind (last es)"

definition unknown_client :: "u32 \<Rightarrow> server \<Rightarrow> bool" where
  "unknown_client k s \<longleftrightarrow> map_of (vcs s) k = None \<and> map_of (peers s) k = None \<and> map_of (clientConnSlots s) k = None"

text \<open>The counter of connection ids has not come near its end.\<close>

definition ids_left :: "nat \<Rightarrow> client \<Rightarrow> bool" where
  "ids_left n c \<longleftrightarrow> 0 < unat (nextConnectionId c) \<and> unat (nextConnectionId c) + n < 2 ^ 32"

text \<open>
  \<open>rc_own_work\<close> and \<open>rc_peer_work\<close> stand for everything that the threads of the two channels do as long
  as no channel is torn down.
\<close>

inductive rc_reach :: "client \<times> MsgBind list \<times> server \<Rightarrow> bool" where
  rc_start: "\<lbrakk>PrepareVC e c0 = Inr (True, c); ids_left VC_TCP_CONNECTIONS c0; server_inv s0; unknown_client (cl_clientId c0) s0;
     introduced c es; accept_all es s0 = Some (Inr (LoopGoesOn, s))\<rbrakk> \<Longrightarrow> rc_reach (c, [], s)"
| rc_reconnect: "\<lbrakk>rc_reach (c, bs, s); slot < VC_TCP_CONNECTIONS; ids_left 1 c; ReconnectSingleSlot e slot c = (ok, c')\<rbrakk> \<Longrightarrow>
     rc_reach (c', bs @ map snd (drop (length (cl_binds c)) (cl_binds c')), s)"
| rc_lost: "rc_reach (c, bs1 @ b # bs2, s) \<Longrightarrow> rc_reach (c, bs1 @ bs2, s)"
| rc_taken: "\<lbrakk>rc_reach (c, bs1 @ b # bs2, s); 0 \<le> ae_client e; receive_bind (ae_recv e) = Some (Some b);
     accept_step e s = Some (Inr (r, s'))\<rbrakk> \<Longrightarrow> rc_reach (c, bs1 @ bs2, s')"
| rc_other_client: "\<lbrakk>rc_reach (c, bs, s); receive_bind (ae_recv e) = Some (Some b); mb_clientId b \<noteq> cl_clientId c;
     accept_step e s = Some (Inr (r, s'))\<rbrakk> \<Longrightarrow> rc_reach (c, bs, s')"
| rc_own_work: "rc_reach (c, bs, s) \<Longrightarrow> rc_reach (c\<lparr>cl_vc := Some v\<rparr>, bs, s)"
| rc_peer_work: "\<lbrakk>rc_reach (c, bs, s); length (connections v) = length (connections (sv_chans s ! i))\<rbrakk> \<Longrightarrow>
     rc_reach (c, bs, s\<lparr>sv_chans := (sv_chans s)[i := v]\<rparr>)"

section \<open>Invariant\<close>

text \<open>
  Every connection id belongs to one slot for good: \<open>own\<close>. The ids that the client holds, the bind
  messages under way and the server's map all respect it.
\<close>

definition owned :: "(u32 \<Rightarrow> nat) \<Rightarrow> client \<Rightarrow> MsgBind list \<Rightarrow> server \<Rightarrow> bool" where
  "owned own c bs s \<longleftrightarrow>
     (\<forall>j < VC_TCP_CONNECTIONS. own (tcpConnectionIds c ! j) = j \<and> tcpConnectionIds c ! j < nextConnectionId c) \<and>
     (\<forall>b \<in> set bs. mb_clientId b = cl_clientId c \<and> own (mb_connectionId b) < VC_TCP_CONNECTIONS \<and>
        mb_slotIndex b = word_of_nat (own (mb_connectionId b)) \<and> mb_connectionId b < nextConnectionId c) \<and>
     (\<forall>cid. slot_of_connId (cl_clientId c) cid s \<noteq> -1 \<longrightarrow>
        slot_of_connId (cl_clientId c) cid s = int (own cid) \<and> cid < nextConnectionId c)"

definition rc_inv :: "client \<times> MsgBind list \<times> server \<Rightarrow> bool" where
  "rc_inv = (\<lambda>(c, bs, s). server_inv s \<and> length (tcpConnectionIds c) = VC_TCP_CONNECTIONS \<and> 0 < nextConnectionId c \<and>
     (\<exists>vc. map_of (vcs s) (cl_clientId c) = Some vc) \<and> (\<exists>own. owned own c bs s))"

text \<open>What the server does with a bind message that respects the ownership.\<close>

lemma slot_word: "j < VC_TCP_CONNECTIONS \<Longrightarrow> sint (word_of_nat j :: 8 word) = int j"
  by (simp add: VC_TCP_CONNECTIONS_def signed_of_nat signed_take_bit_int_eq_self)

lemma slot_of_connId_chans [simp]: "slot_of_connId k cid (s\<lparr>sv_chans := cs\<rparr>) = slot_of_connId k cid s"
  by (simp add: slot_of_connId_def)

lemma register_connId_slot:
  assumes "server_inv s"
  shows "slot_of_connId k cid (register_connId k cid' t s) \<in>
    {-1, slot_of_connId k cid s} \<union> (if cid = cid' then {t} else {})"
proof -
  let ?m = "case map_of (clientConnSlots s) k of None \<Rightarrow> [] | Some m \<Rightarrow> m"
  have "distinct (map fst ?m)"
    using assms by (auto simp: server_inv_def slots_inv_def slotmap_inv_def split: option.split)
  then show ?thesis
    by (auto simp: slot_of_connId_def register_connId_def Let_def map_of_filter_distinct split: option.splits)
qed

lemma replace_slot_target:
  assumes inv: "server_inv s" and vc: "map_of (vcs s) (mb_clientId b) = Some vc"
    and conn: "slot_of_connId (mb_clientId b) (mb_connectionId b) s \<in> {-1, int j}"
    and j: "j < VC_TCP_CONNECTIONS" "mb_slotIndex b = word_of_nat j"
  shows "replace_slot e b vc s = register_connId (mb_clientId b) (mb_connectionId b) (int j)
      (s\<lparr>sv_chans := (sv_chans s)[vc := replaceConnection (int j) (ae_client e) (ae_now e) (sv_chans s ! vc)]\<rparr>)"
proof -
  have "DecideReplaceSlot (slot_of_connId (mb_clientId b) (mb_connectionId b) s) (sint (mb_slotIndex b)) (int VC_TCP_CONNECTIONS) dead = int j" for dead
    using conn j by (auto simp: DecideReplaceSlot_def slot_word)
  then show ?thesis by (simp add: replace_slot_def Let_def on_chan_quiet replaceConnection_connections)
qed

lemma bind_taken:
  assumes inv: "rc_inv (c, bs, s)" and b: "b \<in> set bs" and e: "0 \<le> ae_client e" "receive_bind (ae_recv e) = Some (Some b)"
  obtains vc j s' where "map_of (vcs s) (cl_clientId c) = Some vc" and "mb_slotIndex b = word_of_nat j" and "j < VC_TCP_CONNECTIONS"
    and "accept_step e s = Some (Inr (LoopGoesOn, s'))"
    and "s' = register_connId (cl_clientId c) (mb_connectionId b) (int j)
      (s\<lparr>sv_chans := (sv_chans s)[vc := replaceConnection (int j) (ae_client e) (ae_now e) (sv_chans s ! vc)]\<rparr>)"
proof -
  obtain vc own where vc: "server_inv s" "map_of (vcs s) (cl_clientId c) = Some vc" "owned own c bs s" using inv by (auto simp: rc_inv_def)
  let ?j = "own (mb_connectionId b)"
  have o: "mb_clientId b = cl_clientId c" "?j < VC_TCP_CONNECTIONS" "mb_slotIndex b = word_of_nat ?j"
    "slot_of_connId (mb_clientId b) (mb_connectionId b) s \<in> {-1, int ?j}"
    using vc(3) b by (auto simp: owned_def)
  have "accept_step e s = Some (Inr (LoopGoesOn, replace_slot e b vc s))"
    using e o(1-3) vc(2) by (simp add: accept_step_def VcManager_Get_def slot_word)
  then show ?thesis using replace_slot_target [OF vc(1), of b vc ?j e] o vc(2) by (intro that [OF vc(2) o(3,2)]) simp_all
qed

section \<open>Preservation\<close>

text \<open>A round of the accept loop for one client leaves what is recorded for the others alone.\<close>

definition same_records :: "u32 \<Rightarrow> server \<Rightarrow> server \<Rightarrow> bool" where
  "same_records k s s' \<longleftrightarrow> map_of (vcs s') k = map_of (vcs s) k \<and> map_of (clientConnSlots s') k = map_of (clientConnSlots s) k"

lemma same_records_refl: "same_records k s s"
  by (simp add: same_records_def)

lemma same_records_trans: "same_records k s s1 \<Longrightarrow> same_records k s1 s2 \<Longrightarrow> same_records k s s2"
  by (simp add: same_records_def)

lemma start_vc_records: "start_vc e k' vc s = Inr (r, s') \<Longrightarrow> same_records k s s'"
  by (auto simp: start_vc_def same_records_def close_socket_def Let_def and_then_eq_Inr split: if_splits)

lemma create_vc_records: "create_vc e k' fds s = (vc, s') \<Longrightarrow> k' \<noteq> k \<Longrightarrow> same_records k s s'"
  by (auto simp: create_vc_def VcManager_Add_def same_records_def Let_def split_beta)

lemma AddPeer_records: "same_records k s (AddPeer k' s)"
  by (auto simp: AddPeer_def same_records_def Let_def split_beta split: option.split)

lemma accumulate_records:
  assumes "accumulate e b s = Inr (r, s')" and "mb_clientId b \<noteq> k"
  shows "same_records k s s'"
proof -
  define s1 where "s1 = (if mb_connectionId b \<noteq> 0
    then s\<lparr>socketToConnId := AList.update (ae_client e) (mb_connectionId b) (socketToConnId s)\<rparr> else s)"
  define s2 where "s2 = AddPeer (mb_clientId b) s1"
  have "same_records k s s1" by (simp add: s1_def same_records_def)
  then have s2: "same_records k s s2" unfolding s2_def using AddPeer_records same_records_trans by blast
  show ?thesis
  proof (cases "GetPeerById (mb_clientId b) s2")
    case None
    then have "s' = close_socket (ae_client e) s2" using assms(1) by (simp add: accumulate_def s1_def s2_def Let_def)
    then show ?thesis using s2 by (simp add: close_socket_def same_records_def)
  next
    case (Some p)
    obtain p' cl where p': "AddSocket (ae_client e) p = (p', cl)" by fastforce
    define s3 where "s3 = s2\<lparr>peers := AList.update (mb_clientId b) p' (peers s2), sv_closed := sv_closed s2 @ cl\<rparr>"
    obtain vc s4 where s4: "create_vc e (mb_clientId b) (pr_sockets p') s3 = (vc, s4)" by fastforce
    have s3: "same_records k s s3" using s2 by (simp add: s3_def same_records_def)
    have "s' = s3 \<or> start_vc e (mb_clientId b) vc s4 = Inr (r, s')"
      using assms(1) Some p' s4 by (auto simp: accumulate_def Let_def s1_def s2_def s3_def split: if_splits)
    then show ?thesis using s3 s4 assms(2) same_records_trans start_vc_records create_vc_records by metis
  qed
qed

lemma accept_step_records:
  assumes "accept_step e s = Some (Inr (r, s'))" and "receive_bind (ae_recv e) = Some (Some b)" and "mb_clientId b \<noteq> k"
  shows "same_records k s s'"
proof (cases "ae_client e < 0 \<or> VcManager_Get (mb_clientId b) s = None")
  case True
  then show ?thesis using assms by (auto simp: accept_step_def intro: same_records_refl accumulate_records split: if_splits)
next
  case False
  then obtain vc where vc: "VcManager_Get (mb_clientId b) s = Some vc" "0 \<le> ae_client e" by auto
  show ?thesis
  proof (cases "sint (mb_slotIndex b) < 0")
    case True
    then obtain c' where c': "vc_close OtherCaller (sv_chans s ! vc) = Inr c'"
      and acc: "accumulate e b (let s1 = on_chan vc c' s in
         if VcManager_Exists (mb_clientId b) s1 then VcManager_Remove (mb_clientId b) s1 else s1) = Inr (r, s')"
      using assms(1,2) vc by (auto simp: accept_step_def and_then_eq_Inr Let_def)
    have "same_records k s (let s1 = on_chan vc c' s in
         if VcManager_Exists (mb_clientId b) s1 then VcManager_Remove (mb_clientId b) s1 else s1)"
      using assms(3) by (simp add: on_chan_quiet vc_close_connections [OF c'] VcManager_Remove_def same_records_def Let_def)
    then show ?thesis using accumulate_records [OF acc assms(3)] same_records_trans by blast
  next
    case neg: False
    then have "s' = replace_slot e b vc s" using assms(1,2) vc by (simp add: accept_step_def)
    then show ?thesis using assms(3)
      by (simp add: replace_slot_def Let_def on_chan_quiet replaceConnection_connections close_socket_def register_connId_def same_records_def)
  qed
qed

lemma slot_of_connId_records: "same_records k s s' \<Longrightarrow> slot_of_connId k cid s' = slot_of_connId k cid s"
  by (simp add: slot_of_connId_def same_records_def)

lemma rc_inv_records:
  assumes "rc_inv (c, bs, s)" and "same_records (cl_clientId c) s s'" and "server_inv s'"
  shows "rc_inv (c, bs, s')"
  using assms by (simp add: rc_inv_def owned_def slot_of_connId_records) (simp add: same_records_def)

lemma rc_inv_fewer: "rc_inv (c, bs, s) \<Longrightarrow> set bs' \<subseteq> set bs \<Longrightarrow> rc_inv (c, bs', s)"
  by (auto simp: rc_inv_def owned_def)

lemma rc_inv_taken:
  assumes "rc_inv (c, bs, s)" and "b \<in> set bs" and "set bs' \<subseteq> set bs" and "0 \<le> ae_client e" "receive_bind (ae_recv e) = Some (Some b)"
    and "accept_step e s = Some (Inr (r, s'))"
  shows "rc_inv (c, bs', s')"
proof -
  obtain vc j where j: "mb_slotIndex b = word_of_nat j" "j < VC_TCP_CONNECTIONS"
    and s': "s' = register_connId (cl_clientId c) (mb_connectionId b) (int j)
      (s\<lparr>sv_chans := (sv_chans s)[vc := replaceConnection (int j) (ae_client e) (ae_now e) (sv_chans s ! vc)]\<rparr>)"
    by (rule bind_taken [OF assms(1,2,4,5)]) (use assms(6) in auto)
  let ?s1 = "s\<lparr>sv_chans := (sv_chans s)[vc := replaceConnection (int j) (ae_client e) (ae_now e) (sv_chans s ! vc)]\<rparr>"
  obtain own where own: "owned own c bs s" and inv: "server_inv s" using assms(1) by (auto simp: rc_inv_def)
  have inv': "server_inv s'" by (rule accept_step_inv [OF inv assms(6)])
  have inv1: "server_inv ?s1" using inv by (simp add: server_inv_def vcs_inv_ops replaceConnection_connections)
  have "own (mb_connectionId b) = j"
  proof -
    have "own (mb_connectionId b) < VC_TCP_CONNECTIONS" "word_of_nat (own (mb_connectionId b)) = (word_of_nat j :: 8 word)"
      using own assms(2) j by (auto simp: owned_def)
    then show ?thesis using slot_word j(2) by (metis of_nat_eq_iff)
  qed
  moreover have "slot_of_connId (cl_clientId c) cid s' \<in> {-1, slot_of_connId (cl_clientId c) cid s} \<union> (if cid = mb_connectionId b then {int j} else {})" for cid
    using register_connId_slot [OF inv1, of "cl_clientId c" cid "mb_connectionId b" "int j"]
    unfolding s' by simp
  ultimately have "owned own c bs' s'" using own assms(2,3) unfolding owned_def by (smt (verit, best) UnE empty_iff insert_iff subset_iff)
  moreover have "vcs s' = vcs s" by (simp add: s' register_connId_def Let_def)
  ultimately show ?thesis using assms(1) inv' by (auto simp: rc_inv_def)
qed

lemma next_id_less: "Suc (unat n) < 2 ^ 32 \<Longrightarrow> cid < n \<Longrightarrow> cid < n + (1 :: u32)" "Suc (unat n) < 2 ^ 32 \<Longrightarrow> (n :: u32) < n + 1"
  by (simp_all add: word_less_nat_alt unat_word_ariths)

lemma reconnect_client:
  assumes "ReconnectSingleSlot e slot c = (ok, c')"
  shows "cl_clientId c' = cl_clientId c" and "nextConnectionId c' \<in> {nextConnectionId c, nextConnectionId c + 1}"
    and "tcpConnectionIds c' = tcpConnectionIds c \<or>
      tcpConnectionIds c' = (tcpConnectionIds c)[slot := nextConnectionId c] \<and> nextConnectionId c' = nextConnectionId c + 1"
    and "set (map snd (drop (length (cl_binds c)) (cl_binds c'))) \<subseteq> {slot_bind c slot}"
  using assms
  by (auto simp: ReconnectSingleSlot_def swap_slot_def client_close_def slot_bind_def Let_def split: if_splits option.splits)

lemma rc_inv_reconnect:
  assumes "rc_inv (c, bs, s)" and "slot < VC_TCP_CONNECTIONS" and "ids_left 1 c" and "ReconnectSingleSlot e slot c = (ok, c')"
    and "set bs' \<subseteq> insert (slot_bind c slot) (set bs)"
  shows "rc_inv (c', bs', s)"
proof -
  note c' = reconnect_client [OF assms(4)]
  let ?n = "nextConnectionId c"
  obtain own where own: "owned own c bs s" and len: "length (tcpConnectionIds c) = VC_TCP_CONNECTIONS"
    using assms(1) by (auto simp: rc_inv_def)
  have n: "Suc (unat ?n) < 2 ^ 32" using assms(3) by (simp add: ids_left_def)
  have less: "cid < ?n \<Longrightarrow> cid < nextConnectionId c'" for cid using c'(2) next_id_less(1) [OF n] by auto
  have pos: "0 < nextConnectionId c'" using assms(1) less by (auto simp: rc_inv_def)
  define own' where "own' = (if tcpConnectionIds c' = tcpConnectionIds c then own else own(?n := slot))"
  have old: "own' cid = own cid" if "cid < ?n" for cid using that by (auto simp: own'_def)
  have b: "slot_bind c slot = \<lparr>mb_clientId = cl_clientId c, mb_slotIndex = word_of_nat slot, mb_connectionId = tcpConnectionIds c ! slot\<rparr>"
    using assms(2) len by (simp add: slot_bind_def)
  have "own' (tcpConnectionIds c' ! j) = j \<and> tcpConnectionIds c' ! j < nextConnectionId c'" if "j < VC_TCP_CONNECTIONS" for j
  proof (cases "j = slot \<and> tcpConnectionIds c' \<noteq> tcpConnectionIds c")
    case True
    then show ?thesis using c'(3) assms(2) len next_id_less(2) [OF n] by (simp add: own'_def)
  next
    case False
    then have "tcpConnectionIds c' ! j = tcpConnectionIds c ! j" using c'(3) by (metis nth_list_update_neq)
    then show ?thesis using own that less old by (simp add: owned_def)
  qed
  moreover have "mb_clientId m = cl_clientId c' \<and> own' (mb_connectionId m) < VC_TCP_CONNECTIONS \<and>
      mb_slotIndex m = word_of_nat (own' (mb_connectionId m)) \<and> mb_connectionId m < nextConnectionId c'" if "m \<in> set bs'" for m
  proof (cases "m = slot_bind c slot")
    case True
    then show ?thesis using own assms(2) less old c'(1) by (auto simp: owned_def b)
  next
    case False
    then have "m \<in> set bs" using that assms(5) by auto
    then show ?thesis using own less old c'(1) by (auto simp: owned_def)
  qed
  moreover have "slot_of_connId (cl_clientId c') cid s \<noteq> -1 \<Longrightarrow> slot_of_connId (cl_clientId c') cid s = int (own' cid) \<and> cid < nextConnectionId c'" for cid
    using own less old c'(1) by (auto simp: owned_def)
  ultimately have "owned own' c' bs' s" by (simp add: owned_def)
  moreover have "length (tcpConnectionIds c') = VC_TCP_CONNECTIONS" using c'(3) len by auto
  ultimately show ?thesis using assms(1) c'(1) pos by (auto simp: rc_inv_def)
qed

lemma consecutive_ids:
  assumes "0 < unat n" and "unat n + k < 2 ^ 32" and "i < k"
  shows "n + word_of_nat i < n + (word_of_nat k :: u32)" and "n + word_of_nat i \<noteq> 0" and "0 < n + (word_of_nat k :: u32)"
    and "unat (n + word_of_nat i) = unat n + i"
proof -
  have u: "unat (n + word_of_nat j) = unat n + j" if "j \<le> k" for j
    using that assms(2) by (simp add: unat_word_ariths unat_of_nat)
  show "unat (n + word_of_nat i) = unat n + i" using u assms(3) by simp
  show "n + word_of_nat i < n + word_of_nat k" using u [of i] u [of k] assms(3) by (simp add: word_less_nat_alt)
  show "n + word_of_nat i \<noteq> 0" using u [of i] assms(1,3) by (metis add_is_0 less_imp_le_nat less_numeral_extra(3) unat_0)
  show "0 < n + word_of_nat k" using u [of k] assms(1) by (simp add: word_less_nat_alt)
qed

lemma rc_inv_start:
  assumes "PrepareVC e c0 = Inr (True, c)" and "ids_left VC_TCP_CONNECTIONS c0" and "server_inv s0" and "unknown_client (cl_clientId c0) s0"
    and "introduced c es" and "accept_all es s0 = Some (Inr (LoopGoesOn, s))"
  shows "rc_inv (c, [], s)"
proof -
  let ?n = "nextConnectionId c0"
  obtain c1 where c1: "TeardownVc c0 = Inr c1" "nextConnectionId c1 = ?n" "cl_clientId c1 = cl_clientId c0" by (rule TeardownVc_total [of c0])
  have c: "tcpConnectionIds c = map (\<lambda>i. ?n + word_of_nat i) [0..<VC_TCP_CONNECTIONS]"
    "nextConnectionId c = ?n + word_of_nat VC_TCP_CONNECTIONS" "cl_clientId c = cl_clientId c0"
    using prepare_vc_cases [OF c1(1), of e] assms(1) c1(2,3) by (auto simp: connected_upto_def)
  note ids = consecutive_ids [of ?n VC_TCP_CONNECTIONS]
  have left: "0 < unat ?n" "unat ?n + VC_TCP_CONNECTIONS < 2 ^ 32" using assms(2) by (simp_all add: ids_left_def)
  have es: "length es = VC_TCP_CONNECTIONS" using assms(5) by (simp add: introduced_def)
  have intro: "\<forall>i < length es. introduces (cl_clientId c0) (es ! i) (map ae_client es ! i) (tcpConnectionIds c ! i)"
    using assms(5) ids(2) [OF left] by (simp add: introduced_def introduces_def initial_bind_def c)
  have inj: "inj_on (\<lambda>i. ?n + word_of_nat i) {0..<VC_TCP_CONNECTIONS}"
    by (rule inj_onI) (metis add_left_cancel atLeastLessThan_iff ids(4) left)
  then have dist: "distinct (tcpConnectionIds c)" by (simp add: c distinct_map)
  have unk: "map_of (vcs s0) (cl_clientId c0) = None" "map_of (peers s0) (cl_clientId c0) = None" "map_of (clientConnSlots s0) (cl_clientId c0) = None"
    using assms(4) by (simp_all add: unknown_client_def)
  have len: "length (tcpConnectionIds c) = VC_TCP_CONNECTIONS" by (simp add: c)
  obtain s' vc where s': "accept_all es s0 = Some (Inr (LoopGoesOn, s'))" "map_of (vcs s') (cl_clientId c0) = Some vc"
    "\<forall>i < length (tcpConnectionIds c). slot_of_connId (cl_clientId c0) (tcpConnectionIds c ! i) s' = int i" "server_inv s'"
    "\<forall>cid. cid \<notin> set (tcpConnectionIds c) \<longrightarrow> slot_of_connId (cl_clientId c0) cid s' = -1"
    using new_client_outcome [OF assms(3) unk es _ _ intro _ dist] assms(5) len es unfolding introduced_def by (metis length_map)
  have "s' = s" using s'(1) assms(6) by simp
  define own where "own cid = unat cid - unat ?n" for cid :: u32
  have own: "own (tcpConnectionIds c ! j) = j \<and> tcpConnectionIds c ! j < nextConnectionId c" if "j < VC_TCP_CONNECTIONS" for j
    using ids(1,4) [OF left that] that by (simp add: own_def c)
  have "slot_of_connId (cl_clientId c) cid s = int (own cid) \<and> cid < nextConnectionId c" if "slot_of_connId (cl_clientId c) cid s \<noteq> -1" for cid
  proof -
    have "cid \<in> set (tcpConnectionIds c)" using that s'(5) \<open>s' = s\<close> c(3) by auto
    then obtain j where "j < VC_TCP_CONNECTIONS" "cid = tcpConnectionIds c ! j" using len by (metis in_set_conv_nth)
    then show ?thesis using own [of j] s'(3) \<open>s' = s\<close> c by simp
  qed
  with own have "owned own c [] s" by (simp add: owned_def)
  moreover have "0 < nextConnectionId c" using ids(3) [OF left, of 0] by (simp add: c VC_TCP_CONNECTIONS_def)
  ultimately show ?thesis using s' \<open>s' = s\<close> c by (auto simp: rc_inv_def)
qed

lemma rc_reach_inv: "rc_reach x \<Longrightarrow> rc_inv x"
proof (induction rule: rc_reach.induct)
  case (rc_start e c0 c s0 es s)
  then show ?case by (rule rc_inv_start)
next
  case (rc_reconnect c bs s slot e ok c')
  show ?case using reconnect_client(4) [OF rc_reconnect.hyps(4)]
    by (intro rc_inv_reconnect [OF rc_reconnect.IH rc_reconnect.hyps(2-4)]) auto
next
  case (rc_lost c bs1 b bs2 s)
  then show ?case by (auto intro: rc_inv_fewer)
next
  case (rc_taken c bs1 b bs2 s e r s')
  show ?case by (rule rc_inv_taken [OF rc_taken.IH _ _ rc_taken.hyps(2-4)]) auto
next
  case (rc_other_client c bs s e b r s')
  then show ?case
    using accept_step_records [of e s r s' b "cl_clientId c"] accept_step_inv [of s e r s'] rc_inv_records [of c bs s s']
    by (auto simp: rc_inv_def)
next
  case (rc_own_work c bs s v)
  then show ?case by (simp add: rc_inv_def owned_def)
next
  case (rc_peer_work c bs s v i)
  then show ?case by (intro rc_inv_records [OF rc_peer_work.IH]) (auto simp: rc_inv_def same_records_def server_inv_def vcs_inv_ops)
qed

section \<open>A reconnected socket finds its slot\<close>

text \<open>
  C17: client and server never disagree about slots. However often connections are replaced, and in
  whatever order the bind messages reach the server or get lost, when the server takes one of them
  it puts the new socket into the very slot that the client opened it for, touches no other
  connection and closes nothing. Connection ids may be stale in the server's map, but an id never
  leads to a foreign slot.
\<close>

theorem reconnected_socket_finds_slot:
  assumes "rc_reach (c, bs, s)" and "b \<in> set bs" and "0 \<le> ae_client e" and "receive_bind (ae_recv e) = Some (Some b)"
  shows "\<exists>vc s'. map_of (vcs s) (cl_clientId c) = Some vc \<and> accept_step e s = Some (Inr (LoopGoesOn, s')) \<and>
     0 \<le> sint (mb_slotIndex b) \<and> sint (mb_slotIndex b) < int VC_TCP_CONNECTIONS \<and> sv_closed s' = sv_closed s \<and>
     sv_chans s' = (sv_chans s)[vc := replaceConnection (sint (mb_slotIndex b)) (ae_client e) (ae_now e) (sv_chans s ! vc)]"
proof -
  obtain vc j s' where s': "map_of (vcs s) (cl_clientId c) = Some vc" "mb_slotIndex b = word_of_nat j" "j < VC_TCP_CONNECTIONS"
    "accept_step e s = Some (Inr (LoopGoesOn, s'))"
    "s' = register_connId (cl_clientId c) (mb_connectionId b) (int j)
      (s\<lparr>sv_chans := (sv_chans s)[vc := replaceConnection (int j) (ae_client e) (ae_now e) (sv_chans s ! vc)]\<rparr>)"
    by (rule bind_taken [OF rc_reach_inv [OF assms(1)] assms(2-4)])
  moreover have "sint (mb_slotIndex b) = int j" using s'(2,3) by (simp add: slot_word)
  ultimately show ?thesis by (auto simp: register_connId_def Let_def)
qed

text \<open>The client connects, then replaces slot 3 by the socket 77; the server accepts it as socket 99.\<close>

definition slot_fine :: slot_env where
  "slot_fine = \<lparr>sl_epochStart = 0, sl_watchdogStart = True, sl_create = 77, sl_connect = 0, sl_watchdogConnected = True,
     sl_epochConnected = 0, sl_epochBind = 0, sl_send = 12, sl_epochSwap = 0, sl_now = 0\<rparr>"

definition rehello :: "MsgBind \<Rightarrow> accept_env" where
  "rehello b = \<lparr>ae_client = 99, ae_recv = [Inr (MsgBind_bytes [] b)], ae_udp = 4, ae_udpBind = 0, ae_now = 0, ae_openNow = 0\<rparr>"

lemma connected_example:
  obtains c v s where "rc_reach (c, [], s)" and "cl_vc c = Some v" and "opened v" and "cl_clientId c = 5" and "ids_left 1 c"
    and "length (tcpConnectionIds c) = VC_TCP_CONNECTIONS"
proof -
  obtain c v where c: "PrepareVC all_fine new_client = Inr (True, c)" "cl_vc c = Some v" "opened v"
    and up: "connected_upto all_fine new_client VC_TCP_CONNECTIONS (c\<lparr>cl_vc := None, watchdogRunning := False, watchdogJoinable := False\<rparr>)"
    using prepare_vc_cases [OF new_client_idle, of all_fine] all_fine_ok by blast
  have ids: "tcpConnectionIds c = hello_ids" "cl_clientId c = 5" "nextConnectionId c = 33"
    using up by (simp_all add: connected_upto_def new_client_def VC_TCP_CONNECTIONS_def)
  obtain s where s: "accept_all hellos empty_server = Some (Inr (LoopGoesOn, s))"
    using new_client_outcome [OF server_inv_empty hellos_ok(9-11,1-8)] by blast
  have "distinct (map ae_client hellos)" by (simp add: hello_def distinct_map inj_on_def comp_def)
  then have intro: "introduced c hellos"
    using hellos_ok(1) by (simp add: introduced_def ids hello_def receive_bind_whole initial_bind_def last_map)
  have "rc_reach (c, [], s)"
    by (rule rc_start [OF c(1) _ server_inv_empty _ intro s])
       (simp_all add: ids_left_def unknown_client_def new_client_def empty_server_def VC_TCP_CONNECTIONS_def)
  then show ?thesis using that c(2,3) ids by (simp add: ids_left_def VC_TCP_CONNECTIONS_def)
qed

theorem reconnected_socket_finds_slot_witness:
  "\<exists>c s b vc s'. rc_reach (c, [b], s) \<and> mb_slotIndex b = 3 \<and> accept_step (rehello b) s = Some (Inr (LoopGoesOn, s')) \<and>
     sv_chans s' = (sv_chans s)[vc := replaceConnection 3 99 0 (sv_chans s ! vc)]"
proof -
  obtain c v s where c: "rc_reach (c, [], s)" "cl_vc c = Some v" "opened v" "cl_clientId c = 5" "ids_left 1 c"
    "length (tcpConnectionIds c) = VC_TCP_CONNECTIONS"
    by (rule connected_example)
  obtain c' where c': "ReconnectSingleSlot slot_fine 3 c = (True, c')" "cl_binds c' = cl_binds c @ [(77, slot_bind c 3)]"
    using c(2,3) by (simp add: ReconnectSingleSlot_def swap_slot_def slot_fine_def slot_bind_def Let_def)
  let ?b = "slot_bind c 3"
  have "rc_reach (c', [?b], s)" using rc_reconnect [OF c(1) _ c(5) c'(1)] c'(2) by (simp add: VC_TCP_CONNECTIONS_def)
  moreover have slot: "mb_slotIndex ?b = 3" by (simp add: slot_bind_def)
  moreover have "sint (3 :: 8 word) = 3" using slot_word [of 3] by (simp add: VC_TCP_CONNECTIONS_def)
  moreover have "ae_client (rehello ?b) = 99" "ae_now (rehello ?b) = 0" "receive_bind (ae_recv (rehello ?b)) = Some (Some ?b)"
    by (simp_all add: rehello_def receive_bind_whole)
  ultimately show ?thesis using reconnected_socket_finds_slot [of c' "[?b]" s ?b "rehello ?b"] by fastforce
qed

end
