(* ===== verification/Packet_Reader.thy ===== *)
theory Packet_Reader
  imports Io_Parser
begin

text \<open>
  What the receive paths of the program have in common: octets of one connection are fed to a reader in
  chunks, the reader invokes callbacks for the packets that are complete and keeps the octets of the
  next one. The program has two readers, the IO thread that serves all connections and the older read
  thread that serves one.
\<close>

section \<open>Interface\<close>

text \<open>
  \<open>feed\<close> takes one chunk; \<open>unread\<close> are the octets kept. The law speaks about prefixes of streams of
  packets of the kinds that the reader handles (\<open>handles\<close>).
\<close>

locale packet_reader =
  fixes feed :: "'s \<Rightarrow> bytes \<Rightarrow> 'e list \<times> 's"
    and unread :: "'s \<Rightarrow> bytes"
    and ready :: "'s \<Rightarrow> bool"
    and chunk_ok :: "bytes \<Rightarrow> bool"
    and handles :: "vc_packet \<Rightarrow> bool"
    and event_of :: "vc_packet \<Rightarrow> 'e"
  assumes handles_ok: "handles p \<Longrightarrow> packet_ok p"
    and feed_prefix: "\<lbrakk>ready s; chunk_ok ch; list_all handles ps; (unread s @ ch) @ later = stream_bytes ps\<rbrakk> \<Longrightarrow>
      \<exists>ps1 ps2. ps = ps1 @ ps2 \<and> fst (feed s ch) = map event_of ps1 \<and> ready (snd (feed s ch)) \<and>
        unread (snd (feed s ch)) @ later = stream_bytes ps2 \<and>
        (ps2 \<noteq> [] \<longrightarrow> length (unread (snd (feed s ch))) < length (packet_bytes (hd ps2)))"
begin

fun feed_all :: "'s \<Rightarrow> bytes list \<Rightarrow> 'e list \<times> 's" where
  "feed_all s [] = ([], s)"
| "feed_all s (ch # chs) = (let (es, s1) = feed s ch; (es', s2) = feed_all s1 chs in (es @ es', s2))"

lemma feed_all_stream:
  assumes "ready s" and "list_all chunk_ok chs" and "list_all handles ps" and "unread s @ concat chs = stream_bytes ps"
    and "ps \<noteq> [] \<longrightarrow> length (unread s) < length (packet_bytes (hd ps))"
  shows "fst (feed_all s chs) = map event_of ps \<and> unread (snd (feed_all s chs)) = []"
  using assms
proof (induction chs arbitrary: s ps)
  case Nil
  then show ?case by (cases ps) auto
next
  case (Cons ch chs)
  have "(unread s @ ch) @ concat chs = stream_bytes ps" using Cons.prems(4) by simp
  then obtain ps1 ps2 where f: "ps = ps1 @ ps2" "fst (feed s ch) = map event_of ps1" "ready (snd (feed s ch))"
    "unread (snd (feed s ch)) @ concat chs = stream_bytes ps2"
    "ps2 \<noteq> [] \<longrightarrow> length (unread (snd (feed s ch))) < length (packet_bytes (hd ps2))"
    using feed_prefix [of s ch ps "concat chs"] Cons.prems by auto
  have "fst (feed_all (snd (feed s ch)) chs) = map event_of ps2 \<and> unread (snd (feed_all (snd (feed s ch)) chs)) = []"
    using Cons.IH [of "snd (feed s ch)" ps2] Cons.prems f by simp
  then show ?case using f by (simp add: split_beta Let_def)
qed

text \<open>Over a whole connection every packet is handled once, in order, however the stream is cut.\<close>

lemma feed_all_whole:
  assumes "ready s" and "unread s = []" and "list_all chunk_ok chs" and "list_all handles ps" and "concat chs = stream_bytes ps"
  shows "fst (feed_all s chs) = map event_of ps \<and> unread (snd (feed_all s chs)) = []"
proof -
  have "ps \<noteq> [] \<longrightarrow> 0 < length (packet_bytes (hd ps))"
    using assms(4) handles_ok packet_bytes_min by (cases ps) (fastforce simp: layout_simps)+
  then show ?thesis using feed_all_stream [OF assms(1,3,4)] assms(2,5) by simp
qed

end

section \<open>The IO thread as a packet reader\<close>

definition io_feed :: "int \<Rightarrow> ReadBuffer \<Rightarrow> bytes \<Rightarrow> io_event list \<times> ReadBuffer" where
  "io_feed ci rb ch = readFromConnection True [Inr ch, Inl EAGAIN] ci rb"

interpretation io_reader: packet_reader "io_feed ci" rb_begin rb_ok "\<lambda>ch. ch \<noteq> []" packet_ok "packet_event ci"
proof unfold_locales
  fix s :: ReadBuffer and ch later :: bytes and ps :: "vc_packet list"
  assume a: "rb_ok s" "ch \<noteq> []" "list_all packet_ok ps" "(rb_begin s @ ch) @ later = stream_bytes ps"
  have spec: "spec_parse ci (rb_begin s @ ch) = map_prod id rb_begin (io_feed ci s ch)"
    using readFromConnection_spec [OF a(1), of "[ch]" ci] a(2) by (simp add: io_feed_def)
  from spec_parse_stream [OF a(3,4), of ci] obtain ps1 ps2 r where p: "ps = ps1 @ ps2"
    "spec_parse ci (rb_begin s @ ch) = (map (packet_event ci) ps1, r)" "r @ later = stream_bytes ps2"
    "ps2 \<noteq> [] \<longrightarrow> length r < length (packet_bytes (hd ps2))" by blast
  have "rb_ok (snd (io_feed ci s ch))" unfolding io_feed_def by (rule readFromConnection_ok [OF a(1)])
  with p spec show "\<exists>ps1 ps2. ps = ps1 @ ps2 \<and> fst (io_feed ci s ch) = map (packet_event ci) ps1 \<and> rb_ok (snd (io_feed ci s ch)) \<and>
      rb_begin (snd (io_feed ci s ch)) @ later = stream_bytes ps2 \<and>
      (ps2 \<noteq> [] \<longrightarrow> length (rb_begin (snd (io_feed ci s ch))) < length (packet_bytes (hd ps2)))"
    by (auto simp: prod_eq_iff simp del: length_rb_begin)
qed

end
