(* ===== verification/Read_Thread.thy ===== *)
theory Read_Thread
  imports Packet_Reader Tcp_Connection
begin

text \<open>
  The read thread of one connection (\<^verbatim>\<open>src/src/common/TcpVCReadThread.h\<close>, \<^verbatim>\<open>TcpVCReadThread.cpp\<close>), which
  the IO thread has replaced: reading from the connection, the packet loop over a plain vector, and
  its exceptions. Callback invocations are returned as events; answers of \<^verbatim>\<open>recv\<close> are inputs.
\<close>

section \<open>Packets\<close>

datatype rd_event = RdData u64 bytes | RdResendRequest u64 | RdMissingNotify "u64 list" | RdDisconnect

text \<open>The two \<^verbatim>\<open>std::logic_error\<close>s.\<close>

datatype rd_error = UnknownPacketType | DataLengthExceeds

text \<open>Which callbacks have been set.\<close>

record rd_callbacks =
  cb_data :: bool
  cb_resend :: bool
  cb_missing :: bool
  cb_disconnect :: bool

definition hasEnoughDataForData :: "bytes \<Rightarrow> rd_error + bool" where
  "hasEnoughDataForData b =
     (if length b < VC_MIN_DATA_PACKET_SIZE then Inr False
      else if pkt_dataLength b > VC_MAX_DATA_PAYLOAD_SIZE then Inl DataLengthExceeds
      else Inr (length b \<ge> VC_MIN_DATA_PACKET_SIZE + pkt_dataLength b))"

definition hasEnoughDataForResendRequest :: "bytes \<Rightarrow> bool" where
  "hasEnoughDataForResendRequest b \<longleftrightarrow> length b \<ge> VC_MIN_RESEND_REQUEST_SIZE"

definition hasEnoughDataForMissingNotify :: "bytes \<Rightarrow> bool" where
  "hasEnoughDataForMissingNotify b \<longleftrightarrow>
     (if length b < VC_MIN_MISSING_NOTIFY_SIZE then False
      else length b \<ge> sizeof_VCHeader + 1 + pkt_count b * 8)"

definition hasEnoughData :: "bytes \<Rightarrow> rd_error + bool" where
  "hasEnoughData b =
     (if length b < VC_MIN_DATA_PACKET_SIZE then Inr False
      else let packetType = pkt_type_octet b
           in if packetType = type_code DATA then hasEnoughDataForData b
              else if packetType = type_code RESEND_REQUEST then Inr (hasEnoughDataForResendRequest b)
              else if packetType = type_code MISSING_NOTIFY then Inr (hasEnoughDataForMissingNotify b)
              else Inl UnknownPacketType)"

definition processDataBuffer :: "rd_callbacks \<Rightarrow> bytes \<Rightarrow> rd_error + (rd_event list \<times> nat)" where
  "processDataBuffer cb b =
     (if pkt_dataLength b > VC_MAX_DATA_PAYLOAD_SIZE then Inl DataLengthExceeds
      else Inr (if cb_data cb then [RdData (pkt_messageId b) (take (pkt_dataLength b) (pkt_data b))] else [],
                sizeof_VCDataPacket + pkt_dataLength b))"

definition processResendRequestBuffer :: "rd_callbacks \<Rightarrow> bytes \<Rightarrow> rd_event list \<times> nat" where
  "processResendRequestBuffer cb b =
     (if cb_resend cb then [RdResendRequest (pkt_missingMessageId b)] else [], sizeof_VCResendRequest)"

definition processMissingNotifyBuffer :: "rd_callbacks \<Rightarrow> bytes \<Rightarrow> rd_event list \<times> nat" where
  "processMissingNotifyBuffer cb b =
     (if cb_missing cb then [RdMissingNotify (pkt_missingIds b)] else [], sizeof_VCHeader + 1 + pkt_count b * 8)"

definition processBuffer :: "rd_callbacks \<Rightarrow> bytes \<Rightarrow> rd_error + (rd_event list \<times> nat)" where
  "processBuffer cb b =
     (let packetType = pkt_type_octet b
      in if packetType = type_code DATA then processDataBuffer cb b
         else if packetType = type_code RESEND_REQUEST then Inr (processResendRequestBuffer cb b)
         else if packetType = type_code MISSING_NOTIFY then Inr (processMissingNotifyBuffer cb b)
         else Inl UnknownPacketType)"

text \<open>The inner loop: the events, the exception that ended it if there was one, and the rest of the vector.\<close>

function process_loop :: "rd_callbacks \<Rightarrow> bytes \<Rightarrow> rd_event list \<times> rd_error option \<times> bytes" where
  "process_loop cb b =
     (case hasEnoughData b of
        Inl er \<Rightarrow> ([], Some er, b)
      | Inr enough \<Rightarrow>
          if \<not> enough then ([], None, b)
          else case processBuffer cb b of
                 Inl er \<Rightarrow> ([], Some er, b)
               | Inr (es, n) \<Rightarrow>
                   if n > 0 then let (es', er, b') = process_loop cb (drop n b) in (es @ es', er, b')
                   else (es, None, b))"
  by pat_completeness auto
termination
  by (relation "measure (\<lambda>(cb, b). length b)") (auto simp: hasEnoughData_def layout_simps split: if_splits)

declare process_loop.simps [simp del]

section \<open>The thread\<close>

record read_thread =
  rt_running :: bool
  rt_connection :: TcpConnection
  rt_buffer :: bytes

definition disconnect_event :: "rd_callbacks \<Rightarrow> rd_event list" where
  "disconnect_event cb = (if cb_disconnect cb then [RdDisconnect] else [])"

text \<open>One round of the outer loop, with the answer of \<^verbatim>\<open>recv\<close>; an exception ends the thread like a closed connection.\<close>

definition read_round :: "rd_callbacks \<Rightarrow> read_thread \<Rightarrow> errno + bytes \<Rightarrow> rd_event list \<times> read_thread" where
  "read_round cb t answer =
     (let (dataSize, conn) = tcp_receive (case answer of Inl e \<Rightarrow> -1 | Inr bs \<Rightarrow> int (length bs)) (rt_connection t);
          t1 = t\<lparr>rt_connection := conn\<rparr>
      in if dataSize > 0
         then let (es, er, b) = process_loop cb (rt_buffer t1 @ (case answer of Inl e \<Rightarrow> [] | Inr bs \<Rightarrow> bs)); t2 = t1\<lparr>rt_buffer := b\<rparr>
              in case er of
                   None \<Rightarrow> (es, t2)
                 | Some _ \<Rightarrow> (es @ disconnect_event cb, t2\<lparr>rt_running := False\<rparr>)
         else (disconnect_event cb, t1\<lparr>rt_running := False\<rparr>))"

text \<open>The outer loop over the answers that arrive; at the end of the list the thread is still blocked in \<^verbatim>\<open>recv\<close>.\<close>

fun read_run :: "rd_callbacks \<Rightarrow> read_thread \<Rightarrow> (errno + bytes) list \<Rightarrow> rd_event list \<times> read_thread" where
  "read_run cb t [] = ([], if rt_running t \<and> connected (rt_connection t) then t else t\<lparr>rt_running := False\<rparr>)"
| "read_run cb t (a # answers) =
     (if rt_running t \<and> connected (rt_connection t)
      then let (es, t1) = read_round cb t a; (es', t2) = read_run cb t1 answers in (es @ es', t2)
      else ([], t\<lparr>rt_running := False\<rparr>))"

section \<open>Streams of data packets and resend requests\<close>

definition all_callbacks :: rd_callbacks where
  "all_callbacks = \<lparr>cb_data = True, cb_resend = True, cb_missing = True, cb_disconnect = True\<rparr>"

fun is_notify :: "vc_packet \<Rightarrow> bool" where
  "is_notify (PMissingNotify ids) = True"
| "is_notify p = False"

fun rd_event_of :: "vc_packet \<Rightarrow> rd_event" where
  "rd_event_of (PData m d) = RdData m d"
| "rd_event_of (PResendRequest m x) = RdResendRequest x"
| "rd_event_of (PMissingNotify ids) = RdMissingNotify ids"

definition handled_at_once :: "vc_packet \<Rightarrow> bool" where
  "handled_at_once p \<longleftrightarrow> packet_ok p \<and> \<not> is_notify p"

lemmas read_defs = hasEnoughData_def hasEnoughDataForData_def hasEnoughDataForResendRequest_def hasEnoughDataForMissingNotify_def
  processBuffer_def processDataBuffer_def processResendRequestBuffer_def processMissingNotifyBuffer_def

lemma process_whole_packet:
  assumes "handled_at_once p"
  shows "hasEnoughData (packet_bytes p @ r) = Inr True"
    and "processBuffer all_callbacks (packet_bytes p @ r) = Inr ([rd_event_of p], length (packet_bytes p))"
  using assms by (cases p; simp add: handled_at_once_def read_defs all_callbacks_def layout_simps Let_def)+

lemma process_strict_prefix:
  assumes p: "handled_at_once p" and eq: "packet_bytes p = b @ x" and "x \<noteq> []"
  shows "hasEnoughData b = Inr False"
proof (cases "11 \<le> length b")
  case True
  have longer: "length b < length (packet_bytes p)" using assms by simp
  have "pkt_type_octet b = pkt_type_octet (packet_bytes p)" "pkt_dataLength b = pkt_dataLength (packet_bytes p)"
    unfolding eq using True by simp_all
  with longer p show ?thesis by (cases p) (auto simp: handled_at_once_def read_defs layout_simps)
next
  case False
  then show ?thesis by (simp add: hasEnoughData_def layout_simps)
qed

lemma process_loop_stream:
  assumes "list_all handled_at_once ps" and "b @ later = stream_bytes ps"
  shows "\<exists>ps1 ps2 r. ps = ps1 @ ps2 \<and> process_loop all_callbacks b = (map rd_event_of ps1, None, r) \<and>
     r @ later = stream_bytes ps2 \<and> (ps2 \<noteq> [] \<longrightarrow> length r < length (packet_bytes (hd ps2)))"
  using assms
proof (induction ps arbitrary: b)
  case Nil
  then show ?case by (simp add: process_loop.simps [of _ "[]"] hasEnoughData_def layout_simps)
next
  case (Cons p ps)
  then have p: "handled_at_once p" and ps: "list_all handled_at_once ps"
    and eq: "b @ later = packet_bytes p @ stream_bytes ps" by simp_all
  have min: "0 < length (packet_bytes p)" using packet_bytes_min p by (fastforce simp: handled_at_once_def layout_simps)
  show ?case
  proof (cases "length (packet_bytes p) \<le> length b")
    case True
    with eq obtain b' where b: "b = packet_bytes p @ b'" and rest: "b' @ later = stream_bytes ps"
      by (rule append_eq_longer)
    from Cons.IH [OF ps rest] obtain ps1 ps2 r where IH: "ps = ps1 @ ps2"
      "process_loop all_callbacks b' = (map rd_event_of ps1, None, r)" "r @ later = stream_bytes ps2"
      "ps2 \<noteq> [] \<longrightarrow> length r < length (packet_bytes (hd ps2))" by blast
    have "process_loop all_callbacks b = (map rd_event_of (p # ps1), None, r)"
      using IH(2) min process_whole_packet [OF p] by (simp add: b process_loop.simps [of _ "packet_bytes p @ b'"])
    with IH show ?thesis by (intro exI [of _ "p # ps1"] exI [of _ ps2] exI [of _ r]) simp
  next
    case False
    then have "length b < length (packet_bytes p)" by simp
    with eq obtain x where x: "packet_bytes p = b @ x" "x \<noteq> []"
      by (rule append_eq_shorter)
    have "process_loop all_callbacks b = ([], None, b)"
      using process_strict_prefix [OF p x] by (simp add: process_loop.simps [of _ b])
    with eq False show ?thesis by (intro exI [of _ "[]"] exI [of _ "p # ps"] exI [of _ b]) simp
  qed
qed

section \<open>The read thread as a packet reader\<close>

definition rt_ready :: "read_thread \<Rightarrow> bool" where
  "rt_ready t \<longleftrightarrow> rt_running t \<and> connected (rt_connection t) \<and> socketFd (rt_connection t) \<noteq> -1"

text \<open>The thread reads into a buffer of 1500 octets.\<close>

definition rt_chunk :: "bytes \<Rightarrow> bool" where
  "rt_chunk ch \<longleftrightarrow> ch \<noteq> [] \<and> length ch \<le> 1500"

definition rd_feed :: "read_thread \<Rightarrow> bytes \<Rightarrow> rd_event list \<times> read_thread" where
  "rd_feed t ch = read_round all_callbacks t (Inr ch)"

lemma rd_feed_loop:
  assumes "rt_ready t" and "rt_chunk ch" and "process_loop all_callbacks (rt_buffer t @ ch) = (es, None, b)"
  shows "rd_feed t ch = (es, t\<lparr>rt_buffer := b\<rparr>)"
  using assms by (simp add: rd_feed_def read_round_def tcp_receive_def rt_ready_def rt_chunk_def Let_def)

interpretation rd_reader: packet_reader rd_feed rt_buffer rt_ready rt_chunk handled_at_once rd_event_of
proof unfold_locales
  fix p show "handled_at_once p \<Longrightarrow> packet_ok p" by (simp add: handled_at_once_def)
next
  fix t :: read_thread and ch later :: bytes and ps :: "vc_packet list"
  assume a: "rt_ready t" "rt_chunk ch" "list_all handled_at_once ps" "(rt_buffer t @ ch) @ later = stream_bytes ps"
  from process_loop_stream [OF a(3,4)] obtain ps1 ps2 r where p: "ps = ps1 @ ps2"
    "process_loop all_callbacks (rt_buffer t @ ch) = (map rd_event_of ps1, None, r)" "r @ later = stream_bytes ps2"
    "ps2 \<noteq> [] \<longrightarrow> length r < length (packet_bytes (hd ps2))" by blast
  from rd_feed_loop [OF a(1,2) p(2)] p a(1)
  show "\<exists>ps1 ps2. ps = ps1 @ ps2 \<and> fst (rd_feed t ch) = map rd_event_of ps1 \<and> rt_ready (snd (rd_feed t ch)) \<and>
      rt_buffer (snd (rd_feed t ch)) @ later = stream_bytes ps2 \<and>
      (ps2 \<noteq> [] \<longrightarrow> length (rt_buffer (snd (rd_feed t ch))) < length (packet_bytes (hd ps2)))"
    by (auto simp: rt_ready_def)
qed

section \<open>Equivalence with the IO thread\<close>

lemma read_run_feed:
  "rt_ready t \<Longrightarrow> list_all rt_chunk chs \<Longrightarrow> list_all handled_at_once ps \<Longrightarrow> (rt_buffer t @ concat chs) @ later = stream_bytes ps \<Longrightarrow>
   read_run all_callbacks t (map Inr chs) = rd_reader.feed_all t chs"
proof (induction chs arbitrary: t ps)
  case Nil
  then show ?case by (simp add: rt_ready_def)
next
  case (Cons ch chs)
  have "(rt_buffer t @ ch) @ (concat chs @ later) = stream_bytes ps" using Cons.prems(4) by simp
  then obtain ps1 ps2 where f: "ps = ps1 @ ps2" "rt_ready (snd (rd_feed t ch))"
    "rt_buffer (snd (rd_feed t ch)) @ concat chs @ later = stream_bytes ps2"
    using rd_reader.feed_prefix [of t ch ps "concat chs @ later"] Cons.prems by auto
  have "read_run all_callbacks (snd (rd_feed t ch)) (map Inr chs) = rd_reader.feed_all (snd (rd_feed t ch)) chs"
    by (rule Cons.IH [OF f(2), of ps2]) (use Cons.prems f in simp_all)
  then show ?case using Cons.prems(1) by (simp add: rt_ready_def rd_feed_def [symmetric] split_beta Let_def)
qed

text \<open>What the callbacks of the IO thread say besides the index of the connection.\<close>

fun forget_conn :: "io_event \<Rightarrow> rd_event" where
  "forget_conn (DataCallback m d ci) = RdData m d"
| "forget_conn (ResendRequestCallback x) = RdResendRequest x"
| "forget_conn (MissingNotifyCallback ids) = RdMissingNotify ids"
| "forget_conn ConnectionClosed = RdDisconnect"

lemma forget_packet_event: "forget_conn (packet_event ci p) = rd_event_of p"
  by (cases p) simp_all

lemma io_rounds_feed: "fst (io_rounds ci (map (\<lambda>ch. [ch]) chs) rb) = fst (packet_reader.feed_all (io_feed ci) rb chs)"
  by (induction chs arbitrary: rb) (simp_all add: io_reader.feed_all.simps io_feed_def split_beta Let_def)

text \<open>
  C31: the read thread and the IO thread that replaced it are interchangeable for data packets and
  resend requests. However the octets of a sequence of such packets are cut on either side, both
  invoke the same callbacks in the same order, and the read thread goes on with an empty buffer.
\<close>

theorem read_thread_equivalent:
  assumes "list_all handled_at_once ps" and "rt_ready t" and "rt_buffer t = []"
    and "list_all rt_chunk chs" and "concat chs = stream_bytes ps"
    and "list_all (\<lambda>ch. ch \<noteq> []) chs'" and "concat chs' = stream_bytes ps"
  shows "fst (read_run all_callbacks t (map Inr chs)) =
      map forget_conn (fst (io_rounds ci (map (\<lambda>ch. [ch]) chs') empty_ReadBuffer)) \<and>
    rt_buffer (snd (read_run all_callbacks t (map Inr chs))) = []"
proof -
  have "list_all packet_ok ps" using assms(1) by (auto simp: list_all_iff handled_at_once_def)
  then have "fst (io_reader.feed_all ci empty_ReadBuffer chs') = map (packet_event ci) ps"
    using io_reader.feed_all_whole [of empty_ReadBuffer chs' ps ci] assms(6,7) by simp
  moreover have "fst (rd_reader.feed_all t chs) = map rd_event_of ps \<and> rt_buffer (snd (rd_reader.feed_all t chs)) = []"
    by (rule rd_reader.feed_all_whole [OF assms(2-4,1,5)])
  moreover have "read_run all_callbacks t (map Inr chs) = rd_reader.feed_all t chs"
    by (rule read_run_feed [OF assms(2,4,1), of "[]"]) (use assms(3,5) in simp)
  ultimately show ?thesis by (simp add: io_rounds_feed forget_packet_event)
qed

definition example_reader :: read_thread where
  "example_reader = \<lparr>rt_running = True, rt_connection = TcpConnection_init 4, rt_buffer = []\<rparr>"

theorem read_thread_equivalent_witness:
  "fst (read_run all_callbacks example_reader [Inr [0, 5, 0, 0, 0, 0, 0], Inr [0, 0, 2, 0, 7, 9, 1, 8, 0, 0, 0, 0, 0, 0, 0, 4, 0, 0, 0, 0, 0, 0, 0]]) =
   [RdData 5 [7, 9], RdResendRequest 4]"
proof -
  let ?ps = "[PData 5 [7, 9], PResendRequest 8 4]"
  let ?chs = "[[0, 5, 0, 0, 0, 0, 0], [0, 0, 2, 0, 7, 9, 1, 8, 0, 0, 0, 0, 0, 0, 0, 4, 0, 0, 0, 0, 0, 0, 0]] :: bytes list"
  have s: "stream_bytes ?ps = concat ?chs" by code_simp
  have ok: "list_all handled_at_once ?ps" by (simp add: handled_at_once_def layout_simps)
  have ready: "rt_ready example_reader" "rt_buffer example_reader = []" by (simp_all add: rt_ready_def example_reader_def TcpConnection_init_def)
  have "list_all packet_ok ?ps" using ok by (simp add: handled_at_once_def)
  then have "fst (io_rounds 0 (map (\<lambda>ch. [ch]) ?chs) empty_ReadBuffer) = map (packet_event 0) ?ps"
    unfolding io_rounds_feed by (intro io_reader.feed_all_whole [THEN conjunct1]) (use s in simp_all)
  with read_thread_equivalent [OF ok ready, of ?chs ?chs 0] s show ?thesis by (simp add: rt_chunk_def)
qed

section \<open>Missing-notify packets\<close>

text \<open>
  The two differ on missing-notify packets: the read thread waits for the size of the largest one, 522
  octets, whatever the packet's own count says. A notify that ends a stream is not handled, while the
  IO thread handles it at once.
\<close>

theorem notify_held_back:
  assumes "length ids < VC_MAX_MISSING_IDS_PER_NOTIFY"
  shows "process_loop cb (VCMissingNotify_bytes ids) = ([], None, VCMissingNotify_bytes ids)"
  using assms by (simp add: process_loop.simps read_defs layout_simps)

theorem notify_held_back_witness:
  "process_loop all_callbacks (VCMissingNotify_bytes [7]) = ([], None, VCMissingNotify_bytes [7])"
  using notify_held_back [of "[7]" all_callbacks] by (simp add: layout_simps)

end
