(* ===== verification/Socket_Ops.thy ===== *)
theory Socket_Ops
  imports Vc_Socket "HOL-Library.Word"
begin

text \<open>
  The part of \<^verbatim>\<open>src/src/common/Socket.cpp\<close> that decides about blocking mode, polling and connecting,
  for the three platforms it is written for. System calls are inputs: what they answered is an
  argument, what is passed to them is part of the result. An \<^verbatim>\<open>int\<close> that is used as a bit set is a
  32-bit word.
\<close>

unbundle bit_operations_syntax

datatype platform = Windows | Apple | Posix

section \<open>Creating a socket, blocking mode\<close>

definition SocketCreate :: "int \<Rightarrow> int" where
  "SocketCreate answer = (if answer < 0 then -1 else answer)"

definition O_NONBLOCK :: u32 where "O_NONBLOCK = 2048"

text \<open>
  The argument is the answer of \<^verbatim>\<open>F_GETFL\<close> and what \<^verbatim>\<open>F_SETFL\<close> would return; the second result are the
  flags that \<^verbatim>\<open>F_SETFL\<close> is called with, if it is called.
\<close>

definition SetSocketNonBlocking :: "u32 option \<Rightarrow> int \<Rightarrow> int \<times> u32 option" where
  "SetSocketNonBlocking getfl setfl =
     (case getfl of None \<Rightarrow> (-1, None) | Some flags \<Rightarrow> (setfl, Some (flags OR O_NONBLOCK)))"

definition SetSocketBlocking :: "u32 option \<Rightarrow> int \<Rightarrow> int \<times> u32 option" where
  "SetSocketBlocking getfl setfl =
     (case getfl of None \<Rightarrow> (-1, None) | Some flags \<Rightarrow> (setfl, Some (flags AND NOT O_NONBLOCK)))"

definition IsSocketNonBlocking :: "u32 option \<Rightarrow> bool" where
  "IsSocketNonBlocking getfl = (case getfl of None \<Rightarrow> False | Some flags \<Rightarrow> flags AND O_NONBLOCK \<noteq> 0)"

text \<open>Setting a mode is seen by the query, is undone by the other setter, and leaves the other flags alone.\<close>

lemma blocking_mode:
  "\<exists>flags. snd (SetSocketNonBlocking (Some f) r) = Some flags \<and> IsSocketNonBlocking (Some flags) \<and> flags AND NOT O_NONBLOCK = f AND NOT O_NONBLOCK"
  "\<exists>flags. snd (SetSocketBlocking (Some f) r) = Some flags \<and> \<not> IsSocketNonBlocking (Some flags) \<and> flags AND NOT O_NONBLOCK = f AND NOT O_NONBLOCK"
proof -
  have "(f OR O_NONBLOCK) AND O_NONBLOCK = O_NONBLOCK" by (simp add: bit.conj_disj_distrib2)
  then show "\<exists>flags. snd (SetSocketNonBlocking (Some f) r) = Some flags \<and> IsSocketNonBlocking (Some flags) \<and> flags AND NOT O_NONBLOCK = f AND NOT O_NONBLOCK"
    by (simp add: SetSocketNonBlocking_def IsSocketNonBlocking_def O_NONBLOCK_def bit.conj_disj_distrib2)
  show "\<exists>flags. snd (SetSocketBlocking (Some f) r) = Some flags \<and> \<not> IsSocketNonBlocking (Some flags) \<and> flags AND NOT O_NONBLOCK = f AND NOT O_NONBLOCK"
    by (simp add: SetSocketBlocking_def IsSocketNonBlocking_def and.assoc)
qed

section \<open>Polling\<close>

definition POLLIN :: u32 where "POLLIN = 1"
definition POLLOUT :: u32 where "POLLOUT = 4"
definition POLLERR :: u32 where "POLLERR = 8"

lemmas poll_bits = POLLIN_def POLLOUT_def POLLERR_def

text \<open>
  What the polling call answered: its result, the last error, and for each descriptor whether it was
  reported readable, writable or exceptional (\<^verbatim>\<open>select\<close>), or its \<^verbatim>\<open>revents\<close> (\<^verbatim>\<open>poll\<close>).
\<close>

datatype poll_errno = BadDescriptor | Interrupted | InvalidArgument | OtherError

record ready_sets =
  in_readfds :: bool
  in_writefds :: bool
  in_exceptfds :: bool
  fd_revents :: u32

text \<open>\<^verbatim>\<open>select\<close> only reports descriptors of the sets they were put into.\<close>

definition select_revents :: "u32 \<Rightarrow> ready_sets \<Rightarrow> u32" where
  "select_revents events a =
     (if in_readfds a \<and> events AND POLLIN \<noteq> 0 then POLLIN else 0) OR
     (if in_writefds a \<and> events AND POLLOUT \<noteq> 0 then POLLOUT else 0) OR
     (if in_exceptfds a then POLLERR else 0)"

fun transient :: "platform \<Rightarrow> poll_errno \<Rightarrow> bool" where
  "transient Windows e = (e \<in> {BadDescriptor, Interrupted, InvalidArgument})"
| "transient Apple e = (e \<in> {BadDescriptor, Interrupted})"
| "transient Posix e = False"

definition SocketPoll :: "platform \<Rightarrow> int \<Rightarrow> poll_errno \<Rightarrow> ready_sets \<Rightarrow> u32 \<Rightarrow> u32" where
  "SocketPoll pf result err a events =
     (if result > 0 then (if pf = Posix then fd_revents a else select_revents events a)
      else if result < 0 \<and> transient pf err then 0
      else word_of_int result)"

definition IsSocketReadable :: "platform \<Rightarrow> int \<Rightarrow> poll_errno \<Rightarrow> ready_sets \<Rightarrow> bool" where
  "IsSocketReadable pf result err a \<longleftrightarrow> SocketPoll pf result err a POLLIN AND POLLIN \<noteq> 0"

definition IsSocketWritable :: "platform \<Rightarrow> int \<Rightarrow> poll_errno \<Rightarrow> ready_sets \<Rightarrow> bool" where
  "IsSocketWritable pf result err a \<longleftrightarrow> SocketPoll pf result err a POLLOUT AND POLLOUT \<noteq> 0"

subsection \<open>Many sockets\<close>

record pollfd =
  pf_fd :: int
  pf_events :: u32
  pf_revents :: u32

text \<open>
  \<open>polled\<close> is what the kernel stored into the array (\<^verbatim>\<open>poll\<close>, \<^verbatim>\<open>WSAPoll\<close>), \<open>sets\<close> the answer of \<^verbatim>\<open>select\<close>
  per descriptor. The flag says whether a polling call was made at all.
\<close>

definition SocketPollMany :: "platform \<Rightarrow> int \<Rightarrow> poll_errno \<Rightarrow> (nat \<Rightarrow> ready_sets) \<Rightarrow> pollfd list \<Rightarrow> bool \<times> int \<times> pollfd list" where
  "SocketPollMany pf result err a fds =
     (let valid = filter (\<lambda>p. pf_fd p \<noteq> -1) fds; store = map2 (\<lambda>i p. p\<lparr>pf_revents := fd_revents (a i)\<rparr>) [0..<length fds] fds
      in case pf of
           Windows \<Rightarrow>
             let fds1 = map (\<lambda>p. p\<lparr>pf_revents := 0\<rparr>) fds
             in if valid = [] then (False, 0, fds1)
                else if result = -1 then (True, if transient Windows err then 0 else result, fds1)
                else (True, result, store)
         | Apple \<Rightarrow>
             if valid = [] then (False, 0, fds)
             else let fds1 = (if result > 0
                    then map2 (\<lambda>i p. p\<lparr>pf_revents := (if pf_fd p = -1 then 0 else select_revents (pf_events p) (a i))\<rparr>) [0..<length fds] fds
                    else fds)
                  in (True, if result < 0 \<and> transient Apple err then 0 else result, fds1)
         | Posix \<Rightarrow> (True, result, if result < 0 then fds else store))"

section \<open>Connecting with a timeout\<close>

text \<open>
  \<open>progress\<close>: the error of \<^verbatim>\<open>connect\<close> says that the connection is in progress; \<open>so_error\<close> is the answer of
  \<^verbatim>\<open>getsockopt\<close>, \<open>None\<close> when that fails.
\<close>

definition SocketConnectNonBlocking :: "platform \<Rightarrow> int \<Rightarrow> bool \<Rightarrow> int \<Rightarrow> poll_errno \<Rightarrow> ready_sets \<Rightarrow> int option \<Rightarrow> int" where
  "SocketConnectNonBlocking pf result progress polled err a so_error =
     (if result < 0 \<and> progress then
        (if IsSocketWritable pf polled err a
         then (case so_error of None \<Rightarrow> result | Some optval \<Rightarrow> if optval = 0 then 0 else -1)
         else -1)
      else result)"

section \<open>Socket options\<close>

datatype sock_option = SO_KEEPALIVE bool | KEEPIDLE int | KEEPINTVL int | KEEPCNT int | TCP_NODELAY int | SO_SNDBUF int | SO_RCVBUF int |
  SO_REUSEADDR int | SIO_KEEPALIVE_VALS u32 u32

text \<open>The setters of a single option pass on the answer of the kernel; the second result is the option they set.\<close>

definition SocketSetTcpNoDelay :: "int \<Rightarrow> bool \<Rightarrow> int \<times> sock_option" where
  "SocketSetTcpNoDelay answer noDelay = (answer, TCP_NODELAY (if noDelay then 1 else 0))"

definition SocketSetSendBufferSize :: "int \<Rightarrow> int \<Rightarrow> int \<times> sock_option" where
  "SocketSetSendBufferSize answer sz = (answer, SO_SNDBUF sz)"

definition SocketSetReceiveBufferSize :: "int \<Rightarrow> int \<Rightarrow> int \<times> sock_option" where
  "SocketSetReceiveBufferSize answer sz = (answer, SO_RCVBUF sz)"

definition SocketReuseAddress :: sock_option where
  "SocketReuseAddress = SO_REUSEADDR 1"

text \<open>The POSIX branch; the options are listed in the order in which they are set.\<close>

definition SocketSetKeepAlive :: "bool \<Rightarrow> bool \<Rightarrow> int \<Rightarrow> int \<Rightarrow> int \<Rightarrow> int \<times> sock_option list" where
  "SocketSetKeepAlive fails enable idleSec intervalSec count =
     (if fails then (-1, [SO_KEEPALIVE enable])
      else (0, SO_KEEPALIVE enable #
        (if enable then (if idleSec > 0 then [KEEPIDLE idleSec] else []) @ (if intervalSec > 0 then [KEEPINTVL intervalSec] else []) @
           (if count > 0 then [KEEPCNT count] else []) else [])))"

text \<open>The Windows branch: idle time and interval go in milliseconds, in 32 bits; the number of probes is fixed by the system.\<close>

definition SocketSetKeepAliveWindows :: "bool \<Rightarrow> bool \<Rightarrow> int \<Rightarrow> int \<Rightarrow> int \<times> sock_option list" where
  "SocketSetKeepAliveWindows fails enable idleSec intervalSec =
     (if fails then (-1, [SO_KEEPALIVE enable])
      else (0, SO_KEEPALIVE enable #
        (if enable \<and> idleSec > 0 \<and> intervalSec > 0 then [SIO_KEEPALIVE_VALS (word_of_int idleSec * 1000) (word_of_int intervalSec * 1000)] else [])))"

definition VC_KEEPALIVE_IDLE_SEC :: int where "VC_KEEPALIVE_IDLE_SEC = 15"
definition VC_KEEPALIVE_INTERVAL_SEC :: int where "VC_KEEPALIVE_INTERVAL_SEC = 15"
definition VC_KEEPALIVE_PROBE_COUNT :: int where "VC_KEEPALIVE_PROBE_COUNT = 8"

text \<open>
  After how many seconds of silence the kernel gives a connection up: the last value set for the idle
  time, then the unanswered probes at the last interval set. An option that was not set keeps the
  default of the system.
\<close>

fun dead_after :: "int \<times> int \<times> int \<Rightarrow> sock_option list \<Rightarrow> int" where
  "dead_after (idle, interval, count) [] = idle + interval * count"
| "dead_after (idle, interval, count) (KEEPIDLE x # os) = dead_after (x, interval, count) os"
| "dead_after (idle, interval, count) (KEEPINTVL x # os) = dead_after (idle, x, count) os"
| "dead_after (idle, interval, count) (KEEPCNT x # os) = dead_after (idle, interval, x) os"
| "dead_after t (_ # os) = dead_after t os"

text \<open>With the constants of the channel that is 135 s whatever the defaults are; on Windows they arrive as milliseconds.\<close>

lemma keepalive_time:
  "dead_after defaults (snd (SocketSetKeepAlive False True VC_KEEPALIVE_IDLE_SEC VC_KEEPALIVE_INTERVAL_SEC VC_KEEPALIVE_PROBE_COUNT)) = 135"
  "SocketSetKeepAliveWindows False True VC_KEEPALIVE_IDLE_SEC VC_KEEPALIVE_INTERVAL_SEC = (0, [SO_KEEPALIVE True, SIO_KEEPALIVE_VALS 15000 15000])"
  by (cases defaults; simp add: SocketSetKeepAlive_def VC_KEEPALIVE_IDLE_SEC_def VC_KEEPALIVE_INTERVAL_SEC_def VC_KEEPALIVE_PROBE_COUNT_def)
    (simp add: SocketSetKeepAliveWindows_def VC_KEEPALIVE_IDLE_SEC_def VC_KEEPALIVE_INTERVAL_SEC_def)

definition SocketBytesAvailable :: "int \<Rightarrow> int option \<Rightarrow> int" where
  "SocketBytesAvailable fd answer = (if fd = -1 then -1 else case answer of None \<Rightarrow> -1 | Some n \<Rightarrow> n)"

section \<open>When a socket counts as ready\<close>

lemma select_bits:
  "select_revents events a AND POLLIN \<noteq> 0 \<longleftrightarrow> in_readfds a \<and> events AND POLLIN \<noteq> 0"
  "select_revents events a AND POLLOUT \<noteq> 0 \<longleftrightarrow> in_writefds a \<and> events AND POLLOUT \<noteq> 0"
  by (auto simp: select_revents_def poll_bits bit.conj_disj_distrib2)

text \<open>
  A failed poll counts as ready. On Windows and macOS a socket is reported writable exactly when the
  kernel says so, or when the call failed for a reason that is not transient. With POSIX \<^verbatim>\<open>poll\<close> every
  failure, an interrupted call included, is reported as readable and writable: the result -1 has all
  bits set.
\<close>

theorem poll_failure_counts_as_ready:
  "(IsSocketWritable Posix result err a \<longleftrightarrow> result > 0 \<and> fd_revents a AND POLLOUT \<noteq> 0 \<or> result < 0 \<and> word_of_int result AND POLLOUT \<noteq> 0) \<and>
   IsSocketWritable Posix (-1) Interrupted a \<and> IsSocketReadable Posix (-1) Interrupted a \<and>
   \<not> IsSocketWritable Apple (-1) Interrupted a \<and>
   (IsSocketWritable Apple 1 err a \<longleftrightarrow> in_writefds a)"
proof (intro conjI)
  show "IsSocketWritable Posix result err a \<longleftrightarrow> result > 0 \<and> fd_revents a AND POLLOUT \<noteq> 0 \<or> result < 0 \<and> word_of_int result AND POLLOUT \<noteq> 0"
    by (cases result "0 :: int" rule: linorder_cases) (auto simp: IsSocketWritable_def SocketPoll_def)
  have "POLLOUT \<noteq> 0" by (simp add: poll_bits)
  then show "IsSocketWritable Apple 1 err a \<longleftrightarrow> in_writefds a" by (simp add: IsSocketWritable_def SocketPoll_def select_bits)
qed (simp_all add: IsSocketWritable_def IsSocketReadable_def SocketPoll_def poll_bits)

text \<open>
  Connecting: without an error or with one other than "in progress" the answer of \<^verbatim>\<open>connect\<close> is returned;
  a connection in progress succeeds when the socket counts as writable and no error is pending.
\<close>

theorem connect_outcome:
  "SocketConnectNonBlocking pf result progress polled err a so_error = 0 \<longleftrightarrow>
     result = 0 \<or> (result < 0 \<and> progress \<and> IsSocketWritable pf polled err a \<and> so_error = Some 0)"
  by (auto simp: SocketConnectNonBlocking_def split: option.split)

lemma poll_many_length: "length (snd (snd (SocketPollMany pf result err a fds))) = length fds"
  by (cases pf) (simp_all add: SocketPollMany_def Let_def)

text \<open>Dead slots of the caller's array are never reported ready on Windows and macOS, and without any live slot no call is made.\<close>

lemma poll_many_dead_slots:
  assumes "i < length fds" and "pf_fd (fds ! i) = -1" and "pf_revents (fds ! i) = 0"
  shows "pf_revents (snd (snd (SocketPollMany Apple result err a fds)) ! i) = 0"
  using assms by (simp add: SocketPollMany_def Let_def)

end
