(* ===== verification/Connection_Manager.thy ===== *)
theory Connection_Manager
  imports Vc_Prelude
begin

text \<open>
  The connection registry of \<^verbatim>\<open>src/src/common/Protocol.h\<close> (\<^verbatim>\<open>ConnectionManager\<close>): connections with random
  ids, listed in order of creation and per client. A \<^verbatim>\<open>Connection\<close> object never changes after its
  creation, so a pointer to it is modelled by its value. The numbers that \<^verbatim>\<open>rand()\<close> returns are an
  input; \<open>None\<close> is a call that still looks for an unused id when they end.
\<close>

section \<open>State and operations\<close>

record Connection =
  co_clientId :: u32
  co_connectionId :: u32

record ConnectionManager =
  cm_connections :: "Connection list"
  cm_connectionIds :: "u32 set"
  cm_clientConnections :: "(u32, Connection list) umap"

definition ConnectionManager_init :: ConnectionManager where
  "ConnectionManager_init = \<lparr>cm_connections = [], cm_connectionIds = {}, cm_clientConnections = []\<rparr>"

text \<open>\<^verbatim>\<open>std::map::operator[]\<close> inserts an empty vector for a key that is not there.\<close>

definition client_entry :: "u32 \<Rightarrow> ConnectionManager \<Rightarrow> Connection list" where
  "client_entry clientId m = (case map_of (cm_clientConnections m) clientId of None \<Rightarrow> [] | Some cs \<Rightarrow> cs)"

definition set_client_entry :: "u32 \<Rightarrow> Connection list \<Rightarrow> ConnectionManager \<Rightarrow> ConnectionManager" where
  "set_client_entry clientId cs m = m\<lparr>cm_clientConnections := AList.update clientId cs (cm_clientConnections m)\<rparr>"

fun generateConnectionId :: "nat list \<Rightarrow> ConnectionManager \<Rightarrow> (u32 \<times> ConnectionManager) option" where
  "generateConnectionId [] m = None"
| "generateConnectionId (r # rs) m =
     (let connectionId = word_of_nat (r mod 1000000)
      in if connectionId \<in> cm_connectionIds m then generateConnectionId rs m
         else Some (connectionId, m\<lparr>cm_connectionIds := insert connectionId (cm_connectionIds m)\<rparr>))"

definition createConnection :: "nat list \<Rightarrow> u32 \<Rightarrow> ConnectionManager \<Rightarrow> (Connection \<times> ConnectionManager) option" where
  "createConnection rands clientId m =
     (case generateConnectionId rands m of
        None \<Rightarrow> None
      | Some (cid, m1) \<Rightarrow>
          let c = \<lparr>co_clientId = clientId, co_connectionId = cid\<rparr>;
              m2 = m1\<lparr>cm_connections := cm_connections m1 @ [c]\<rparr>
          in Some (c, set_client_entry clientId (client_entry clientId m2 @ [c]) m2))"

text \<open>Erasing the first element with the given id.\<close>

fun erase_conn :: "u32 \<Rightarrow> Connection list \<Rightarrow> Connection list" where
  "erase_conn cid [] = []"
| "erase_conn cid (c # cs) = (if co_connectionId c = cid then cs else c # erase_conn cid cs)"

definition removeConnection :: "u32 \<Rightarrow> ConnectionManager \<Rightarrow> bool \<times> ConnectionManager" where
  "removeConnection cid m =
     (case find (\<lambda>c. co_connectionId c = cid) (cm_connections m) of
        None \<Rightarrow> (False, m)
      | Some c \<Rightarrow>
          let clientId = co_clientId c; clientConns = erase_conn cid (client_entry clientId m);
              m1 = (if clientConns = [] then m\<lparr>cm_clientConnections := AList.delete clientId (cm_clientConnections m)\<rparr>
                    else set_client_entry clientId clientConns m)
          in (True, m1\<lparr>cm_connections := erase_conn cid (cm_connections m1), cm_connectionIds := cm_connectionIds m1 - {cid}\<rparr>))"

text \<open>Both queries insert an empty entry for an unknown client.\<close>

definition getClientConnections :: "u32 \<Rightarrow> ConnectionManager \<Rightarrow> Connection list \<times> ConnectionManager" where
  "getClientConnections clientId m = (client_entry clientId m, set_client_entry clientId (client_entry clientId m) m)"

definition getClientConnectionCount :: "u32 \<Rightarrow> ConnectionManager \<Rightarrow> nat \<times> ConnectionManager" where
  "getClientConnectionCount clientId m = (length (client_entry clientId m), set_client_entry clientId (client_entry clientId m) m)"

definition removeAllConnections :: "ConnectionManager \<Rightarrow> ConnectionManager" where
  "removeAllConnections m = m\<lparr>cm_connections := [], cm_connectionIds := {}, cm_clientConnections := []\<rparr>"

section \<open>Invariant\<close>

text \<open>
  Ids are distinct, below a million and exactly those recorded; each client's list is the
  sub-list of its connections, in order of creation.
\<close>

definition cm_inv :: "ConnectionManager \<Rightarrow> bool" where
  "cm_inv m \<longleftrightarrow> distinct (map co_connectionId (cm_connections m)) \<and> set (map co_connectionId (cm_connections m)) = cm_connectionIds m \<and>
     (\<forall>k. client_entry k m = filter (\<lambda>c. co_clientId c = k) (cm_connections m))"

lemma client_entry_set [simp]: "client_entry k (set_client_entry k' cs m) = (if k = k' then cs else client_entry k m)"
  by (simp add: client_entry_def set_client_entry_def)

lemma set_client_entry_rest [simp]:
  "cm_connections (set_client_entry k cs m) = cm_connections m" "cm_connectionIds (set_client_entry k cs m) = cm_connectionIds m"
  by (simp_all add: set_client_entry_def)

lemma client_entry_upd [simp]:
  "client_entry k (m\<lparr>cm_connections := cs\<rparr>) = client_entry k m"
  "client_entry k (m\<lparr>cm_connectionIds := ids\<rparr>) = client_entry k m"
  "client_entry k (m\<lparr>cm_connections := cs, cm_connectionIds := ids\<rparr>) = client_entry k m"
  by (simp_all add: client_entry_def)

lemma generate_unused:
  "generateConnectionId rs m = Some (cid, m1) \<Longrightarrow> cid \<notin> cm_connectionIds m \<and> m1 = m\<lparr>cm_connectionIds := insert cid (cm_connectionIds m)\<rparr>"
  by (induction rs) (auto simp: Let_def split: if_splits)

lemma cm_inv_create [inv_intros]:
  assumes "cm_inv m" and "createConnection rs k m = Some (c, m')"
  shows "cm_inv m'"
proof -
  obtain cid m1 where g: "generateConnectionId rs m = Some (cid, m1)" and c: "c = \<lparr>co_clientId = k, co_connectionId = cid\<rparr>"
    and m': "m' = set_client_entry k (client_entry k m1 @ [c]) (m1\<lparr>cm_connections := cm_connections m1 @ [c]\<rparr>)"
    using assms(2) by (auto simp: createConnection_def Let_def split: option.splits)
  from generate_unused [OF g] assms(1) show ?thesis by (auto simp: cm_inv_def m' c)
qed

lemma erase_conn_filter:
  "distinct (map co_connectionId cs) \<Longrightarrow> erase_conn cid cs = filter (\<lambda>c. co_connectionId c \<noteq> cid) cs"
  by (induction cs) (auto simp: image_iff intro!: filter_True [symmetric])

lemma erase_conn_filtered:
  "distinct (map co_connectionId cs) \<Longrightarrow> erase_conn cid (filter P cs) = filter P (erase_conn cid cs)"
proof -
  assume d: "distinct (map co_connectionId cs)"
  then have "distinct (map co_connectionId (filter P cs))" by (simp add: distinct_map_filter)
  with d show ?thesis by (simp add: erase_conn_filter conj_commute)
qed

lemma remove_effect:
  assumes "cm_inv m" and "cid \<in> cm_connectionIds m"
  obtains m' where "removeConnection cid m = (True, m')" and "cm_connections m' = filter (\<lambda>c. co_connectionId c \<noteq> cid) (cm_connections m)"
    and "cm_connectionIds m' = cm_connectionIds m - {cid}"
    and "\<And>k. client_entry k m' = filter (\<lambda>c. co_clientId c = k) (cm_connections m')"
proof -
  have d: "distinct (map co_connectionId (cm_connections m))" and ids: "set (map co_connectionId (cm_connections m)) = cm_connectionIds m"
    and entry: "\<And>k. client_entry k m = filter (\<lambda>c. co_clientId c = k) (cm_connections m)"
    using assms(1) by (auto simp: cm_inv_def)
  obtain c where c: "find (\<lambda>c. co_connectionId c = cid) (cm_connections m) = Some c"
    using assms(2) ids by (cases "find (\<lambda>c. co_connectionId c = cid) (cm_connections m)") (force simp: find_None_iff)+
  then have cin: "c \<in> set (cm_connections m)" "co_connectionId c = cid" by (auto simp: find_Some_iff)
  define own where "own = erase_conn cid (client_entry (co_clientId c) m)"
  define m1 where "m1 = (if own = [] then m\<lparr>cm_clientConnections := AList.delete (co_clientId c) (cm_clientConnections m)\<rparr>
    else set_client_entry (co_clientId c) own m)"
  define m' where "m' = m1\<lparr>cm_connections := erase_conn cid (cm_connections m1), cm_connectionIds := cm_connectionIds m1 - {cid}\<rparr>"
  have m1: "cm_connections m1 = cm_connections m" "cm_connectionIds m1 = cm_connectionIds m" by (simp_all add: m1_def)
  have entry1: "client_entry k m1 = (if k = co_clientId c then own else client_entry k m)" for k
    by (simp add: m1_def) (simp add: client_entry_def)
  have own: "own = filter (\<lambda>x. co_clientId x = co_clientId c) (erase_conn cid (cm_connections m))"
    by (simp add: own_def entry erase_conn_filtered [OF d])
  have other: "filter (\<lambda>x. co_clientId x = k) (erase_conn cid (cm_connections m)) = filter (\<lambda>x. co_clientId x = k) (cm_connections m)"
    if "k \<noteq> co_clientId c" for k
  proof -
    have same: "x = c" if "x \<in> set (cm_connections m)" "co_connectionId x = cid" for x
      using d cin that by (auto simp: distinct_map inj_on_def)
    show ?thesis using that by (simp add: erase_conn_filter [OF d]) (rule filter_cong, use same in auto)
  qed
  have "removeConnection cid m = (True, m')" using c by (simp add: removeConnection_def m'_def m1_def own_def Let_def)
  moreover have "client_entry k m' = filter (\<lambda>c. co_clientId c = k) (cm_connections m')" for k
    using own other [of k] entry by (simp add: m'_def m1 entry1)
  ultimately show ?thesis using that [of m'] d by (simp add: m'_def m1 erase_conn_filter)
qed

lemma remove_unknown: "cm_inv m \<Longrightarrow> cid \<notin> cm_connectionIds m \<Longrightarrow> removeConnection cid m = (False, m)"
  by (auto simp: removeConnection_def cm_inv_def find_None_iff split: option.split dest!: find_Some_iff [THEN iffD1])

lemma cm_inv_remove [inv_intros]: "cm_inv m \<Longrightarrow> cm_inv (snd (removeConnection cid m))"
proof (cases "cid \<in> cm_connectionIds m")
  case True
  assume inv: "cm_inv m"
  from remove_effect [OF inv True] obtain m' where m': "removeConnection cid m = (True, m')"
    "cm_connections m' = filter (\<lambda>c. co_connectionId c \<noteq> cid) (cm_connections m)" "cm_connectionIds m' = cm_connectionIds m - {cid}"
    "\<And>k. client_entry k m' = filter (\<lambda>c. co_clientId c = k) (cm_connections m')" by metis
  have "co_connectionId ` set (cm_connections m') = cm_connectionIds m'" using inv by (auto simp: cm_inv_def m'(2,3))
  then show ?thesis using inv m' by (simp add: cm_inv_def distinct_map_filter)
qed (simp add: remove_unknown)

lemma cm_inv_rest [inv_intros]:
  "cm_inv ConnectionManager_init" "cm_inv (removeAllConnections m)"
  "cm_inv m \<Longrightarrow> cm_inv (snd (getClientConnections k m))" "cm_inv m \<Longrightarrow> cm_inv (snd (getClientConnectionCount k m))"
  by (auto simp: cm_inv_def ConnectionManager_init_def removeAllConnections_def client_entry_def [of _ "\<lparr>cm_connections = _, cm_connectionIds = _, cm_clientConnections = _\<rparr>"]
      client_entry_def [of _ "m\<lparr>cm_connections := _, cm_connectionIds := _, cm_clientConnections := _\<rparr>"] getClientConnections_def getClientConnectionCount_def)

section \<open>Creating and removing\<close>

text \<open>
  A connection that was created has an unused id and is listed last, in the registry and for its
  client; removing it restores the registry. Creation succeeds as soon as \<^verbatim>\<open>rand()\<close> yields an id that is
  not in use, and not before.
\<close>

theorem connection_registry_roundtrip:
  assumes "cm_inv m" and "createConnection rs k m = Some (c, m')"
  shows "cm_inv m' \<and> co_clientId c = k \<and> co_connectionId c \<notin> cm_connectionIds m \<and> cm_connections m' = cm_connections m @ [c] \<and>
     (\<exists>m''. removeConnection (co_connectionId c) m' = (True, m'') \<and> cm_connections m'' = cm_connections m \<and>
        cm_connectionIds m'' = cm_connectionIds m \<and> (\<forall>k'. client_entry k' m'' = client_entry k' m))"
proof -
  obtain cid m1 where g: "generateConnectionId rs m = Some (cid, m1)" and c: "c = \<lparr>co_clientId = k, co_connectionId = cid\<rparr>"
    and m': "m' = set_client_entry k (client_entry k m1 @ [c]) (m1\<lparr>cm_connections := cm_connections m1 @ [c]\<rparr>)"
    using assms(2) by (auto simp: createConnection_def Let_def split: option.splits)
  note new = generate_unused [OF g]
  have inv': "cm_inv m'" by (rule cm_inv_create [OF assms])
  have ids: "cm_connections m' = cm_connections m @ [c]" "cm_connectionIds m' = insert cid (cm_connectionIds m)" using new by (simp_all add: m')
  have old: "filter (\<lambda>c. co_connectionId c \<noteq> cid) (cm_connections m) = cm_connections m"
    using assms(1) new by (auto simp: cm_inv_def intro!: filter_True)
  have "cid \<in> cm_connectionIds m'" by (simp add: ids)
  then obtain m'' where "removeConnection cid m' = (True, m'')" "cm_connections m'' = cm_connections m"
    "cm_connectionIds m'' = cm_connectionIds m' - {cid}" "\<And>k. client_entry k m'' = filter (\<lambda>c. co_clientId c = k) (cm_connections m'')"
    by (rule remove_effect [OF inv']) (simp add: ids old c)
  then show ?thesis using inv' ids new assms(1) by (auto simp: c cm_inv_def)
qed

theorem connection_registry_roundtrip_witness:
  "\<exists>c m'. createConnection [1000005] 7 ConnectionManager_init = Some (c, m') \<and> co_connectionId c = 5 \<and> cm_inv m'"
proof -
  obtain c m' where c: "createConnection [1000005] 7 ConnectionManager_init = Some (c, m')" "co_connectionId c = 5"
    by (simp add: createConnection_def ConnectionManager_init_def Let_def)
  from connection_registry_roundtrip [OF cm_inv_rest(1) c(1)] c show ?thesis by blast
qed

theorem creation_needs_unused_id:
  "createConnection rs k m = None \<longleftrightarrow> (\<forall>r \<in> set rs. word_of_nat (r mod 1000000) \<in> cm_connectionIds m)"
proof -
  have "generateConnectionId rs m = None \<longleftrightarrow> (\<forall>r \<in> set rs. word_of_nat (r mod 1000000) \<in> cm_connectionIds m)"
    by (induction rs) (auto simp: Let_def)
  then show ?thesis by (auto simp: createConnection_def Let_def split: option.split)
qed

end
