(* ===== verification/Send_Wait.thy ===== *)
theory Send_Wait
  imports Send_Framing Channel_Props
begin

text \<open>
  The two waits of the send thread (\<^verbatim>\<open>TcpVCSendThread::run\<close>): the idle wait when there is no packet to
  send, and the wait with a packet that no connection took; how they are woken, and how the thread is
  told to stop.
\<close>

section \<open>Wake-up predicates\<close>

definition IDLE_WAIT_MS :: int where "IDLE_WAIT_MS = 100"

definition st_isRunning :: "chan \<Rightarrow> bool" where
  "st_isRunning c = (case sendThread c of None \<Rightarrow> False | Some t \<Rightarrow> th_running (st_thr t))"

text \<open>The predicate of the idle wait; \<open>resendDrainable\<close> is \<^verbatim>\<open>anyResendAlive\<close> of the same pass.\<close>

definition idle_wake :: "bool \<Rightarrow> chan \<Rightarrow> bool" where
  "idle_wake resendDrainable c \<longleftrightarrow> \<not> st_isRunning c \<or> bq_approxSize (sendQueue c) > 0 \<or>
     (resendDrainable \<and> bq_approxSize (resendQueue c) > 0)"

text \<open>The predicate of the wait with a retained packet, over the current connections.\<close>

definition retain_wake :: "nat \<Rightarrow> chan \<Rightarrow> bool" where
  "retain_wake numDataConns c \<longleftrightarrow> \<not> st_isRunning c \<or>
     (case sendThread c of None \<Rightarrow> False | Some t \<Rightarrow> list_ex (\<lambda>i. alive (heap c) (st_connections t ! i)) [0..<numDataConns])"

text \<open>The override of \<^verbatim>\<open>setRunning\<close>; the result says whether both waits are notified.\<close>

definition st_setRunning :: "bool \<Rightarrow> chan \<Rightarrow> bool \<times> chan" where
  "st_setRunning r c = (\<not> r, upd_st (\<lambda>t. t\<lparr>st_thr := setRunning r (st_thr t)\<rparr>) c)"

text \<open>The destructor takes the thread's notifier out of both queues.\<close>

definition TcpVCSendThread_destroy :: "chan \<Rightarrow> chan" where
  "TcpVCSendThread_destroy c =
     c\<lparr>sendQueue := bq_setEnqueueNotifier False (sendQueue c), resendQueue := bq_setEnqueueNotifier False (resendQueue c)\<rparr>"

lemma stop_wakes: "fst (st_setRunning False c) \<and> idle_wake b (snd (st_setRunning False c)) \<and> retain_wake n (snd (st_setRunning False c))"
  by (simp add: st_setRunning_def upd_st_def idle_wake_def retain_wake_def st_isRunning_def setRunning_def split: option.split)

section \<open>No packet is slept over\<close>

lemma tryDequeue_none: "bq_tryDequeue q = (None, q') \<Longrightarrow> q' = q \<and> (bq_queue q = [] \<or> bq_cancelled q)"
  by (auto simp: bq_tryDequeue_def split: if_splits)

lemma idle_queue_empty:
  assumes "send_iteration e c = Some (Inr (IdleWait, c'))"
  shows "bq_queue (sendQueue c') = [] \<or> bq_cancelled (sendQueue c')"
proof -
  obtain t0 c1 t where t0: "sendThread c = Some t0" "th_running (st_thr t0)" and c1: "drain_resends e c = Some c1" "sendThread c1 = Some t"
    using assms by (auto simp: send_iteration_def split: option.splits if_splits)
  show ?thesis
  proof (cases "st_pending t")
    case (Some d)
    then show ?thesis using assms t0 c1
      by (auto simp: send_iteration_def send_data_packet_def Let_def split: option.splits if_splits sum.splits)
  next
    case None
    obtain r q where rq: "bq_tryDequeue (sendQueue c1) = (r, q)" by fastforce
    show ?thesis
    proof (cases r)
      case (Some d)
      then show ?thesis using assms t0 c1 rq None
        by (auto simp: send_iteration_def send_data_packet_def Let_def split: option.splits if_splits sum.splits)
    next
      case none: None
      then have "c' = c1\<lparr>sendQueue := q\<rparr>" using assms t0 c1 rq None by (auto simp: send_iteration_def)
      then show ?thesis using tryDequeue_none [of "sendQueue c1" q] rq none by simp
    qed
  qed
qed

text \<open>
  C25: the send thread never sleeps over a packet. When a pass ends in the idle wait the send queue was
  empty (or cancelled), and any payload that the channel accepts from then on makes the wake-up
  predicate true, with the registered notifier being called.
\<close>

theorem idle_wait_wakes:
  assumes "send_iteration e c = Some (Inr (IdleWait, c1))" and "bq_notifies (sendQueue c1)" and "cache_ok (sentDataCache c1)" and "sendable d c1"
  shows "(bq_queue (sendQueue c1) = [] \<or> bq_cancelled (sendQueue c1)) \<and>
     (\<exists>c2. vc_send (Some d) c1 = Inr c2 \<and> idle_wake b c2 \<and> bq_notifies (sendQueue c2))"
proof -
  obtain c2 sc where c2: "vc_send (Some d) c1 = Inr c2" "c2 = c1\<lparr>lastSendMessageId := lastSendMessageId c1 + 1, sentDataCache := sc,
      sendQueue := bq_enqueue (VCDataPacket_bytes (lastSendMessageId c1) d) (sendQueue c1)\<rparr>"
    by (rule vc_send_accept [OF assms(4,3)])
  have "unat (approxQueueSize (sendQueue c1)) \<le> 1000"
    using assms(4) by (simp add: sendable_def bq_approxSize_def SEND_QUEUE_DROP_THRESHOLD_def)
  then have "0 < approxQueueSize (sendQueue c1) + 1" by (simp add: word_less_nat_alt unat_word_ariths)
  then have "idle_wake b c2" by (simp add: idle_wake_def c2(2) bq_approxSize_def bq_enqueue_def)
  moreover have "bq_notifies (sendQueue c2)" using assms(2) by (simp add: c2(2) bq_notifies_def bq_enqueue_def)
  ultimately show ?thesis using idle_queue_empty [OF assms(1)] c2(1) by blast
qed

text \<open>An open channel whose queues are empty.\<close>

definition quiet_chan :: chan where
  "quiet_chan = example_chan\<lparr>sendQueue := bq_setEnqueueNotifier True BlockingQueue_init,
     sendThread := Some ((TcpVCSendThread_init [] 0)\<lparr>st_thr := \<lparr>th_running = True, th_joinable = True\<rparr>\<rparr>)\<rparr>"

theorem idle_wait_wakes_witness:
  "\<exists>c1 c2. send_iteration easy_env quiet_chan = Some (Inr (IdleWait, c1)) \<and> vc_send (Some [65]) c1 = Inr c2 \<and> idle_wake True c2"
proof -
  have thr: "sendThread quiet_chan = Some ((TcpVCSendThread_init [] 0)\<lparr>st_thr := \<lparr>th_running = True, th_joinable = True\<rparr>\<rparr>)"
    and q: "sendQueue quiet_chan = bq_setEnqueueNotifier True BlockingQueue_init" and cache: "sentDataCache quiet_chan = sentDataCache example_chan"
    and op: "opened quiet_chan = opened example_chan"
    by (simp_all add: quiet_chan_def)
  have drain: "drain_resends easy_env quiet_chan = Some quiet_chan"
    by (simp add: drain_resends_def thr any_resend_alive_def TcpVCSendThread_init_def upd_st_def)
  have "bq_tryDequeue (sendQueue quiet_chan) = (None, sendQueue quiet_chan)" by (simp add: q bq_defs)
  then have "send_iteration easy_env quiet_chan = Some (Inr (IdleWait, quiet_chan))"
    by (simp add: send_iteration_def thr drain TcpVCSendThread_init_def)
  moreover have "sendable [65] quiet_chan"
    by (simp add: sendable_def op q bq_defs VC_MAX_DATA_PAYLOAD_SIZE_def SEND_QUEUE_DROP_THRESHOLD_def)
  moreover have "cache_ok (sentDataCache quiet_chan)" "bq_notifies (sendQueue quiet_chan)"
    by (simp_all add: cache q bq_notifies_def bq_setEnqueueNotifier_def)
  ultimately show ?thesis using idle_wait_wakes [of easy_env quiet_chan quiet_chan "[65]" True] by blast
qed

end
