(* ===== verification/Double_Rounding.thy ===== *)
theory Double_Rounding
  imports Vc_Prelude "HOL-Library.Log_Nat"
begin

text \<open>
  Arithmetic on \<^verbatim>\<open>double\<close>: the exact result of an operation, rounded to 53 significant bits, ties to even
  (IEEE 754). Exponents are unbounded: the program's values lie between \<open>2 ^ -60\<close> and \<open>2 ^ 80\<close> or are
  zero, far from overflow and from subnormal numbers. What the score computation relies on is stated as a
  locale and proved for this rounding.
\<close>

section \<open>Interface\<close>

locale rounding =
  fixes fl :: "rat \<Rightarrow> rat"
  assumes fl_mono: "x \<le> y \<Longrightarrow> fl x \<le> fl y"
    and fl_int: "\<bar>n\<bar> < 2 ^ 53 \<Longrightarrow> fl (of_int n) = of_int n"
    and fl_error: "\<bar>fl x - x\<bar> \<le> \<bar>x\<bar> / 2 ^ 53"
begin

lemma fl_between:
  assumes "of_int a \<le> x" and "x \<le> of_int b" and "\<bar>a\<bar> < 2 ^ 53" and "\<bar>b\<bar> < 2 ^ 53"
  shows "of_int a \<le> fl x \<and> fl x \<le> of_int b"
  using fl_mono [OF assms(1)] fl_mono [OF assms(2)] fl_int [OF assms(3)] fl_int [OF assms(4)] by simp

lemma fl_unit: "0 \<le> x \<Longrightarrow> x \<le> 1 \<Longrightarrow> 0 \<le> fl x \<and> fl x \<le> 1"
  using fl_between [of 0 x 1] by simp

lemma fl_nonneg: "0 \<le> x \<Longrightarrow> 0 \<le> fl x"
  using fl_mono [of 0 x] fl_int [of 0] by simp

text \<open>A weak bound that survives several operations.\<close>

lemma fl_le: "0 \<le> x \<Longrightarrow> x \<le> b \<Longrightarrow> fl x \<le> b + b / 2 ^ 53"
proof -
  assume x: "0 \<le> x" "x \<le> b"
  have "fl x - x \<le> \<bar>x\<bar> / 2 ^ 53" using fl_error [of x] by (rule order_trans [OF abs_ge_self])
  then have "fl x \<le> x + x / 2 ^ 53" using x(1) by simp
  also have "\<dots> \<le> b + b / 2 ^ 53" using x(2) by (simp add: add_mono divide_right_mono)
  finally show ?thesis .
qed

end

section \<open>Rounding to an integer\<close>

text \<open>Round half to even.\<close>

definition rne :: "rat \<Rightarrow> int" where
  "rne x =
     (let f = \<lfloor>x\<rfloor>; r = x - of_int f
      in if r < 1 / 2 then f else if r > 1 / 2 then f + 1 else if even f then f else f + 1)"

lemma rne_range: "rne x \<in> {\<lfloor>x\<rfloor>, \<lfloor>x\<rfloor> + 1}"
  by (simp add: rne_def Let_def)

lemma rne_int [simp]: "rne (of_int n) = n"
  by (simp add: rne_def)

lemma rne_mono: "x \<le> y \<Longrightarrow> rne x \<le> rne y"
proof -
  assume le: "x \<le> y"
  then have "\<lfloor>x\<rfloor> \<le> \<lfloor>y\<rfloor>" by (rule floor_mono)
  then consider (less) "\<lfloor>x\<rfloor> + 1 \<le> \<lfloor>y\<rfloor>" | (same) "\<lfloor>x\<rfloor> = \<lfloor>y\<rfloor>" by linarith
  then show ?thesis
  proof cases
    case less
    then show ?thesis using rne_range [of x] rne_range [of y] by auto
  next
    case same
    then show ?thesis using le by (simp add: rne_def Let_def)
  qed
qed

lemma rne_error: "\<bar>of_int (rne x) - x\<bar> \<le> 1 / 2"
proof -
  have "of_int \<lfloor>x\<rfloor> \<le> x" "x < of_int \<lfloor>x\<rfloor> + 1" by linarith+
  then show ?thesis by (simp add: rne_def Let_def abs_le_iff)
qed

section \<open>The binary exponent\<close>

definition ilog2 :: "rat \<Rightarrow> int" where
  "ilog2 x =
     (let (p, q) = quotient_of x; d = int (floorlog 2 (nat p)) - int (floorlog 2 (nat q))
      in if x < 2 powi d then d - 1 else d)"

lemma powi_nat: "(2 :: rat) powi (int n) = of_int (2 ^ n)"
  by (simp add: power_int_of_nat)

lemma powi_shift: "(2 :: rat) powi (k + int n) = of_int (2 ^ n) * 2 powi k"
  by (simp add: power_int_add)

lemma floorlog_powi:
  assumes "0 < n"
  shows "2 powi (int (floorlog 2 (nat n)) - 1) \<le> (of_int n :: rat)" and "(of_int n :: rat) < 2 powi (int (floorlog 2 (nat n)))"
proof -
  let ?a = "floorlog 2 (nat n)"
  have "2 ^ (?a - 1) \<le> nat n" "nat n < 2 ^ ?a" using floorlog_bounds [of "nat n" 2] assms by auto
  then have a: "2 ^ (?a - 1) \<le> n" "n < 2 ^ ?a" using assms by (simp_all add: le_nat_iff nat_less_iff)
  have "0 < ?a" using assms by (simp add: floorlog_def)
  then have i: "int ?a - 1 = int (?a - 1)" by simp
  have e: "(2 :: rat) powi (int ?a - 1) = of_int (2 ^ (?a - 1))" "(2 :: rat) powi (int ?a) = of_int (2 ^ ?a)" unfolding i powi_nat by simp_all
  show "2 powi (int ?a - 1) \<le> (of_int n :: rat)" unfolding e of_int_le_iff by (rule a(1))
  show "(of_int n :: rat) < 2 powi (int ?a)" unfolding e of_int_less_iff by (rule a(2))
qed

lemma ilog2_bounds:
  assumes "0 < x"
  shows "2 powi (ilog2 x) \<le> x" and "x < 2 powi (ilog2 x + 1)"
proof -
  obtain p q where pq: "quotient_of x = (p, q)" by fastforce
  have x: "x = of_int p / of_int q" and q: "0 < q" using quotient_of_div [OF pq] quotient_of_denom_pos [OF pq] by simp_all
  with assms have p: "0 < p" by (simp add: zero_less_divide_iff)
  let ?a = "floorlog 2 (nat p)" and ?b = "floorlog 2 (nat q)"
  note P = floorlog_powi [OF p] and Q = floorlog_powi [OF q]
  let ?d = "int ?a - int ?b"
  have q': "0 < (of_int q :: rat)" using q by simp
  have "2 powi (?d - 1) * of_int q \<le> (2 :: rat) powi (?d - 1) * 2 powi (int ?b)" using Q(2) by (intro mult_left_mono) simp_all
  also have "\<dots> = 2 powi (?d - 1 + int ?b)" by (rule power_int_add [symmetric]) simp
  also have "?d - 1 + int ?b = int ?a - 1" by simp
  also have "2 powi (int ?a - 1) \<le> (of_int p :: rat)" by (rule P(1))
  finally have lower: "2 powi (?d - 1) \<le> x" using q' by (simp add: x pos_le_divide_eq)
  have "of_int p < (2 :: rat) powi (int ?a)" by (rule P(2))
  also have "int ?a = ?d + 1 + (int ?b - 1)" by simp
  also have "(2 :: rat) powi (?d + 1 + (int ?b - 1)) = 2 powi (?d + 1) * 2 powi (int ?b - 1)" by (rule power_int_add) simp
  also have "\<dots> \<le> 2 powi (?d + 1) * of_int q" using Q(1) by (intro mult_left_mono) simp_all
  finally have upper: "x < 2 powi (?d + 1)" using q' by (simp add: x pos_divide_less_eq)
  show "2 powi (ilog2 x) \<le> x" "x < 2 powi (ilog2 x + 1)" using lower upper by (simp_all add: ilog2_def pq Let_def)
qed

lemma ilog2_mono:
  assumes "0 < x" and "x \<le> y"
  shows "ilog2 x \<le> ilog2 y"
proof (rule ccontr)
  assume "\<not> ilog2 x \<le> ilog2 y"
  then have "(2 :: rat) powi (ilog2 y + 1) \<le> 2 powi (ilog2 x)" by (intro power_int_increasing) simp_all
  also have "\<dots> \<le> x" by (rule ilog2_bounds [OF assms(1)])
  finally show False using assms ilog2_bounds(2) [of y] by simp
qed

section \<open>Rounding to 53 bits\<close>

definition round_pos :: "rat \<Rightarrow> rat" where
  "round_pos x = (let k = ilog2 x - 52 in of_int (rne (x / 2 powi k)) * 2 powi k)"

definition double_round :: "rat \<Rightarrow> rat" where
  "double_round x = (if x = 0 then 0 else if x > 0 then round_pos x else - round_pos (- x))"

lemma mantissa_bounds:
  assumes "0 < x"
  shows "2 ^ 52 \<le> rne (x / 2 powi (ilog2 x - 52))" and "rne (x / 2 powi (ilog2 x - 52)) \<le> 2 ^ 53"
proof -
  let ?k = "ilog2 x - 52"
  have pos: "0 < (2 :: rat) powi ?k" by simp
  have "(2 :: rat) powi (ilog2 x) = of_int (2 ^ 52) * 2 powi ?k" "(2 :: rat) powi (ilog2 x + 1) = of_int (2 ^ 53) * 2 powi ?k"
    using powi_shift [of ?k 52] powi_shift [of ?k 53] by (simp_all add: add.commute)
  with ilog2_bounds [OF assms] pos have "of_int (2 ^ 52) \<le> x / 2 powi ?k" "x / 2 powi ?k \<le> of_int (2 ^ 53)"
    by (simp_all add: pos_le_divide_eq pos_divide_le_eq)
  from this [THEN rne_mono] show "2 ^ 52 \<le> rne (x / 2 powi ?k)" "rne (x / 2 powi ?k) \<le> 2 ^ 53" by (simp_all only: rne_int)
qed

lemma round_pos_bounds:
  assumes "0 < x"
  shows "2 powi (ilog2 x) \<le> round_pos x" and "round_pos x \<le> 2 powi (ilog2 x + 1)"
proof -
  let ?k = "ilog2 x - 52" and ?m = "rne (x / 2 powi (ilog2 x - 52))"
  have e: "(2 :: rat) powi (ilog2 x) = of_int (2 ^ 52) * 2 powi ?k" "(2 :: rat) powi (ilog2 x + 1) = of_int (2 ^ 53) * 2 powi ?k"
    using powi_shift [of ?k 52] powi_shift [of ?k 53] by (simp_all add: add.commute)
  have "of_int (2 ^ 52) \<le> (of_int ?m :: rat)" "(of_int ?m :: rat) \<le> of_int (2 ^ 53)"
    using mantissa_bounds [OF assms] by (simp_all only: of_int_le_iff)
  then show "2 powi (ilog2 x) \<le> round_pos x" "round_pos x \<le> 2 powi (ilog2 x + 1)"
    unfolding e round_pos_def Let_def by (simp_all only: mult_right_mono zero_le_power_int [of 2])
qed

lemma round_pos_mono:
  assumes "0 < x" and "x \<le> y"
  shows "round_pos x \<le> round_pos y"
proof (cases "ilog2 x = ilog2 y")
  case True
  have "x / 2 powi (ilog2 y - 52) \<le> y / 2 powi (ilog2 y - 52)" using assms(2) by (simp add: divide_right_mono)
  then have "(of_int (rne (x / 2 powi (ilog2 y - 52))) :: rat) \<le> of_int (rne (y / 2 powi (ilog2 y - 52)))" by (simp add: rne_mono)
  then show ?thesis unfolding round_pos_def Let_def True by (rule mult_right_mono) simp
next
  case False
  then have "ilog2 x + 1 \<le> ilog2 y" using ilog2_mono [OF assms] by simp
  then have "(2 :: rat) powi (ilog2 x + 1) \<le> 2 powi (ilog2 y)" by (intro power_int_increasing) simp_all
  then show ?thesis using round_pos_bounds(2) [OF assms(1)] round_pos_bounds(1) [of y] assms by simp
qed

lemma round_pos_error:
  assumes "0 < x"
  shows "\<bar>round_pos x - x\<bar> \<le> x / 2 ^ 53"
proof -
  let ?k = "ilog2 x - 52" and ?m = "rne (x / 2 powi (ilog2 x - 52))"
  have pos: "0 < (2 :: rat) powi ?k" by simp
  have "round_pos x - x = (of_int ?m - x / 2 powi ?k) * 2 powi ?k" using pos by (simp add: round_pos_def Let_def left_diff_distrib)
  then have "\<bar>round_pos x - x\<bar> = \<bar>of_int ?m - x / 2 powi ?k\<bar> * 2 powi ?k" using pos by (simp add: abs_mult)
  also have "\<dots> \<le> 1 / 2 * 2 powi ?k" using rne_error pos by (intro mult_right_mono) simp_all
  also have "\<dots> = 2 powi (ilog2 x) / 2 ^ 53" by (simp add: power_int_diff)
  also have "\<dots> \<le> x / 2 ^ 53" using ilog2_bounds(1) [OF assms] by (rule divide_right_mono) simp
  finally show ?thesis .
qed

lemma round_pos_int:
  assumes "0 < n" and "n < 2 ^ 53"
  shows "round_pos (of_int n) = of_int n"
proof -
  let ?x = "of_int n :: rat"
  have x: "0 < ?x" using assms(1) by simp
  have "ilog2 ?x < 53"
  proof (rule ccontr)
    assume "\<not> ilog2 ?x < 53"
    then have "(2 :: rat) powi (int 53) \<le> 2 powi (ilog2 ?x)" by (intro power_int_increasing) simp_all
    also have "\<dots> \<le> ?x" by (rule ilog2_bounds [OF x])
    finally show False using assms(2) unfolding powi_nat of_int_le_iff by simp
  qed
  define j where "j = nat (52 - ilog2 ?x)"
  then have k: "ilog2 ?x - 52 = - int j" using \<open>ilog2 ?x < 53\<close> by simp
  have "?x / 2 powi (- int j) = of_int (n * 2 ^ j)" by (simp add: power_int_minus divide_inverse)
  then have "rne (?x / 2 powi (- int j)) = n * 2 ^ j" by (simp only: rne_int)
  then show ?thesis by (simp add: round_pos_def Let_def k power_int_minus)
qed

lemma round_pos_positive: "0 < x \<Longrightarrow> 0 < round_pos x"
  by (rule less_le_trans [OF _ round_pos_bounds(1)]) simp_all

interpretation double: rounding double_round
proof unfold_locales
  fix x y :: rat
  assume "x \<le> y"
  then show "double_round x \<le> double_round y"
    using round_pos_mono [of x y] round_pos_mono [of "- y" "- x"] round_pos_positive [of y] round_pos_positive [of "- x"]
    by (auto simp: double_round_def)
next
  fix n :: int
  assume "\<bar>n\<bar> < 2 ^ 53"
  then show "double_round (of_int n) = of_int n"
    using round_pos_int [of n] round_pos_int [of "- n"] by (auto simp: double_round_def)
next
  fix x :: rat
  consider "x = 0" | "0 < x" | "0 < - x" by linarith
  then show "\<bar>double_round x - x\<bar> \<le> \<bar>x\<bar> / 2 ^ 53"
  proof cases
    case 3
    have "\<bar>double_round x - x\<bar> = \<bar>round_pos (- x) - - x\<bar>" using 3 by (simp add: double_round_def abs_minus_commute)
    also have "\<dots> \<le> - x / 2 ^ 53" by (rule round_pos_error [OF 3])
    also have "- x = \<bar>x\<bar>" using 3 by simp
    finally show ?thesis .
  qed (use round_pos_error [of x] in \<open>simp_all add: double_round_def\<close>)
qed

end
