(* ===== verification/Network_Score.thy ===== *)
theory Network_Score
  imports Channel Double_Rounding
begin

text \<open>
  The network quality score (\<^verbatim>\<open>src/src/common/NetworkScore.h\<close>, \<^verbatim>\<open>NetworkScoreCalculator.cpp\<close>,
  \<^verbatim>\<open>TcpVirtualChannel::getNetworkScore\<close>): sums over the connections, four partial scores and their
  weighted mean. \<^verbatim>\<open>double\<close> arithmetic is exact rational arithmetic with every result rounded by \<open>fl\<close>,
  which the theorems instantiate with \<open>double_round\<close>; a decimal constant of the source is \<open>fl\<close> of its value.
\<close>

section \<open>Partial scores\<close>

text \<open>\<^verbatim>\<open>static_cast<int>\<close> truncates towards zero, \<^verbatim>\<open>std::round\<close> rounds halves away from zero.\<close>

definition to_int :: "rat \<Rightarrow> int" where
  "to_int x = (if x < 0 then \<lceil>x\<rceil> else \<lfloor>x\<rfloor>)"

definition std_round :: "rat \<Rightarrow> int" where
  "std_round x = (if x < 0 then - \<lfloor>- x + 1 / 2\<rfloor> else \<lfloor>x + 1 / 2\<rfloor>)"

definition kThresholds :: "(rat \<times> int) list" where
  "kThresholds = [(0, 100), (80, 100), (160, 75), (300, 50), (600, 25), (1500, 10), (3000, 0)]"

definition interpolate :: "(rat \<Rightarrow> rat) \<Rightarrow> rat \<Rightarrow> int \<Rightarrow> rat \<Rightarrow> int \<Rightarrow> rat \<Rightarrow> int" where
  "interpolate fl r1 s1 r2 s2 avgRttMs =
     (let range = fl (r2 - r1); ratio = fl (fl (avgRttMs - r1) / range); rawScore = fl (of_int s1 + fl (ratio * of_int (s2 - s1)))
      in std_round rawScore)"

fun find_bracket :: "(rat \<Rightarrow> rat) \<Rightarrow> (rat \<times> int) list \<Rightarrow> rat \<Rightarrow> int" where
  "find_bracket fl ((r1, s1) # (r2, s2) # ts) avgRttMs =
     (if r1 \<le> avgRttMs \<and> avgRttMs < r2 then interpolate fl r1 s1 r2 s2 avgRttMs else find_bracket fl ((r2, s2) # ts) avgRttMs)"
| "find_bracket fl _ avgRttMs = 0"

definition scoreLatency :: "(rat \<Rightarrow> rat) \<Rightarrow> rat \<Rightarrow> int" where
  "scoreLatency fl avgRttMs =
     (if avgRttMs \<le> 0 then 100 else if avgRttMs \<ge> 3000 then 0 else find_bracket fl kThresholds avgRttMs)"

definition scoreThroughput :: "(rat \<Rightarrow> rat) \<Rightarrow> rat \<Rightarrow> u64 \<Rightarrow> int \<Rightarrow> int \<Rightarrow> int" where
  "scoreThroughput fl avgCwndKB totalTxCount aliveN totalConnections =
     (if totalTxCount = 0 then (if aliveN > 0 then 70 else 0)
      else let aliveRatio = (if totalConnections > 0 then fl (of_int aliveN / of_int totalConnections) else 0);
               connScore = to_int (fl (aliveRatio * 100));
               cwndScore = (if avgCwndKB > 0
                 then if avgCwndKB \<ge> 128 then 100 else if avgCwndKB \<ge> 64 then 85 else if avgCwndKB \<ge> 32 then 70
                   else if avgCwndKB \<ge> 16 then 50 else if avgCwndKB \<ge> 8 then 30 else 10
                 else connScore)
           in to_int (fl (fl (of_int cwndScore * fl (6 / 10)) + fl (of_int connScore * fl (4 / 10)))))"

definition reenqueuePenalty :: "(rat \<Rightarrow> rat) \<Rightarrow> u64 \<Rightarrow> u64 \<Rightarrow> int" where
  "reenqueuePenalty fl totalReenqueueCount totalTxCount =
     (if totalTxCount > 0
      then let reenqueueRate = fl (fl (of_nat (unat totalReenqueueCount)) / fl (of_nat (unat totalTxCount)))
           in if reenqueueRate > fl (20 / 100) then 40 else if reenqueueRate > fl (10 / 100) then 30
              else if reenqueueRate > fl (5 / 100) then 20 else if reenqueueRate > fl (1 / 100) then 10 else 0
      else 0)"

definition scoreStability :: "(rat \<Rightarrow> rat) \<Rightarrow> u64 \<Rightarrow> u64 \<Rightarrow> int \<Rightarrow> int \<Rightarrow> int \<Rightarrow> int" where
  "scoreStability fl totalReenqueueCount totalTxCount degradedCount deadCount aliveN =
     (let score = 100 - deadCount * 15 - degradedCount * 8 - reenqueuePenalty fl totalReenqueueCount totalTxCount;
          score1 = (if aliveN = 0 \<and> deadCount > 0 then 0 else score)
      in max 0 (min 100 score1))"

definition scoreQueueHealth :: "(rat \<Rightarrow> rat) \<Rightarrow> u64 \<Rightarrow> int" where
  "scoreQueueHealth fl sendQueueDepth =
     (if sendQueueDepth = 0 then 100
      else if unat sendQueueDepth \<ge> SEND_QUEUE_DROP_THRESHOLD then 0
      else let ratio = fl (fl (of_nat (unat sendQueueDepth)) / fl (of_nat SEND_QUEUE_DROP_THRESHOLD))
           in std_round (fl (100 * fl (1 - ratio))))"

section \<open>Sums over the connections\<close>

record net_totals =
  nt_alive :: int
  nt_dead :: int
  nt_degraded :: int
  nt_rttUs :: rat
  nt_cwndBytes :: rat
  nt_rttSamples :: int
  nt_cwndSamples :: int
  nt_tx :: u64
  nt_reenqueue :: u64

definition net_totals_init :: net_totals where
  "net_totals_init = \<lparr>nt_alive = 0, nt_dead = 0, nt_degraded = 0, nt_rttUs = 0, nt_cwndBytes = 0, nt_rttSamples = 0,
     nt_cwndSamples = 0, nt_tx = 0, nt_reenqueue = 0\<rparr>"

text \<open>One round of the loop; \<open>nowMs\<close> is the clock reading of the degradation check.\<close>

definition add_connection :: "(rat \<Rightarrow> rat) \<Rightarrow> int \<Rightarrow> RuntimeInfo \<Rightarrow> ConnSendStats \<Rightarrow> SocketStatus \<Rightarrow> net_totals \<Rightarrow> net_totals outcome" where
  "add_connection fl nowMs info st status n =
     (let alive = inf_valid info \<or> (\<not> inf_supported info \<and> st_valid st)
      in and_then
           (if alive
            then let n1 = n\<lparr>nt_alive := nt_alive n + 1\<rparr>;
                     n2 = (if inf_supported info \<and> inf_smoothedRttUs info > 0
                           then n1\<lparr>nt_rttUs := fl (nt_rttUs n1 + of_nat (unat (inf_smoothedRttUs info))), nt_rttSamples := nt_rttSamples n1 + 1\<rparr> else n1);
                     n3 = (if inf_supported info \<and> inf_congestionWindowBytes info > 0
                           then n2\<lparr>nt_cwndBytes := fl (nt_cwndBytes n2 + of_nat (unat (inf_congestionWindowBytes info))), nt_cwndSamples := nt_cwndSamples n2 + 1\<rparr>
                           else n2)
                 in and_then (isCurrentlyDegraded 10000 nowMs status) (\<lambda>d. Inr (if d then n3\<lparr>nt_degraded := nt_degraded n3 + 1\<rparr> else n3))
            else Inr (n\<lparr>nt_dead := nt_dead n + 1\<rparr>))
           (\<lambda>n4. Inr (n4\<lparr>nt_tx := nt_tx n4 + st_txCount st, nt_reenqueue := nt_reenqueue n4 + st_reenqueueCount st\<rparr>)))"

fun add_connections :: "(rat \<Rightarrow> rat) \<Rightarrow> (nat \<Rightarrow> int) \<Rightarrow> nat \<Rightarrow> (RuntimeInfo \<times> ConnSendStats \<times> SocketStatus) list \<Rightarrow> net_totals \<Rightarrow> net_totals outcome" where
  "add_connections fl clock i [] n = Inr n"
| "add_connections fl clock i ((info, st, status) # xs) n =
     and_then (add_connection fl (clock i) info st status n) (add_connections fl clock (Suc i) xs)"

section \<open>The score\<close>

record NetworkScore =
  overall :: int
  latency :: int
  throughput :: int
  stability :: int
  queueHealth :: int
  ns_avgRttMs :: rat
  ns_avgCwndKB :: rat
  ns_totals :: net_totals
  ns_sendQueueDepth :: u64

definition average :: "(rat \<Rightarrow> rat) \<Rightarrow> rat \<Rightarrow> int \<Rightarrow> rat \<Rightarrow> rat" where
  "average fl x samples unit = (if samples > 0 then fl (fl (x / of_int samples) / unit) else 0)"

definition composite :: "(rat \<Rightarrow> rat) \<Rightarrow> int \<Rightarrow> int \<Rightarrow> int \<Rightarrow> int \<Rightarrow> int" where
  "composite fl l t s q =
     to_int (fl (fl (fl (fl (of_int l * fl (25 / 100)) + fl (of_int t * fl (25 / 100))) + fl (of_int s * fl (35 / 100))) + fl (of_int q * fl (15 / 100))))"

definition score_totals :: "(rat \<Rightarrow> rat) \<Rightarrow> nat \<Rightarrow> u64 \<Rightarrow> net_totals \<Rightarrow> NetworkScore" where
  "score_totals fl n sendQueueDepth t =
     (let avgRttMs = average fl (nt_rttUs t) (nt_rttSamples t) 1000; avgCwndKB = average fl (nt_cwndBytes t) (nt_cwndSamples t) 1024;
          l = scoreLatency fl avgRttMs; tp = scoreThroughput fl avgCwndKB (nt_tx t) (nt_alive t) (int n);
          s = scoreStability fl (nt_reenqueue t) (nt_tx t) (nt_degraded t) (nt_dead t) (nt_alive t); q = scoreQueueHealth fl sendQueueDepth
      in \<lparr>overall = composite fl l tp s q, latency = l, throughput = tp, stability = s, queueHealth = q, ns_avgRttMs = avgRttMs,
          ns_avgCwndKB = avgCwndKB, ns_totals = t, ns_sendQueueDepth = sendQueueDepth\<rparr>)"

definition compute_score :: "(rat \<Rightarrow> rat) \<Rightarrow> (nat \<Rightarrow> int) \<Rightarrow> RuntimeInfo list \<Rightarrow> ConnSendStats list \<Rightarrow> SocketStatus list \<Rightarrow> u64 \<Rightarrow> NetworkScore outcome" where
  "compute_score fl clock infos sendStats statuses sendQueueDepth =
     and_then (add_connections fl clock 0 (zip infos (zip sendStats statuses)) net_totals_init)
       (\<lambda>t. Inr (score_totals fl (min (length infos) (min (length sendStats) (length statuses))) sendQueueDepth t))"

text \<open>The sampling of \<^verbatim>\<open>getNetworkScore\<close>: \<open>samples\<close> is what the kernel reports for a connection at which time.\<close>

definition sample_conn :: "(nat \<Rightarrow> time \<times> tcp_sample) \<Rightarrow> nat \<Rightarrow> conn_ref \<Rightarrow> conn_heap \<Rightarrow> RuntimeInfo \<times> conn_heap" where
  "sample_conn samples i r h =
     (if alive h r
      then let h' = conn_upd (\<lambda>c. snd (refreshRuntimeInfoIfStale 500 (fst (samples i)) (snd (samples i)) c)) r h
           in (case r of None \<Rightarrow> RuntimeInfo_init | Some k \<Rightarrow> lastRuntimeInfo (h' ! k), h')
      else (RuntimeInfo_init, h))"

fun sample_conns :: "(nat \<Rightarrow> time \<times> tcp_sample) \<Rightarrow> nat \<Rightarrow> conn_ref list \<Rightarrow> conn_heap \<Rightarrow> RuntimeInfo list \<times> conn_heap" where
  "sample_conns samples i [] h = ([], h)"
| "sample_conns samples i (r # rs) h =
     (let (info, h1) = sample_conn samples i r h; (infos, h2) = sample_conns samples (Suc i) rs h1 in (info # infos, h2))"

definition getNetworkScore :: "(rat \<Rightarrow> rat) \<Rightarrow> (nat \<Rightarrow> int) \<Rightarrow> (nat \<Rightarrow> time \<times> tcp_sample) \<Rightarrow> chan \<Rightarrow> (NetworkScore \<times> chan) outcome" where
  "getNetworkScore fl clock samples c =
     (let (infos, h) = sample_conns samples 0 (connections c) (heap c); c1 = c\<lparr>heap := h\<rparr>
      in and_then (compute_score fl clock infos (connSendStats c1) (socketStatuses c1) (bq_approxSize (sendQueue c1))) (\<lambda>s. Inr (s, c1)))"

section \<open>Scores lie between 0 and 100\<close>

lemma std_round_between:
  assumes "of_int a \<le> x" and "x \<le> of_int b" and "0 \<le> a"
  shows "a \<le> std_round x \<and> std_round x \<le> b"
proof -
  have "0 \<le> x" using assms(1,3) by (meson of_int_0_le_iff order_trans)
  then show ?thesis using assms(1,2) by (simp add: std_round_def le_floor_iff floor_le_iff)
qed

lemma std_round_mono: "0 \<le> x \<Longrightarrow> x \<le> y \<Longrightarrow> std_round x \<le> std_round y"
  by (simp add: std_round_def floor_mono)

lemma to_int_between: "0 \<le> x \<Longrightarrow> x < of_int (b + 1) \<Longrightarrow> 0 \<le> to_int x \<and> to_int x \<le> b"
  by (simp add: to_int_def floor_le_iff)

text \<open>A table of thresholds whose scores do not rise.\<close>

fun falling :: "(rat \<times> int) list \<Rightarrow> bool" where
  "falling ((r1, s1) # (r2, s2) # ts) \<longleftrightarrow> r1 < r2 \<and> s2 \<le> s1 \<and> s1 \<le> 100 \<and> 0 \<le> s2 \<and> falling ((r2, s2) # ts)"
| "falling _ \<longleftrightarrow> True"

context rounding
begin

definition step_score :: "rat \<Rightarrow> int \<Rightarrow> rat \<Rightarrow> int \<Rightarrow> rat \<Rightarrow> rat" where
  "step_score r1 s1 r2 s2 x = fl (of_int s1 + fl (fl (fl (x - r1) / fl (r2 - r1)) * of_int (s2 - s1)))"

lemma interpolate_step: "interpolate fl r1 s1 r2 s2 x = std_round (step_score r1 s1 r2 s2 x)"
  by (simp add: interpolate_def step_score_def Let_def)

lemma ratio_unit:
  assumes "r1 \<le> x" and "x \<le> r2" and "r1 < r2"
  shows "0 \<le> fl (fl (x - r1) / fl (r2 - r1)) \<and> fl (fl (x - r1) / fl (r2 - r1)) \<le> 1"
proof (rule fl_unit)
  have le: "0 \<le> fl (x - r1)" "fl (x - r1) \<le> fl (r2 - r1)" using assms by (simp_all add: fl_nonneg fl_mono)
  then show "0 \<le> fl (x - r1) / fl (r2 - r1)" by simp
  show "fl (x - r1) / fl (r2 - r1) \<le> 1" using le by (cases "fl (r2 - r1) = 0") (simp_all add: divide_le_eq)
qed

lemma step_score_between:
  assumes "r1 \<le> x" and "x \<le> r2" and "r1 < r2" and "s2 \<le> s1" and "0 \<le> s2" and "s1 \<le> 100"
  shows "of_int s2 \<le> step_score r1 s1 r2 s2 x \<and> step_score r1 s1 r2 s2 x \<le> of_int s1"
proof -
  let ?q = "fl (fl (x - r1) / fl (r2 - r1))"
  have q: "0 \<le> ?q" "?q \<le> 1" using ratio_unit [OF assms(1-3)] by simp_all
  have d: "(of_int (s2 - s1) :: rat) \<le> 0" using assms(4) by simp
  have "of_int (s2 - s1) \<le> ?q * of_int (s2 - s1)" using mult_right_mono_neg [OF q(2) d] by simp
  moreover have "?q * of_int (s2 - s1) \<le> of_int 0" using q(1) d by (simp add: mult_nonneg_nonpos)
  ultimately have "of_int (s2 - s1) \<le> fl (?q * of_int (s2 - s1)) \<and> fl (?q * of_int (s2 - s1)) \<le> of_int 0"
    using assms(4-6) by (intro fl_between) simp_all
  then have "of_int s2 \<le> of_int s1 + fl (?q * of_int (s2 - s1))" "of_int s1 + fl (?q * of_int (s2 - s1)) \<le> of_int s1" by simp_all
  then show ?thesis unfolding step_score_def using assms(4-6) by (intro fl_between) simp_all
qed

lemma step_score_antimono:
  assumes "x \<le> y" and "s2 \<le> s1" and "r1 < r2"
  shows "step_score r1 s1 r2 s2 y \<le> step_score r1 s1 r2 s2 x"
proof -
  have "0 \<le> fl (r2 - r1)" using assms(3) by (simp add: fl_nonneg)
  then have "fl (x - r1) / fl (r2 - r1) \<le> fl (y - r1) / fl (r2 - r1)" using assms(1) by (intro divide_right_mono fl_mono) simp_all
  then have "fl (fl (x - r1) / fl (r2 - r1)) \<le> fl (fl (y - r1) / fl (r2 - r1))" by (rule fl_mono)
  then have "fl (fl (y - r1) / fl (r2 - r1)) * of_int (s2 - s1) \<le> fl (fl (x - r1) / fl (r2 - r1)) * of_int (s2 - s1)"
    using assms(2) by (intro mult_right_mono_neg) simp_all
  then show ?thesis unfolding step_score_def by (intro fl_mono add_left_mono)
qed

lemma find_bracket_le: "falling ((r, s) # ts) \<Longrightarrow> 0 \<le> s \<Longrightarrow> r \<le> x \<Longrightarrow> 0 \<le> find_bracket fl ((r, s) # ts) x \<and> find_bracket fl ((r, s) # ts) x \<le> s"
proof (induction ts arbitrary: r s)
  case Nil
  then show ?case by simp
next
  case (Cons t ts)
  obtain r2 s2 where t: "t = (r2, s2)" by fastforce
  note f = Cons.prems(1) [unfolded t]
  show ?case
  proof (cases "x < r2")
    case True
    have "of_int s2 \<le> step_score r s r2 s2 x \<and> step_score r s r2 s2 x \<le> of_int s"
      using f Cons.prems True by (intro step_score_between) simp_all
    then have "s2 \<le> interpolate fl r s r2 s2 x \<and> interpolate fl r s r2 s2 x \<le> s"
      unfolding interpolate_step using f by (intro std_round_between) simp_all
    then show ?thesis using True Cons.prems(3) f by (simp add: t)
  next
    case False
    then show ?thesis using Cons.IH [of r2 s2] f by (auto simp: t)
  qed
qed

lemma find_bracket_antimono:
  "falling ((r, s) # ts) \<Longrightarrow> r \<le> x \<Longrightarrow> x \<le> y \<Longrightarrow> find_bracket fl ((r, s) # ts) y \<le> find_bracket fl ((r, s) # ts) x"
proof (induction ts arbitrary: r s)
  case Nil
  then show ?case by simp
next
  case (Cons t ts)
  obtain r2 s2 where t: "t = (r2, s2)" by fastforce
  note f = Cons.prems(1) [unfolded t]
  consider (left) "y < r2" | (split) "x < r2" "r2 \<le> y" | (right) "r2 \<le> x" by linarith
  then show ?case
  proof cases
    case left
    have "of_int s2 \<le> step_score r s r2 s2 y" using f Cons.prems left by (intro step_score_between [THEN conjunct1]) simp_all
    then have "0 \<le> step_score r s r2 s2 y" using f by (meson falling.simps(1) of_int_0_le_iff order_trans)
    then have "interpolate fl r s r2 s2 y \<le> interpolate fl r s r2 s2 x"
      unfolding interpolate_step using f Cons.prems(3) by (intro std_round_mono step_score_antimono) simp_all
    then show ?thesis using left Cons.prems by (simp add: t)
  next
    case split
    have "find_bracket fl ((r2, s2) # ts) y \<le> s2" using find_bracket_le [of r2 s2 ts y] f split by simp
    moreover have "of_int s2 \<le> step_score r s r2 s2 x \<and> step_score r s r2 s2 x \<le> of_int s"
      using f Cons.prems split by (intro step_score_between) simp_all
    then have "s2 \<le> interpolate fl r s r2 s2 x" unfolding interpolate_step using f by (intro std_round_between [of s2 _ s, THEN conjunct1]) simp_all
    ultimately show ?thesis using split Cons.prems by (simp add: t)
  next
    case right
    then show ?thesis using Cons.IH [of r2 s2] f Cons.prems by (simp add: t)
  qed
qed

lemma scoreLatency_range: "0 \<le> scoreLatency fl x \<and> scoreLatency fl x \<le> 100"
  using find_bracket_le [of 0 100 "[(80, 100), (160, 75), (300, 50), (600, 25), (1500, 10), (3000, 0)]" x]
  by (simp add: scoreLatency_def kThresholds_def del: find_bracket.simps)

lemma scoreLatency_antimono: "x \<le> y \<Longrightarrow> scoreLatency fl y \<le> scoreLatency fl x"
  using find_bracket_antimono [of 0 100 "[(80, 100), (160, 75), (300, 50), (600, 25), (1500, 10), (3000, 0)]" x y]
    find_bracket_le [of 0 100 "[(80, 100), (160, 75), (300, 50), (600, 25), (1500, 10), (3000, 0)]" x]
    find_bracket_le [of 0 100 "[(80, 100), (160, 75), (300, 50), (600, 25), (1500, 10), (3000, 0)]" y]
  by (simp add: scoreLatency_def kThresholds_def del: find_bracket.simps)

lemma weighted_nonneg: "0 \<le> s \<Longrightarrow> 0 \<le> w \<Longrightarrow> 0 \<le> fl (of_int s * fl w)"
  by (simp add: fl_nonneg)

lemma fl_slack:
  assumes "0 \<le> x" and "x \<le> b" and "b \<le> 200"
  shows "fl x \<le> b + 1 / 1000"
proof -
  have "fl x \<le> b + b / 2 ^ 53" by (rule fl_le [OF assms(1,2)])
  also have "\<dots> \<le> b + 200 / 2 ^ 53" using assms(3) by (intro add_left_mono divide_right_mono) simp_all
  also have "\<dots> \<le> b + 1 / 1000" by simp
  finally show ?thesis .
qed

lemma weighted_le:
  assumes "0 \<le> s" and "s \<le> 100" and "0 \<le> w" and "w \<le> 1"
  shows "fl (of_int s * fl w) \<le> 100 * w + 1 / 100"
proof -
  have w: "0 \<le> fl w" "fl w \<le> w + w / 2 ^ 53" using assms(3) by (rule fl_nonneg, intro fl_le [OF assms(3)] order_refl)
  have "w / 2 ^ 53 \<le> 1 / 2 ^ 53" using assms(4) by (rule divide_right_mono) simp
  then have "fl w \<le> w + 1 / 100000" using w(2) by simp
  then have "of_int s * fl w \<le> 100 * (w + 1 / 100000)" using assms w(1) by (intro mult_mono) simp_all
  then have "fl (of_int s * fl w) \<le> 100 * (w + 1 / 100000) + 1 / 1000" using assms w(1) by (intro fl_slack) simp_all
  then show ?thesis by simp
qed

lemma composite_range:
  assumes "0 \<le> l" "l \<le> 100" "0 \<le> t" "t \<le> 100" "0 \<le> s" "s \<le> 100" "0 \<le> q" "q \<le> 100"
  shows "0 \<le> composite fl l t s q \<and> composite fl l t s q \<le> 100"
proof -
  define wl where "wl = fl (of_int l * fl (25 / 100))"
  define wt where "wt = fl (of_int t * fl (25 / 100))"
  define ws where "ws = fl (of_int s * fl (35 / 100))"
  define wq where "wq = fl (of_int q * fl (15 / 100))"
  have l: "0 \<le> wl" "wl \<le> 100 * (25 / 100) + 1 / 100" unfolding wl_def using assms by (intro weighted_nonneg weighted_le; simp)+
  have t: "0 \<le> wt" "wt \<le> 100 * (25 / 100) + 1 / 100" unfolding wt_def using assms by (intro weighted_nonneg weighted_le; simp)+
  have s: "0 \<le> ws" "ws \<le> 100 * (35 / 100) + 1 / 100" unfolding ws_def using assms by (intro weighted_nonneg weighted_le; simp)+
  have q: "0 \<le> wq" "wq \<le> 100 * (15 / 100) + 1 / 100" unfolding wq_def using assms by (intro weighted_nonneg weighted_le; simp)+
  have a: "0 \<le> fl (wl + wt)" "fl (wl + wt) \<le> 50 + 3 / 100" using l t fl_slack [of "wl + wt" "50 + 2 / 100"] by (simp_all add: fl_nonneg)
  have b: "0 \<le> fl (fl (wl + wt) + ws)" "fl (fl (wl + wt) + ws) \<le> 85 + 5 / 100"
    using a s fl_slack [of "fl (wl + wt) + ws" "85 + 4 / 100"] by (simp_all add: fl_nonneg)
  have c: "0 \<le> fl (fl (fl (wl + wt) + ws) + wq)" "fl (fl (fl (wl + wt) + ws) + wq) \<le> 100 + 7 / 100"
    using b q fl_slack [of "fl (fl (wl + wt) + ws) + wq" "100 + 6 / 100"] by (simp_all add: fl_nonneg)
  have "composite fl l t s q = to_int (fl (fl (fl (wl + wt) + ws) + wq))" by (simp add: composite_def wl_def wt_def ws_def wq_def)
  moreover have "fl (fl (fl (wl + wt) + ws) + wq) < of_int (100 + 1)" using c(2) by simp
  ultimately show ?thesis using to_int_between [OF c(1), of 100] by simp
qed

lemma scoreThroughput_range:
  assumes "0 \<le> aliveN" and "aliveN \<le> totalN"
  shows "0 \<le> scoreThroughput fl kb tx aliveN totalN \<and> scoreThroughput fl kb tx aliveN totalN \<le> 100"
proof (cases "tx = 0")
  case True
  then show ?thesis by (simp add: scoreThroughput_def)
next
  case False
  define ratio where "ratio = (if totalN > 0 then fl (of_int aliveN / of_int totalN) else 0)"
  define conn where "conn = to_int (fl (ratio * 100))"
  define cw where "cw = (if kb > 0 then if kb \<ge> 128 then 100 else if kb \<ge> 64 then 85 else if kb \<ge> 32 then 70
    else if kb \<ge> 16 then 50 else if kb \<ge> 8 then 30 else 10 else conn)"
  have "0 \<le> ratio" "ratio \<le> 1" using assms fl_unit [of "of_int aliveN / of_int totalN"] by (auto simp: ratio_def divide_le_eq)
  then have "of_int 0 \<le> fl (ratio * 100) \<and> fl (ratio * 100) \<le> of_int 100" by (intro fl_between) simp_all
  then have conn: "0 \<le> conn" "conn \<le> 100" using to_int_between [of "fl (ratio * 100)" 100] by (auto simp: conn_def)
  have cw: "0 \<le> cw" "cw \<le> 100" using conn by (simp_all add: cw_def)
  define x where "x = fl (of_int cw * fl (6 / 10))"
  define y where "y = fl (of_int conn * fl (4 / 10))"
  have x: "0 \<le> x" "x \<le> 100 * (6 / 10) + 1 / 100" unfolding x_def using cw by (intro weighted_nonneg weighted_le; simp)+
  have y: "0 \<le> y" "y \<le> 100 * (4 / 10) + 1 / 100" unfolding y_def using conn by (intro weighted_nonneg weighted_le; simp)+
  have "0 \<le> fl (x + y)" "fl (x + y) \<le> 100 + 3 / 100" using x y fl_slack [of "x + y" "100 + 2 / 100"] by (simp_all add: fl_nonneg)
  then have "0 \<le> to_int (fl (x + y)) \<and> to_int (fl (x + y)) \<le> 100" by (intro to_int_between) simp_all
  moreover have "scoreThroughput fl kb tx aliveN totalN = to_int (fl (x + y))"
    using False by (simp add: scoreThroughput_def Let_def x_def y_def cw_def conn_def ratio_def)
  ultimately show ?thesis by simp
qed

lemma scoreStability_range: "0 \<le> scoreStability fl re tx dg dd al \<and> scoreStability fl re tx dg dd al \<le> 100"
  by (simp add: scoreStability_def Let_def)

definition health :: "nat \<Rightarrow> rat" where
  "health n = fl (100 * fl (1 - fl (fl (of_nat n) / fl (of_nat SEND_QUEUE_DROP_THRESHOLD))))"

lemma health_between: "n \<le> 1000 \<Longrightarrow> of_int 0 \<le> health n \<and> health n \<le> of_int 100"
proof -
  assume n: "n \<le> 1000"
  have "fl (of_nat n) = of_nat n" "fl (of_nat SEND_QUEUE_DROP_THRESHOLD) = 1000"
    using fl_int [of "int n"] fl_int [of 1000] n by (simp_all add: SEND_QUEUE_DROP_THRESHOLD_def)
  then have "0 \<le> fl (fl (of_nat n) / fl (of_nat SEND_QUEUE_DROP_THRESHOLD)) \<and> fl (fl (of_nat n) / fl (of_nat SEND_QUEUE_DROP_THRESHOLD)) \<le> 1"
    using n by (intro fl_unit) simp_all
  then have "0 \<le> fl (1 - fl (fl (of_nat n) / fl (of_nat SEND_QUEUE_DROP_THRESHOLD))) \<and> fl (1 - fl (fl (of_nat n) / fl (of_nat SEND_QUEUE_DROP_THRESHOLD))) \<le> 1"
    by (intro fl_unit) simp_all
  then show ?thesis unfolding health_def by (intro fl_between) simp_all
qed

lemma health_antimono: "m \<le> n \<Longrightarrow> health n \<le> health m"
proof -
  assume "m \<le> n"
  have "0 \<le> fl (of_nat SEND_QUEUE_DROP_THRESHOLD)" by (simp add: fl_nonneg)
  then have "fl (fl (of_nat m) / fl (of_nat SEND_QUEUE_DROP_THRESHOLD)) \<le> fl (fl (of_nat n) / fl (of_nat SEND_QUEUE_DROP_THRESHOLD))"
    using \<open>m \<le> n\<close> by (intro fl_mono divide_right_mono) simp_all
  then have "fl (1 - fl (fl (of_nat n) / fl (of_nat SEND_QUEUE_DROP_THRESHOLD))) \<le> fl (1 - fl (fl (of_nat m) / fl (of_nat SEND_QUEUE_DROP_THRESHOLD)))"
    by (intro fl_mono) simp
  then show ?thesis unfolding health_def by (intro fl_mono) simp
qed

lemma scoreQueueHealth_health:
  "scoreQueueHealth fl d = (if d = 0 then 100 else if unat d \<ge> SEND_QUEUE_DROP_THRESHOLD then 0 else std_round (health (unat d)))"
  by (simp add: scoreQueueHealth_def health_def Let_def)

lemma scoreQueueHealth_range: "0 \<le> scoreQueueHealth fl d \<and> scoreQueueHealth fl d \<le> 100"
  using health_between [of "unat d"] std_round_between [of 0 "health (unat d)" 100]
  by (auto simp: scoreQueueHealth_health SEND_QUEUE_DROP_THRESHOLD_def)

lemma scoreQueueHealth_antimono:
  assumes "c \<le> d"
  shows "scoreQueueHealth fl d \<le> scoreQueueHealth fl c"
proof -
  have u: "unat c \<le> unat d" using assms by (simp add: word_le_nat_alt)
  then have "std_round (health (unat d)) \<le> std_round (health (unat c))" if "unat d \<le> 1000"
    using health_antimono [OF u] health_between [OF that] by (intro std_round_mono) simp_all
  moreover have "c = 0" if "d = 0" using assms that by simp
  ultimately show ?thesis using u scoreQueueHealth_range [of c] scoreQueueHealth_range [of d]
    by (auto simp: scoreQueueHealth_health SEND_QUEUE_DROP_THRESHOLD_def split: if_splits)
qed

end

section \<open>The whole score\<close>

lemma add_connection_counts:
  assumes "add_connection fl now info st status n = Inr n'"
  shows "nt_alive n' + nt_dead n' = nt_alive n + nt_dead n + 1" and "nt_alive n \<le> nt_alive n'" and "nt_dead n \<le> nt_dead n'"
  using assms by (auto simp: add_connection_def Let_def and_then_eq_Inr split: if_splits)

lemma add_connections_counts:
  assumes "add_connections fl clock i xs n = Inr n'"
  shows "nt_alive n' + nt_dead n' = nt_alive n + nt_dead n + int (length xs) \<and> nt_alive n \<le> nt_alive n' \<and> nt_dead n \<le> nt_dead n'"
  using assms
proof (induction fl clock i xs n rule: add_connections.induct)
  case (2 fl clock i info st status xs n)
  then obtain n1 where n1: "add_connection fl (clock i) info st status n = Inr n1" "add_connections fl clock (Suc i) xs n1 = Inr n'"
    by (auto simp: and_then_eq_Inr)
  from 2(1) [OF n1(2)] add_connection_counts [OF n1(1)] show ?case by simp
qed simp

text \<open>
  C37: every score is a percentage. Whatever the kernel reported for the connections, whatever the
  statistics are and however full the queue is, the four partial scores and the composite lie between 0
  and 100, rounding errors of the floating-point computation included; every connection is counted once,
  as alive or as dead.
\<close>

theorem network_score_bounds:
  assumes "compute_score double_round clock infos sendStats statuses depth = Inr s"
  shows "overall s \<in> {0..100} \<and> latency s \<in> {0..100} \<and> throughput s \<in> {0..100} \<and> stability s \<in> {0..100} \<and> queueHealth s \<in> {0..100} \<and>
     nt_alive (ns_totals s) + nt_dead (ns_totals s) = int (min (length infos) (min (length sendStats) (length statuses)))"
proof -
  let ?n = "min (length infos) (min (length sendStats) (length statuses))"
  obtain t where t: "add_connections double_round clock 0 (zip infos (zip sendStats statuses)) net_totals_init = Inr t"
    and s: "s = score_totals double_round ?n depth t"
    using assms by (auto simp: compute_score_def and_then_eq_Inr)
  have n: "nt_alive t + nt_dead t = int ?n" "0 \<le> nt_alive t" "0 \<le> nt_dead t"
    using add_connections_counts [OF t] by (simp_all add: net_totals_init_def)
  have l: "0 \<le> latency s" "latency s \<le> 100" using double.scoreLatency_range by (simp_all add: s score_totals_def Let_def)
  have tp: "0 \<le> throughput s" "throughput s \<le> 100"
    using n double.scoreThroughput_range [of "nt_alive t" "int ?n"] by (simp_all add: s score_totals_def Let_def)
  have st: "0 \<le> stability s" "stability s \<le> 100" using double.scoreStability_range by (simp_all add: s score_totals_def Let_def)
  have q: "0 \<le> queueHealth s" "queueHealth s \<le> 100" using double.scoreQueueHealth_range by (simp_all add: s score_totals_def Let_def)
  have o: "overall s = composite double_round (latency s) (throughput s) (stability s) (queueHealth s)" "ns_totals s = t"
    by (simp_all add: s score_totals_def Let_def)
  show ?thesis using double.composite_range [OF l tp st q] l tp st q n(1) o by simp
qed

theorem network_score_bounds_witness:
  "\<exists>s. compute_score double_round (\<lambda>_. 0) [RuntimeInfo_init] [ConnSendStats_init] [SocketStatus_init 0] 7 = Inr s \<and>
     overall s \<in> {0..100} \<and> nt_dead (ns_totals s) = 1"
proof -
  obtain s where s: "compute_score double_round (\<lambda>_. 0) [RuntimeInfo_init] [ConnSendStats_init] [SocketStatus_init 0] 7 = Inr s"
    "nt_dead (ns_totals s) = 1"
    by (simp add: compute_score_def add_connection_def RuntimeInfo_init_def ConnSendStats_init_def net_totals_init_def score_totals_def Let_def)
  from network_score_bounds [OF s(1)] s show ?thesis by blast
qed

text \<open>More latency never raises the latency score, and a longer queue never raises the queue score.\<close>

theorem scores_monotone:
  "(x \<le> y \<longrightarrow> scoreLatency double_round y \<le> scoreLatency double_round x) \<and>
   (c \<le> d \<longrightarrow> scoreQueueHealth double_round d \<le> scoreQueueHealth double_round c)"
  using double.scoreLatency_antimono double.scoreQueueHealth_antimono by blast

theorem scores_monotone_witness: "scoreQueueHealth double_round 7 \<le> scoreQueueHealth double_round 3"
  using scores_monotone [of 0 0 3 7] by simp

end
