(* ===== verification/Number_Text.thy ===== *)
theory Number_Text
  imports Vc_Prelude
begin

text \<open>
  Decimal numbers in text: \<^verbatim>\<open>std::stoi\<close> and \<^verbatim>\<open>std::stoul\<close> of the C++ library, by which both programs read
  the numbers of their command lines (\<^verbatim>\<open>src/src/client/main.cpp\<close>, \<^verbatim>\<open>src/src/server/main.cpp\<close>), for a platform
  with 32-bit \<^verbatim>\<open>int\<close> and 64-bit \<^verbatim>\<open>long\<close>. White space in front and an optional sign are skipped, the longest
  run of digits is converted, what follows is ignored. As with \<^verbatim>\<open>strtoul\<close>, a minus sign negates modulo
  two to the power of 64.
\<close>

section \<open>Digits\<close>

definition is_space :: "char \<Rightarrow> bool" where
  "is_space c \<longleftrightarrow> c = CHR '' '' \<or> c = CHR 0x09 \<or> c = CHR 0x0A \<or> c = CHR 0x0B \<or> c = CHR 0x0C \<or> c = CHR 0x0D"

definition is_digit :: "char \<Rightarrow> bool" where
  "is_digit c \<longleftrightarrow> of_char c \<ge> (48 :: nat) \<and> of_char c \<le> (57 :: nat)"

definition digit_value :: "char \<Rightarrow> nat" where
  "digit_value c = of_char c - 48"

definition digits_value :: "string \<Rightarrow> nat" where
  "digits_value ds = fold (\<lambda>c n. 10 * n + digit_value c) ds 0"

text \<open>The sign and the value of the number at the beginning of the text.\<close>

definition scan_number :: "string \<Rightarrow> (bool \<times> nat) option" where
  "scan_number s =
     (let s1 = dropWhile is_space s;
          neg = (s1 \<noteq> [] \<and> hd s1 = CHR ''-'');
          s2 = (if s1 \<noteq> [] \<and> (hd s1 = CHR ''-'' \<or> hd s1 = CHR ''+'') then tl s1 else s1);
          ds = takeWhile is_digit s2
      in if ds = [] then None else Some (neg, digits_value ds))"

datatype number_error = InvalidArgument | OutOfRange

definition stoi :: "string \<Rightarrow> number_error + int" where
  "stoi s =
     (case scan_number s of
        None \<Rightarrow> Inl InvalidArgument
      | Some (neg, n) \<Rightarrow>
          let v = (if neg then - int n else int n)
          in if v < - (2 ^ 31) \<or> v \<ge> 2 ^ 31 then Inl OutOfRange else Inr v)"

definition stoul :: "string \<Rightarrow> number_error + u64" where
  "stoul s =
     (case scan_number s of
        None \<Rightarrow> Inl InvalidArgument
      | Some (neg, n) \<Rightarrow>
          if n \<ge> 2 ^ 64 then Inl OutOfRange
          else Inr (if neg then - word_of_nat n else word_of_nat n))"

section \<open>Writing numbers\<close>

definition digit :: "nat \<Rightarrow> char" where
  "digit d = char_of (48 + d)"

fun decimal :: "nat \<Rightarrow> string" where
  "decimal n = (if n < 10 then [digit n] else decimal (n div 10) @ [digit (n mod 10)])"

declare decimal.simps [simp del]

lemma digit_char [simp]: "d < 10 \<Longrightarrow> is_digit (digit d)" "d < 10 \<Longrightarrow> digit_value (digit d) = d"
  by (simp_all add: digit_def is_digit_def digit_value_def)

lemma digits_value_snoc: "digits_value (ds @ [c]) = 10 * digits_value ds + digit_value c"
  by (simp add: digits_value_def)

lemma decimal_digits: "\<forall>c \<in> set (decimal n). is_digit c"
proof (induction n rule: decimal.induct)
  case (1 n)
  then show ?case by (cases "n < 10") (auto simp: decimal.simps [of n])
qed

lemma decimal_nonempty [simp]: "decimal n \<noteq> []"
  by (simp add: decimal.simps [of n])

lemma decimal_value [simp]: "digits_value (decimal n) = n"
proof (induction n rule: decimal.induct)
  case (1 n)
  show ?case
  proof (cases "n < 10")
    case True
    then show ?thesis by (simp add: decimal.simps [of n] digits_value_def)
  next
    case False
    then show ?thesis using 1 by (simp add: decimal.simps [of n] digits_value_snoc)
  qed
qed

lemma digit_plain: "is_digit c \<Longrightarrow> \<not> is_space c \<and> c \<noteq> CHR ''-'' \<and> c \<noteq> CHR ''+''"
  by (auto simp: is_digit_def is_space_def)

lemma scan_decimal [simp]: "scan_number (decimal n) = Some (False, n)"
proof -
  have d: "is_digit (hd (decimal n))" using decimal_digits [of n] by simp
  have dw: "dropWhile is_space (decimal n) = decimal n" using digit_plain [OF d] by (cases "decimal n") auto
  have tw: "takeWhile is_digit (decimal n) = decimal n" using decimal_digits [of n] by simp
  show ?thesis using digit_plain [OF d] by (simp add: scan_number_def Let_def dw tw)
qed

lemma stoi_decimal [simp]: "n < 2 ^ 31 \<Longrightarrow> stoi (decimal n) = Inr (int n)"
  by (simp add: stoi_def)

lemma stoul_decimal [simp]: "n < 2 ^ 64 \<Longrightarrow> stoul (decimal n) = Inr (word_of_nat n)"
  by (simp add: stoul_def)

text \<open>The range of the results, and that text without a digit in front is refused.\<close>

lemma stoi_range: "stoi s = Inr v \<Longrightarrow> - (2 ^ 31) \<le> v \<and> v < 2 ^ 31"
  by (auto simp: stoi_def Let_def split: option.splits if_splits)

end
