(* ===== verification/Logging.thy ===== *)
theory Logging
  imports Vc_Prelude
begin

text \<open>
  The logger (\<^verbatim>\<open>src/src/common/Log.h\<close>, \<^verbatim>\<open>Log.cpp\<close>): log levels and their names, and what becomes of a
  message. The time stamp is an input; the file system is not modelled beyond the text appended to the
  file that is open. Both overloads of \<^verbatim>\<open>log\<close> are modelled, with and without the position in the source.
\<close>

section \<open>Levels\<close>

datatype LogLevel = LOG_DEBUG | LOG_INFO | LOG_WARN | LOG_ERROR

text \<open>The comparison of the enumeration is that of its underlying integers.\<close>

fun level_code :: "LogLevel \<Rightarrow> nat" where
  "level_code LOG_DEBUG = 0"
| "level_code LOG_INFO = 1"
| "level_code LOG_WARN = 2"
| "level_code LOG_ERROR = 3"

instantiation LogLevel :: linorder
begin

definition less_eq_LogLevel :: "LogLevel \<Rightarrow> LogLevel \<Rightarrow> bool" where
  "a \<le> b \<longleftrightarrow> level_code a \<le> level_code b"

definition less_LogLevel :: "LogLevel \<Rightarrow> LogLevel \<Rightarrow> bool" where
  "a < b \<longleftrightarrow> level_code a < level_code b"

instance
proof
  fix a b :: LogLevel
  show "a \<le> b \<Longrightarrow> b \<le> a \<Longrightarrow> a = b" by (cases a; cases b) (simp_all add: less_eq_LogLevel_def)
qed (auto simp: less_eq_LogLevel_def less_LogLevel_def)

end

fun getLogLevelString :: "LogLevel \<Rightarrow> string" where
  "getLogLevelString LOG_DEBUG = ''DEBUG''"
| "getLogLevelString LOG_INFO = ''INFO''"
| "getLogLevelString LOG_WARN = ''WARNING''"
| "getLogLevelString LOG_ERROR = ''ERROR''"

definition stringToLogLevel :: "string \<Rightarrow> LogLevel" where
  "stringToLogLevel levelStr =
     (if levelStr = ''DEBUG'' \<or> levelStr = ''debug'' then LOG_DEBUG
      else if levelStr = ''INFO'' \<or> levelStr = ''info'' then LOG_INFO
      else if levelStr = ''WARNING'' \<or> levelStr = ''warning'' \<or> levelStr = ''WARN'' \<or> levelStr = ''warn'' then LOG_WARN
      else if levelStr = ''ERROR'' \<or> levelStr = ''error'' then LOG_ERROR
      else LOG_INFO)"

lemma stringToLogLevel_string [simp]: "stringToLogLevel (getLogLevelString l) = l"
  by (cases l) (simp_all add: stringToLogLevel_def)

section \<open>The logger\<close>

text \<open>
  \<open>lg_file\<close> is the name of the open log file, \<open>lg_written\<close> what was appended to each file and
  \<open>lg_console\<close> what went to the standard output, one entry per line.
\<close>

record Log =
  currentLogLevel :: LogLevel
  lg_file :: "string option"
  lg_written :: "(string \<times> string) list"
  lg_console :: "string list"

definition Log_init :: Log where
  "Log_init = \<lparr>currentLogLevel = LOG_INFO, lg_file = None, lg_written = [], lg_console = []\<rparr>"

text \<open>\<open>opens\<close>: whether the file could be opened for appending; the file that was open is closed first.\<close>

definition setLogFile :: "bool \<Rightarrow> string \<Rightarrow> Log \<Rightarrow> Log" where
  "setLogFile opens filename l = l\<lparr>lg_file := (if opens then Some filename else None)\<rparr>"

definition setLogLevel :: "LogLevel \<Rightarrow> Log \<Rightarrow> Log" where
  "setLogLevel level l = l\<lparr>currentLogLevel := level\<rparr>"

definition emit :: "string \<Rightarrow> Log \<Rightarrow> Log" where
  "emit line l =
     (case lg_file l of
        Some f \<Rightarrow> l\<lparr>lg_written := lg_written l @ [(f, line)]\<rparr>
      | None \<Rightarrow> l\<lparr>lg_console := lg_console l @ [line]\<rparr>)"

text \<open>The formats \<^verbatim>\<open>"{} [{}] {}"\<close> and \<^verbatim>\<open>"{}:{}: {} [{}] {}"\<close>.\<close>

definition log_message :: "string \<Rightarrow> LogLevel \<Rightarrow> string \<Rightarrow> Log \<Rightarrow> Log" where
  "log_message timestamp level message l =
     (if level < currentLogLevel l then l
      else emit (timestamp @ '' ['' @ getLogLevelString level @ ''] '' @ message) l)"

definition log_at :: "string \<Rightarrow> LogLevel \<Rightarrow> string \<Rightarrow> string \<Rightarrow> string \<Rightarrow> Log \<Rightarrow> Log" where
  "log_at timestamp level file line message l =
     (if level < currentLogLevel l then l
      else emit (file @ '':'' @ line @ '': '' @ timestamp @ '' ['' @ getLogLevelString level @ ''] '' @ message) l)"

definition log_debug :: "string \<Rightarrow> string \<Rightarrow> string \<Rightarrow> string \<Rightarrow> Log \<Rightarrow> Log" where
  "log_debug timestamp = log_at timestamp LOG_DEBUG"

definition log_info :: "string \<Rightarrow> string \<Rightarrow> string \<Rightarrow> string \<Rightarrow> Log \<Rightarrow> Log" where
  "log_info timestamp = log_at timestamp LOG_INFO"

definition log_warning :: "string \<Rightarrow> string \<Rightarrow> string \<Rightarrow> string \<Rightarrow> Log \<Rightarrow> Log" where
  "log_warning timestamp = log_at timestamp LOG_WARN"

definition log_error :: "string \<Rightarrow> string \<Rightarrow> string \<Rightarrow> string \<Rightarrow> Log \<Rightarrow> Log" where
  "log_error timestamp = log_at timestamp LOG_ERROR"

section \<open>What is written\<close>

text \<open>A call of the logger: level, position, message and the time at which it is made.\<close>

record log_call =
  lc_level :: LogLevel
  lc_file :: string
  lc_line :: string
  lc_time :: string
  lc_message :: string

definition log_line :: "log_call \<Rightarrow> string" where
  "log_line c = lc_file c @ '':'' @ lc_line c @ '': '' @ lc_time c @ '' ['' @ getLogLevelString (lc_level c) @ ''] '' @ lc_message c"

definition run_calls :: "log_call list \<Rightarrow> Log \<Rightarrow> Log" where
  "run_calls cs = fold (\<lambda>c. log_at (lc_time c) (lc_level c) (lc_file c) (lc_line c) (lc_message c)) cs"

lemma log_at_line:
  "log_at (lc_time c) (lc_level c) (lc_file c) (lc_line c) (lc_message c) l = (if lc_level c < currentLogLevel l then l else emit (log_line c) l)"
  by (simp add: log_at_def log_line_def)

lemma emit_fields [simp]: "currentLogLevel (emit x l) = currentLogLevel l" "lg_file (emit x l) = lg_file l"
  by (simp_all add: emit_def split: option.split)

lemma run_calls_written:
  "lg_written (run_calls cs l) = lg_written l @
     (case lg_file l of None \<Rightarrow> [] | Some f \<Rightarrow> map (\<lambda>c. (f, log_line c)) (filter (\<lambda>c. currentLogLevel l \<le> lc_level c) cs))"
  "lg_console (run_calls cs l) = lg_console l @
     (case lg_file l of None \<Rightarrow> map log_line (filter (\<lambda>c. currentLogLevel l \<le> lc_level c) cs) | Some f \<Rightarrow> [])"
  by (induction cs arbitrary: l) (auto simp: run_calls_def log_at_line not_le emit_def split: option.splits)

text \<open>
  The threshold is respected: of a sequence of calls exactly those at or above the level that was set
  are written, in order and complete, to the log file if one is open and to the console otherwise; the
  level set by the name of a level is that level, and an unknown name means \<^verbatim>\<open>LOG_INFO\<close>.
\<close>

theorem log_threshold:
  "(let l' = run_calls cs (setLogLevel (stringToLogLevel (getLogLevelString level)) l); lines = map log_line (filter (\<lambda>c. level \<le> lc_level c) cs)
    in case lg_file l of
         Some f \<Rightarrow> lg_written l' = lg_written l @ map (Pair f) lines \<and> lg_console l' = lg_console l
       | None \<Rightarrow> lg_console l' = lg_console l @ lines \<and> lg_written l' = lg_written l)"
  by (simp add: run_calls_written setLogLevel_def Let_def comp_def split: option.split)

end
