(* ===== verification/Client_Config.thy ===== *)
theory Client_Config
  imports Complex_Main Vc_Prelude
begin

text \<open>
  The client's settings (\<^verbatim>\<open>src/src/client/ClientConfiguration.h\<close>, \<^verbatim>\<open>ClientConfiguration.cpp\<close>): values from the
  command line, otherwise from \<^verbatim>\<open>config.json\<close>, which is read when the first getter needs it. What the JSON
  library makes of the file is an input. Of the library only the accessors that the getters call are
  modelled (\<^verbatim>\<open>src/src/third_party/json/nlohmann/json.hpp\<close>): the constant \<^verbatim>\<open>operator[]\<close> raises a type error on
  a value that is no object and asserts that the key exists.
\<close>

section \<open>JSON values\<close>

datatype json = JNull | JBoolean bool | JInteger int | JUnsigned u64 | JFloat rat | JString string
  | JArray "json list" | JObject "(string \<times> json) list"

datatype config_error = TypeError | AssertionFailed

definition json_at :: "string \<Rightarrow> json \<Rightarrow> config_error + json" where
  "json_at key j =
     (case j of
        JObject kvs \<Rightarrow> (case map_of kvs key of Some v \<Rightarrow> Inr v | None \<Rightarrow> Inl AssertionFailed)
      | _ \<Rightarrow> Inl TypeError)"

section \<open>The configuration object\<close>

record ClientConfiguration =
  configJson :: json
  cliPeerAddress :: "string option"
  cliPeerTcpPort :: "u16 option"
  cliLocalHostUdpPort :: "u16 option"
  cliClientId :: "u32 option"

definition ClientConfiguration_init :: ClientConfiguration where
  "ClientConfiguration_init = \<lparr>configJson = JNull, cliPeerAddress = None, cliPeerTcpPort = None, cliLocalHostUdpPort = None, cliClientId = None\<rparr>"

definition setSocketAddress :: "string \<Rightarrow> ClientConfiguration \<Rightarrow> ClientConfiguration" where
  "setSocketAddress addr c = c\<lparr>cliPeerAddress := Some addr\<rparr>"

definition setPeerPortNumber :: "u16 \<Rightarrow> ClientConfiguration \<Rightarrow> ClientConfiguration" where
  "setPeerPortNumber port c = c\<lparr>cliPeerTcpPort := Some port\<rparr>"

definition setLocalHostUdpPort :: "u16 \<Rightarrow> ClientConfiguration \<Rightarrow> ClientConfiguration" where
  "setLocalHostUdpPort port c = c\<lparr>cliLocalHostUdpPort := Some port\<rparr>"

definition setClientId :: "u32 \<Rightarrow> ClientConfiguration \<Rightarrow> ClientConfiguration" where
  "setClientId i c = c\<lparr>cliClientId := Some i\<rparr>"

text \<open>The file: absent, parsed to a value, or refused by the parser, which throws.\<close>

datatype config_file = NotFound | Parsed json | Malformed

definition LoadJsonConfig :: "config_file \<Rightarrow> ClientConfiguration \<Rightarrow> ClientConfiguration" where
  "LoadJsonConfig file c =
     c\<lparr>configJson := (case file of Parsed j \<Rightarrow> j | NotFound \<Rightarrow> JObject [] | Malformed \<Rightarrow> JObject [])\<rparr>"

text \<open>The part that the getters share: load the file if that was not done, then look the key up.\<close>

definition config_value :: "config_file \<Rightarrow> string \<Rightarrow> ClientConfiguration \<Rightarrow> (config_error + json option) \<times> ClientConfiguration" where
  "config_value file key c =
     (let c1 = (if configJson c = JNull then LoadJsonConfig file c else c)
      in (if configJson c1 = JNull then Inr None
          else case json_at key (configJson c1) of Inl e \<Rightarrow> Inl e | Inr v \<Rightarrow> Inr (Some v), c1))"

definition getSocketAddress :: "config_file \<Rightarrow> ClientConfiguration \<Rightarrow> (config_error + string) \<times> ClientConfiguration" where
  "getSocketAddress file c =
     (case cliPeerAddress c of
        Some addr \<Rightarrow> (Inr addr, c)
      | None \<Rightarrow>
          let (r, c1) = config_value file ''peerAddress'' c
          in (case r of Inl e \<Rightarrow> Inl e | Inr (Some (JString s)) \<Rightarrow> Inr s | _ \<Rightarrow> Inr ''127.0.0.1'', c1))"

definition getPeerPortNumber :: "config_file \<Rightarrow> ClientConfiguration \<Rightarrow> (config_error + u16) \<times> ClientConfiguration" where
  "getPeerPortNumber file c =
     (case cliPeerTcpPort c of
        Some port \<Rightarrow> (Inr port, c)
      | None \<Rightarrow>
          let (r, c1) = config_value file ''peerTcpPort'' c
          in (case r of Inl e \<Rightarrow> Inl e | Inr (Some (JUnsigned n)) \<Rightarrow> Inr (ucast n) | _ \<Rightarrow> Inr 0, c1))"

definition getLocalHostUdpPort :: "config_file \<Rightarrow> ClientConfiguration \<Rightarrow> (config_error + u16) \<times> ClientConfiguration" where
  "getLocalHostUdpPort file c =
     (case cliLocalHostUdpPort c of
        Some port \<Rightarrow> (Inr port, c)
      | None \<Rightarrow>
          let (r, c1) = config_value file ''localHostUdpPort'' c
          in (case r of Inl e \<Rightarrow> Inl e | Inr (Some (JUnsigned n)) \<Rightarrow> Inr (ucast n) | _ \<Rightarrow> Inr 0, c1))"

definition getClientId :: "config_file \<Rightarrow> ClientConfiguration \<Rightarrow> (config_error + u32) \<times> ClientConfiguration" where
  "getClientId file c =
     (case cliClientId c of
        Some i \<Rightarrow> (Inr i, c)
      | None \<Rightarrow>
          let (r, c1) = config_value file ''clientId'' c
          in (case r of Inl e \<Rightarrow> Inl e | Inr (Some (JUnsigned n)) \<Rightarrow> Inr (ucast n) | _ \<Rightarrow> Inr 0, c1))"

lemmas getter_defs = getSocketAddress_def getPeerPortNumber_def getLocalHostUdpPort_def getClientId_def

section \<open>Where a setting comes from\<close>

text \<open>What all four getters have in common: the file is read at most once and nothing else changes.\<close>

lemma config_value_once:
  "snd (config_value file key c) = (if configJson c = JNull then LoadJsonConfig file c else c)"
  by (simp add: config_value_def Let_def)

lemma config_value_object:
  assumes "configJson c = JObject kvs \<or> configJson c = JNull \<and> file = Parsed (JObject kvs)"
  shows "fst (config_value file key c) = (case map_of kvs key of Some v \<Rightarrow> Inr (Some v) | None \<Rightarrow> Inl AssertionFailed)"
  using assms by (auto simp: config_value_def LoadJsonConfig_def json_at_def split: option.split)

text \<open>The settings that the client uses, read one after the other.\<close>

definition read_settings :: "config_file \<Rightarrow> ClientConfiguration \<Rightarrow> (config_error + string) \<times> (config_error + u16) \<times> (config_error + u16) \<times> (config_error + u32)" where
  "read_settings file c =
     (let (addr, c1) = getSocketAddress file c; (port, c2) = getPeerPortNumber file c1;
          (udp, c3) = getLocalHostUdpPort file c2; (cid, c4) = getClientId file c3
      in (addr, port, udp, cid))"

lemma snd_getters:
  "snd (getSocketAddress file c) = (if cliPeerAddress c = None \<and> configJson c = JNull then LoadJsonConfig file c else c)"
  "snd (getPeerPortNumber file c) = (if cliPeerTcpPort c = None \<and> configJson c = JNull then LoadJsonConfig file c else c)"
  "snd (getLocalHostUdpPort file c) = (if cliLocalHostUdpPort c = None \<and> configJson c = JNull then LoadJsonConfig file c else c)"
  "snd (getClientId file c) = (if cliClientId c = None \<and> configJson c = JNull then LoadJsonConfig file c else c)"
  by (simp_all add: getter_defs split_beta config_value_once split: option.split)

lemma LoadJsonConfig_fields [simp]:
  "cliPeerAddress (LoadJsonConfig file c) = cliPeerAddress c" "cliPeerTcpPort (LoadJsonConfig file c) = cliPeerTcpPort c"
  "cliLocalHostUdpPort (LoadJsonConfig file c) = cliLocalHostUdpPort c" "cliClientId (LoadJsonConfig file c) = cliClientId c"
  by (simp_all add: LoadJsonConfig_def)

lemma config_value_loaded:
  assumes "configJson c = JNull \<or> configJson c = JObject kvs" and "file = Parsed (JObject kvs)"
  shows "fst (config_value file key c) = (case map_of kvs key of Some v \<Rightarrow> Inr (Some v) | None \<Rightarrow> Inl AssertionFailed)"
    and "configJson (LoadJsonConfig file c) = JObject kvs"
  using assms config_value_object by (auto simp: LoadJsonConfig_def)

text \<open>
  C40: precedence of the settings. A value given on the command line is what the getter returns,
  whatever the file says; without one it is the value of a complete \<^verbatim>\<open>config.json\<close>, the ports reduced modulo
  two to the power of 16 and the id modulo two to the power of 32. The getters are called one after the
  other and agree on the content of the file, which is read at most once.
\<close>

theorem setting_precedence:
  assumes "configJson c = JNull" and "file = Parsed (JObject kvs)"
    and "map_of kvs ''peerAddress'' = Some (JString s)" and "map_of kvs ''peerTcpPort'' = Some (JUnsigned p)"
    and "map_of kvs ''localHostUdpPort'' = Some (JUnsigned u)" and "map_of kvs ''clientId'' = Some (JUnsigned i)"
  shows "read_settings file c =
    (Inr (case cliPeerAddress c of Some a \<Rightarrow> a | None \<Rightarrow> s), Inr (case cliPeerTcpPort c of Some a \<Rightarrow> a | None \<Rightarrow> ucast p),
     Inr (case cliLocalHostUdpPort c of Some a \<Rightarrow> a | None \<Rightarrow> ucast u), Inr (case cliClientId c of Some a \<Rightarrow> a | None \<Rightarrow> ucast i))"
proof -
  let ?ok = "\<lambda>c'. configJson c' = JNull \<or> configJson c' = JObject kvs"
  have get: "fst (getSocketAddress file c') = Inr (case cliPeerAddress c' of Some a \<Rightarrow> a | None \<Rightarrow> s)"
    "fst (getPeerPortNumber file c') = Inr (case cliPeerTcpPort c' of Some a \<Rightarrow> a | None \<Rightarrow> ucast p)"
    "fst (getLocalHostUdpPort file c') = Inr (case cliLocalHostUdpPort c' of Some a \<Rightarrow> a | None \<Rightarrow> ucast u)"
    "fst (getClientId file c') = Inr (case cliClientId c' of Some a \<Rightarrow> a | None \<Rightarrow> ucast i)" if "?ok c'" for c'
    using config_value_loaded(1) [OF that assms(2)] assms(3-6) by (simp_all add: getter_defs split_beta split: option.split)
  have step: "?ok (if b then LoadJsonConfig file c' else c')" if "?ok c'" for b c' using that config_value_loaded(2) [OF that assms(2)] by simp
  define c1 where "c1 = snd (getSocketAddress file c)"
  define c2 where "c2 = snd (getPeerPortNumber file c1)"
  define c3 where "c3 = snd (getLocalHostUdpPort file c2)"
  have ok: "?ok c" "?ok c1" "?ok c2" "?ok c3" using assms(1) step unfolding c1_def c2_def c3_def snd_getters by blast+
  have same: "cliPeerTcpPort c1 = cliPeerTcpPort c" "cliLocalHostUdpPort c2 = cliLocalHostUdpPort c" "cliClientId c3 = cliClientId c"
    by (simp_all add: c1_def c2_def c3_def snd_getters)
  have "read_settings file c = (fst (getSocketAddress file c), fst (getPeerPortNumber file c1), fst (getLocalHostUdpPort file c2), fst (getClientId file c3))"
    by (simp add: read_settings_def split_beta c1_def c2_def c3_def)
  then show ?thesis using get [OF ok(1)] get [OF ok(2)] get [OF ok(3)] get [OF ok(4)] same by simp
qed

definition example_config :: "(string \<times> json) list" where
  "example_config = [(''peerAddress'', JString ''10.0.0.1''), (''peerTcpPort'', JUnsigned 7001), (''localHostUdpPort'', JUnsigned 65537), (''clientId'', JUnsigned 5)]"

theorem setting_precedence_witness:
  "read_settings (Parsed (JObject example_config)) (setPeerPortNumber 9000 ClientConfiguration_init) = (Inr ''10.0.0.1'', Inr 9000, Inr 1, Inr 5)"
  using setting_precedence [of "setPeerPortNumber 9000 ClientConfiguration_init" "Parsed (JObject example_config)" example_config "''10.0.0.1''" 7001 65537 5]
  by (simp add: example_config_def setPeerPortNumber_def ClientConfiguration_init_def)

text \<open>
  The defaults of the getters (the address 127.0.0.1, port 0, id 0) are out of reach for a setting that is
  missing: without the file, or with a file that lacks the key, the access to the missing key ends
  in the assertion of the JSON library. They are returned only for a key whose value has the wrong type.
\<close>

theorem missing_setting_asserts:
  assumes "configJson c = JNull" and "file = NotFound \<or> file = Malformed \<or> (\<exists>kvs. file = Parsed (JObject kvs) \<and> map_of kvs ''peerAddress'' = None)"
    and "cliPeerAddress c = None"
  shows "fst (getSocketAddress file c) = Inl AssertionFailed"
  using assms by (auto simp: getSocketAddress_def split_beta config_value_def LoadJsonConfig_def json_at_def)

theorem missing_setting_asserts_witness: "fst (getSocketAddress NotFound ClientConfiguration_init) = Inl AssertionFailed"
  by (rule missing_setting_asserts) (simp_all add: ClientConfiguration_init_def)

end
