(* ===== verification/Command_Line.thy ===== *)
theory Command_Line
  imports Number_Text Logging Client_Config Server
begin

text \<open>
  The command lines of the two programs (\<^verbatim>\<open>src/src/client/main.cpp\<close>, \<^verbatim>\<open>src/src/server/main.cpp\<close>): the loop over
  the arguments, which are given without the name of the program. An exception of a number conversion
  is not caught and ends the program. The property relates the loop to an abstract syntax of options.
\<close>

section \<open>The loops\<close>

datatype 'c startup = Usage | Uncaught number_error | Run LogLevel 'c

text \<open>\<^verbatim>\<open>arg.find(name) == 0\<close> and the substring behind the name.\<close>

definition option_value :: "string \<Rightarrow> string \<Rightarrow> string option" where
  "option_value name arg = (if take (length name) arg = name then Some (drop (length name) arg) else None)"

fun client_args :: "string list \<Rightarrow> LogLevel \<Rightarrow> ClientConfiguration \<Rightarrow> ClientConfiguration startup" where
  "client_args [] logLevel c = Run logLevel c"
| "client_args (arg # args) logLevel c =
     (if arg = ''--help'' then Usage
      else case option_value ''--log-level='' arg of
        Some levelStr \<Rightarrow> client_args args (stringToLogLevel levelStr) c
      | None \<Rightarrow> (case option_value ''--peer-address='' arg of
        Some addr \<Rightarrow> client_args args logLevel (setSocketAddress addr c)
      | None \<Rightarrow> (case option_value ''--peer-port='' arg of
        Some s \<Rightarrow> (case stoi s of Inl e \<Rightarrow> Uncaught e | Inr port \<Rightarrow> client_args args logLevel (setPeerPortNumber (word_of_int port) c))
      | None \<Rightarrow> (case option_value ''--local-udp-port='' arg of
        Some s \<Rightarrow> (case stoi s of Inl e \<Rightarrow> Uncaught e | Inr port \<Rightarrow> client_args args logLevel (setLocalHostUdpPort (word_of_int port) c))
      | None \<Rightarrow> (case option_value ''--client-id='' arg of
        Some s \<Rightarrow> (case stoul s of Inl e \<Rightarrow> Uncaught e | Inr i \<Rightarrow> client_args args logLevel (setClientId (ucast i) c))
      | None \<Rightarrow> client_args args logLevel c)))))"

definition client_startup :: "string list \<Rightarrow> ClientConfiguration startup" where
  "client_startup args = client_args args LOG_INFO ClientConfiguration_init"

fun server_args :: "string list \<Rightarrow> LogLevel \<Rightarrow> ServerConfiguration \<Rightarrow> ServerConfiguration startup" where
  "server_args [] logLevel c = Run logLevel c"
| "server_args (arg # args) logLevel c =
     (if arg = ''--help'' then Usage
      else case option_value ''--log-level='' arg of
        Some levelStr \<Rightarrow> server_args args (stringToLogLevel levelStr) c
      | None \<Rightarrow> (case option_value ''--port='' arg of
        Some s \<Rightarrow> (case stoi s of Inl e \<Rightarrow> Uncaught e | Inr port \<Rightarrow> server_args args logLevel (setPortNumber port c))
      | None \<Rightarrow> (case option_value ''--udp-target-port='' arg of
        Some s \<Rightarrow> (case stoi s of Inl e \<Rightarrow> Uncaught e | Inr port \<Rightarrow> server_args args logLevel (setUdpTargetPort port c))
      | None \<Rightarrow> server_args args logLevel c)))"

definition server_startup :: "string list \<Rightarrow> ServerConfiguration startup" where
  "server_startup args = server_args args LOG_INFO ServerConfiguration_init"

section \<open>Usage texts\<close>

definition client_usage :: "string \<Rightarrow> string list" where
  "client_usage programName =
     [''Usage: '' @ programName @ '' [options]'', ''Options:'',
      ''  --log-level=LEVEL       Set log level (DEBUG, INFO, WARNING, ERROR)'',
      ''  --peer-address=ADDR     Server TCP address (default: from config.json)'',
      ''  --peer-port=PORT        Server TCP port (default: from config.json)'',
      ''  --local-udp-port=PORT   Local UDP bind port (default: from config.json)'',
      ''  --client-id=ID          Client ID (default: from config.json)'',
      ''  --help                  Display this help message'']"

definition server_usage :: "string \<Rightarrow> string list" where
  "server_usage programName =
     [''Usage: '' @ programName @ '' [options]'', ''Options:'',
      ''  --log-level=LEVEL       Set log level (DEBUG, INFO, WARNING, ERROR)'',
      ''  --port=PORT             TCP listen port (default: 7001)'',
      ''  --udp-target-port=PORT  UDP target port for outgoing data (default: same as --port)'',
      ''  --help                  Display this help message'']"

text \<open>The option that a line of the list describes: the text up to the sign of equality or the next space.\<close>

definition described_option :: "string \<Rightarrow> string" where
  "described_option line =
     (let w = takeWhile (\<lambda>c. c \<noteq> CHR '' '') (drop 2 line)
      in if CHR ''='' \<in> set w then takeWhile (\<lambda>c. c \<noteq> CHR ''='') w @ ''='' else w)"

section \<open>Options as data\<close>

datatype client_option = CLogLevel LogLevel | CPeerAddress string | CPeerPort u16 | CLocalUdpPort u16 | CClientId u32 | COther string

fun show_client_option :: "client_option \<Rightarrow> string" where
  "show_client_option (CLogLevel l) = ''--log-level='' @ getLogLevelString l"
| "show_client_option (CPeerAddress a) = ''--peer-address='' @ a"
| "show_client_option (CPeerPort p) = ''--peer-port='' @ decimal (unat p)"
| "show_client_option (CLocalUdpPort p) = ''--local-udp-port='' @ decimal (unat p)"
| "show_client_option (CClientId i) = ''--client-id='' @ decimal (unat i)"
| "show_client_option (COther s) = s"

fun set_client_option :: "client_option \<Rightarrow> LogLevel \<times> ClientConfiguration \<Rightarrow> LogLevel \<times> ClientConfiguration" where
  "set_client_option (CLogLevel l) (k, c) = (l, c)"
| "set_client_option (CPeerAddress a) (k, c) = (k, c\<lparr>cliPeerAddress := Some a\<rparr>)"
| "set_client_option (CPeerPort p) (k, c) = (k, c\<lparr>cliPeerTcpPort := Some p\<rparr>)"
| "set_client_option (CLocalUdpPort p) (k, c) = (k, c\<lparr>cliLocalHostUdpPort := Some p\<rparr>)"
| "set_client_option (CClientId i) (k, c) = (k, c\<lparr>cliClientId := Some i\<rparr>)"
| "set_client_option (COther s) (k, c) = (k, c)"

definition client_option_names :: "string list" where
  "client_option_names = [''--log-level='', ''--peer-address='', ''--peer-port='', ''--local-udp-port='', ''--client-id='']"

fun client_option_ok :: "client_option \<Rightarrow> bool" where
  "client_option_ok (COther s) \<longleftrightarrow> s \<noteq> ''--help'' \<and> (\<forall>name \<in> set client_option_names. option_value name s = None)"
| "client_option_ok _ \<longleftrightarrow> True"

definition server_option_names :: "string list" where
  "server_option_names = [''--log-level='', ''--port='', ''--udp-target-port='']"

text \<open>The usage texts list exactly the options that the loops look for, in the same order.\<close>

lemma usage_complete:
  "map described_option (drop 2 (client_usage p)) = client_option_names @ [''--help'']"
  "map described_option (drop 2 (server_usage p)) = server_option_names @ [''--help'']"
  by (simp_all add: client_usage_def server_usage_def described_option_def client_option_names_def server_option_names_def Let_def)

text \<open>An argument that is none of them is ignored.\<close>

lemma unknown_ignored:
  "a \<noteq> ''--help'' \<Longrightarrow> \<forall>name \<in> set client_option_names. option_value name a = None \<Longrightarrow> client_args (a # as) l c = client_args as l c"
  "a \<noteq> ''--help'' \<Longrightarrow> \<forall>name \<in> set server_option_names. option_value name a = None \<Longrightarrow> server_args (a # as) l sc = server_args as l sc"
  by (simp_all add: client_option_names_def server_option_names_def)

text \<open>
  The usage text of the server says that the target port follows \<^verbatim>\<open>--port\<close>; it keeps its own default.
\<close>

lemma target_port_default: "server_startup [''--port=9000''] = Run LOG_INFO \<lparr>portNumber = 9000, udpTargetPort = 7001\<rparr>"
  by code_simp

datatype server_option = SLogLevel LogLevel | SPort nat | SUdpTargetPort nat

fun show_server_option :: "server_option \<Rightarrow> string" where
  "show_server_option (SLogLevel l) = ''--log-level='' @ getLogLevelString l"
| "show_server_option (SPort p) = ''--port='' @ decimal p"
| "show_server_option (SUdpTargetPort p) = ''--udp-target-port='' @ decimal p"

fun set_server_option :: "server_option \<Rightarrow> LogLevel \<times> ServerConfiguration \<Rightarrow> LogLevel \<times> ServerConfiguration" where
  "set_server_option (SLogLevel l) (k, c) = (l, c)"
| "set_server_option (SPort p) (k, c) = (k, c\<lparr>portNumber := int p\<rparr>)"
| "set_server_option (SUdpTargetPort p) (k, c) = (k, c\<lparr>udpTargetPort := int p\<rparr>)"

fun server_option_ok :: "server_option \<Rightarrow> bool" where
  "server_option_ok (SPort p) \<longleftrightarrow> p < 2 ^ 31"
| "server_option_ok (SUdpTargetPort p) \<longleftrightarrow> p < 2 ^ 31"
| "server_option_ok _ \<longleftrightarrow> True"

section \<open>Reading what was written\<close>

lemma option_value_own [simp]: "option_value name (name @ v) = Some v"
  by (simp add: option_value_def)

lemma unat_port: "unat (p :: u16) < 2 ^ 31" "unat (i :: u32) < 2 ^ 64"
  using unat_less_2p [of p] unat_less_2p [of i] by simp_all

lemma id_cast [simp]: "(ucast (ucast (i :: u32) :: u64) :: u32) = i"
  by (rule bit_word_eqI) (simp add: bit_simps)

lemma client_args_option:
  assumes "client_option_ok x"
  shows "client_args (show_client_option x # args) k c = (case set_client_option x (k, c) of (k', c') \<Rightarrow> client_args args k' c')"
proof (cases x)
  case (CPeerPort p)
  have "stoi (decimal (unat p)) = Inr (int (unat p))" by (rule stoi_decimal) (rule unat_port)
  then show ?thesis using CPeerPort by (simp add: option_value_def setPeerPortNumber_def)
next
  case (CLocalUdpPort p)
  have "stoi (decimal (unat p)) = Inr (int (unat p))" by (rule stoi_decimal) (rule unat_port)
  then show ?thesis using CLocalUdpPort by (simp add: option_value_def setLocalHostUdpPort_def)
next
  case (CClientId i)
  have "stoul (decimal (unat i)) = Inr (word_of_nat (unat i))" by (rule stoul_decimal) (rule unat_port)
  then show ?thesis using CClientId by (simp add: option_value_def setClientId_def)
next
  case (COther s)
  then show ?thesis using assms by (simp add: client_option_names_def)
qed (simp_all add: option_value_def setSocketAddress_def)

lemma client_args_options:
  "list_all client_option_ok xs \<Longrightarrow>
   client_args (map show_client_option xs @ rest) k c = (case fold set_client_option xs (k, c) of (k', c') \<Rightarrow> client_args rest k' c')"
proof (induction xs arbitrary: k c)
  case (Cons x xs)
  obtain k1 c1 where s: "set_client_option x (k, c) = (k1, c1)" by fastforce
  then show ?case using Cons client_args_option [of x "map show_client_option xs @ rest" k c] by (simp del: client_args.simps)
qed simp

lemma server_args_options:
  "list_all server_option_ok xs \<Longrightarrow>
   server_args (map show_server_option xs @ rest) k c = (case fold set_server_option xs (k, c) of (k', c') \<Rightarrow> server_args rest k' c')"
proof (induction xs arbitrary: k c)
  case (Cons x xs)
  then show ?case by (cases x) (simp_all add: option_value_def setPortNumber_def setUdpTargetPort_def)
qed simp



text \<open>
  A number that cannot be converted ends either program before it does anything, whatever options come
  first and whatever follows; so does the request for help.
\<close>

theorem bad_number_aborts:
  assumes "list_all client_option_ok xs" and "stoi v = Inl e"
  shows "client_startup (map show_client_option xs @ (''--peer-port='' @ v) # rest) = Uncaught e"
    and "client_startup (map show_client_option xs @ ''--help'' # rest) = Usage"
  using client_args_options [OF assms(1)] assms(2) by (simp_all add: client_startup_def option_value_def split_beta)

lemma bad_number_aborts_witness: "client_startup [''--peer-port=x''] = Uncaught InvalidArgument"
proof -
  have "stoi ''x'' = Inl InvalidArgument" by (simp add: stoi_def scan_number_def is_space_def is_digit_def)
  from bad_number_aborts(1) [OF _ this, of "[]" "[]"] show ?thesis by simp
qed

text \<open>Port numbers have no range check: the client keeps the low 16 bits.\<close>

lemma port_wraps: "client_startup [''--peer-port=65616''] = Run LOG_INFO (ClientConfiguration_init\<lparr>cliPeerTcpPort := Some 80\<rparr>)"
  by (simp add: client_startup_def option_value_def stoi_def scan_number_def is_space_def is_digit_def digits_value_def digit_value_def setPeerPortNumber_def)

end
