(* ===== verification/Data_Pipeline.thy ===== *)
theory Data_Pipeline
  imports Blocking_Queue Stopable_Thread Double_Rounding
begin

text \<open>
  Building blocks of \<^verbatim>\<open>src/src/common\<close> beside the channel: \<^verbatim>\<open>Counter.h\<close>, \<^verbatim>\<open>DataNotifier\<close>, \<^verbatim>\<open>QueueManager\<close>,
  \<^verbatim>\<open>DataProcessorContext\<close>, \<^verbatim>\<open>DataProcessorThread\<close> and \<^verbatim>\<open>PerformanceCounter\<close>. The interfaces \<^verbatim>\<open>IDataReader\<close>,
  \<^verbatim>\<open>IDataProcessor\<close> and \<^verbatim>\<open>DataProcessorState\<close> have no implementation in the sources: what their methods
  answer is an input.
\<close>

section \<open>Counter\<close>

text \<open>The template is instantiated with an unsigned type; increments wrap.\<close>

definition getAndIncrement :: "'a :: len word \<Rightarrow> 'a word \<times> 'a word" where
  "getAndIncrement count = (count, count + 1)"

definition incrementAndGet :: "'a :: len word \<Rightarrow> 'a word \<times> 'a word" where
  "incrementAndGet count = (count + 1, count + 1)"

definition counter_reset :: "'a :: len word \<Rightarrow> 'a word" where
  "counter_reset count = 0"

definition counter_get :: "'a :: len word \<Rightarrow> 'a word" where
  "counter_get count = count"

fun take_numbers :: "nat \<Rightarrow> 'a :: len word \<Rightarrow> 'a word list" where
  "take_numbers 0 count = []"
| "take_numbers (Suc n) count = (let (r, count') = getAndIncrement count in r # take_numbers n count')"

lemma take_numbers_upt: "take_numbers n count = map (\<lambda>i. count + word_of_nat i) [0..<n]"
proof (induction n arbitrary: count)
  case (Suc n)
  have "map (\<lambda>i. count + word_of_nat i) [0..<Suc n] = count # map (\<lambda>i. count + 1 + word_of_nat i) [0..<n]"
    by (simp add: upt_conv_Cons map_Suc_upt [symmetric] comp_def add.assoc del: upt_Suc map_Suc_upt)
  then show ?case using Suc by (simp add: getAndIncrement_def)
qed simp

text \<open>Numbers drawn from a counter are pairwise different until it has gone round.\<close>

lemma counter_distinct:
  assumes "n \<le> 2 ^ LENGTH('a :: len)"
  shows "distinct (take_numbers n (count :: 'a word))"
proof -
  have "take_bit LENGTH('a) x = x" if "x < n" for x :: nat using that assms by (simp add: take_bit_nat_eq_self_iff)
  then show ?thesis by (auto simp: take_numbers_upt distinct_map inj_on_def word_of_nat_eq_iff)
qed

section \<open>Notifier\<close>

text \<open>\<open>dn_calls\<close> lists the calls of listeners that were made.\<close>

record 'l DataNotifier =
  dn_listeners :: "'l list"
  dn_calls :: "('l \<times> u64) list"

definition addListener :: "'l \<Rightarrow> 'l DataNotifier \<Rightarrow> 'l DataNotifier" where
  "addListener listener d = d\<lparr>dn_listeners := dn_listeners d @ [listener]\<rparr>"

definition onDataReceived :: "u64 \<Rightarrow> 'l DataNotifier \<Rightarrow> 'l DataNotifier" where
  "onDataReceived i d = d\<lparr>dn_calls := dn_calls d @ map (\<lambda>l. (l, i)) (dn_listeners d)\<rparr>"

section \<open>Queue manager\<close>

text \<open>The queues live in a store; the two maps of the manager hold their addresses.\<close>

record 'a QueueManager =
  qm_store :: "'a BlockingQueue list"
  tcpToUdpQueues :: "(int, nat) umap"
  udpToTcpQueues :: "(int, nat) umap"

definition QueueManager_init :: "'a QueueManager" where
  "QueueManager_init = \<lparr>qm_store = [], tcpToUdpQueues = [], udpToTcpQueues = []\<rparr>"

definition getQueueForClient :: "int \<Rightarrow> (int, nat) umap \<Rightarrow> 'a BlockingQueue list \<Rightarrow> nat \<times> (int, nat) umap \<times> 'a BlockingQueue list" where
  "getQueueForClient clientId queueMap store =
     (case map_of queueMap clientId of
        Some q \<Rightarrow> (q, queueMap, store)
      | None \<Rightarrow> (length store, AList.update clientId (length store) queueMap, store @ [BlockingQueue_init]))"

definition getTcpToUdpQueueForClient :: "int \<Rightarrow> 'a QueueManager \<Rightarrow> nat \<times> 'a QueueManager" where
  "getTcpToUdpQueueForClient clientId m =
     (let (q, qs, st) = getQueueForClient clientId (tcpToUdpQueues m) (qm_store m) in (q, m\<lparr>tcpToUdpQueues := qs, qm_store := st\<rparr>))"

definition getUdpToTcpQueueForClient :: "int \<Rightarrow> 'a QueueManager \<Rightarrow> nat \<times> 'a QueueManager" where
  "getUdpToTcpQueueForClient clientId m =
     (let (q, qs, st) = getQueueForClient clientId (udpToTcpQueues m) (qm_store m) in (q, m\<lparr>udpToTcpQueues := qs, qm_store := st\<rparr>))"

text \<open>A request names a direction and a client; the answers of a sequence of requests.\<close>

definition get_queue :: "bool \<times> int \<Rightarrow> 'a QueueManager \<Rightarrow> nat \<times> 'a QueueManager" where
  "get_queue = (\<lambda>(up, clientId). if up then getUdpToTcpQueueForClient clientId else getTcpToUdpQueueForClient clientId)"

fun get_queues :: "(bool \<times> int) list \<Rightarrow> 'a QueueManager \<Rightarrow> nat list \<times> 'a QueueManager" where
  "get_queues [] m = ([], m)"
| "get_queues (r # rs) m = (let (q, m1) = get_queue r m; (qs, m2) = get_queues rs m1 in (q # qs, m2))"

definition queue_at :: "'a QueueManager \<Rightarrow> bool \<times> int \<Rightarrow> nat option" where
  "queue_at m = (\<lambda>(up, clientId). map_of (if up then udpToTcpQueues m else tcpToUdpQueues m) clientId)"

definition qm_inv :: "'a QueueManager \<Rightarrow> bool" where
  "qm_inv m \<longleftrightarrow> (\<forall>r q. queue_at m r = Some q \<longrightarrow> q < length (qm_store m)) \<and>
     (\<forall>r r' q. queue_at m r = Some q \<longrightarrow> queue_at m r' = Some q \<longrightarrow> r = r')"

lemma get_queue_spec:
  assumes "get_queue r m = (q, m')" and "qm_inv m"
  shows "qm_inv m'" and "queue_at m' r = Some q" and "queue_at m r' = Some q' \<Longrightarrow> queue_at m' r' = Some q'"
proof -
  obtain up cid where r: "r = (up, cid)" by fastforce
  have at: "queue_at m' = (case queue_at m r of Some q \<Rightarrow> queue_at m | None \<Rightarrow> (queue_at m)(r \<mapsto> length (qm_store m)))"
    "q = (case queue_at m r of Some q \<Rightarrow> q | None \<Rightarrow> length (qm_store m))"
    "length (qm_store m') = (case queue_at m r of Some q \<Rightarrow> length (qm_store m) | None \<Rightarrow> Suc (length (qm_store m)))"
    using assms(1) by (auto simp: r get_queue_def queue_at_def getUdpToTcpQueueForClient_def getTcpToUdpQueueForClient_def
        getQueueForClient_def Let_def fun_eq_iff split: option.splits if_splits)
  show "queue_at m' r = Some q" and "queue_at m r' = Some q' \<Longrightarrow> queue_at m' r' = Some q'"
    using at by (auto split: option.splits)
  show "qm_inv m'"
  proof (cases "queue_at m r")
    case None
    have fresh: "queue_at m x \<noteq> Some (length (qm_store m))" for x using assms(2) unfolding qm_inv_def by blast
    show ?thesis using assms(2) at None fresh unfolding qm_inv_def by (auto simp: less_Suc_eq split: if_splits)
  qed (use assms(2) at in \<open>simp add: qm_inv_def\<close>)
qed

lemma get_queues_spec:
  "get_queues rs m = (qs, m') \<Longrightarrow> qm_inv m \<Longrightarrow>
   qm_inv m' \<and> length qs = length rs \<and> (\<forall>i < length rs. queue_at m' (rs ! i) = Some (qs ! i)) \<and> (\<forall>r q. queue_at m r = Some q \<longrightarrow> queue_at m' r = Some q)"
proof (induction rs arbitrary: m qs)
  case (Cons r rs)
  obtain q m1 qs1 where s: "get_queue r m = (q, m1)" "get_queues rs m1 = (qs1, m')" "qs = q # qs1"
    using Cons.prems(1) by (auto simp: Let_def split: prod.splits)
  note g = get_queue_spec [OF s(1) Cons.prems(2)]
  note IH = Cons.IH [OF s(2) g(1)]
  then have "queue_at m' r = Some q" using g(2) by blast
  with IH g(3) show ?case by (auto simp: s(3) nth_Cons split: nat.splits)
qed simp

text \<open>
  Every client has one queue per direction of its own: in any sequence of requests two requests get the
  same queue exactly if they name the same direction and the same client.
\<close>

theorem queues_per_client:
  assumes "get_queues rs QueueManager_init = (qs, m)" and "i < length rs" and "j < length rs"
  shows "(qs ! i = qs ! j) = (rs ! i = rs ! j)" and "qs ! i < length (qm_store m)"
proof -
  have "qm_inv QueueManager_init" by (simp add: qm_inv_def queue_at_def QueueManager_init_def split: prod.splits)
  from get_queues_spec [OF assms(1) this] have inv: "qm_inv m" and at: "queue_at m (rs ! i) = Some (qs ! i)" "queue_at m (rs ! j) = Some (qs ! j)"
    using assms(2,3) by auto
  show "(qs ! i = qs ! j) = (rs ! i = rs ! j)" using inv at unfolding qm_inv_def by (metis option.inject)
  show "qs ! i < length (qm_store m)" using inv at unfolding qm_inv_def by blast
qed

section \<open>Processing data\<close>

text \<open>
  \<^verbatim>\<open>DataProcessorContext\<close>: the pointer to the current state; \<open>process\<close> and \<open>transition\<close> are the virtual
  methods of the state object.
\<close>

definition ctx_setState :: "'s option \<Rightarrow> 's option \<Rightarrow> 's option" where
  "ctx_setState state currentState = state"

definition ctx_processData :: "('s \<Rightarrow> bytes \<Rightarrow> 's) \<Rightarrow> bytes \<Rightarrow> 's option \<Rightarrow> string + 's option" where
  "ctx_processData process data currentState =
     (case currentState of Some s \<Rightarrow> Inr (Some (process s data)) | None \<Rightarrow> Inl ''No state set for DataProcessorContext'')"

definition ctx_transitionToNextState :: "('s \<Rightarrow> 's) \<Rightarrow> 's option \<Rightarrow> string + 's option" where
  "ctx_transitionToNextState transition currentState =
     (case currentState of Some s \<Rightarrow> Inr (Some (transition s)) | None \<Rightarrow> Inl ''No state set for DataProcessorContext'')"

definition ctx_getCurrentStateName :: "('s \<Rightarrow> string) \<Rightarrow> 's option \<Rightarrow> string" where
  "ctx_getCurrentStateName name currentState = (case currentState of Some s \<Rightarrow> name s | None \<Rightarrow> ''No State Set'')"

text \<open>
  \<^verbatim>\<open>DataProcessorThread\<close>: what one round of the loop sees. \<open>dp_read\<close> is \<open>Inl\<close> when \<^verbatim>\<open>readData\<close> throws and
  \<open>Inr None\<close> when it returns a null pointer; \<open>dp_throws\<close> says that \<^verbatim>\<open>processData\<close> throws.
\<close>

record dp_turn =
  dp_running :: bool
  dp_hasMore :: bool
  dp_read :: "unit + bytes option"
  dp_throws :: bool

text \<open>The data handed to the processor and the thread at the end; \<open>None\<close>: the loop still runs.\<close>

fun dp_run :: "dp_turn list \<Rightarrow> StopableThread \<Rightarrow> (bytes list \<times> StopableThread) option" where
  "dp_run [] t = None"
| "dp_run (u # us) t =
     (if dp_running u \<and> dp_hasMore u
      then case dp_read u of
             Inl _ \<Rightarrow> Some ([], setRunning False t)
           | Inr data \<Rightarrow>
               (case data of
                  Some d \<Rightarrow>
                    if length d > 0
                    then if dp_throws u then Some ([d], setRunning False t)
                         else map_option (\<lambda>(ds, t'). (d # ds, t')) (dp_run us t)
                    else dp_run us t
                | None \<Rightarrow> dp_run us t)
      else Some ([], t))"

definition dp_data :: "dp_turn \<Rightarrow> bytes list" where
  "dp_data u = (case dp_read u of Inr (Some d) \<Rightarrow> if d = [] then [] else [d] | _ \<Rightarrow> [])"

text \<open>
  The loop ends at the first round that finds the thread stopped or no data, or in which a method
  throws; up to there every non-empty block was processed once and in order.
\<close>

lemma dp_run_prefix:
  assumes "\<forall>u \<in> set us. dp_running u \<and> dp_hasMore u \<and> (\<exists>x. dp_read u = Inr x) \<and> \<not> dp_throws u"
  shows "dp_run (us @ ws) t = map_option (\<lambda>(ds, t'). (concat (map dp_data us) @ ds, t')) (dp_run ws t)"
  using assms
proof (induction us)
  case Nil
  show ?case by (cases "dp_run ws t") simp_all
next
  case (Cons u us)
  have IH: "dp_run (us @ ws) t = map_option (\<lambda>(ds, t'). (concat (map dp_data us) @ ds, t')) (dp_run ws t)"
    by (rule Cons.IH) (use Cons.prems in simp)
  from Cons.prems obtain x where u: "dp_running u" "dp_hasMore u" "dp_read u = Inr x" "\<not> dp_throws u" by auto
  show ?case
  proof (cases x)
    case None
    with u have "dp_data u = []" by (simp add: dp_data_def)
    with u None show ?thesis by (simp add: IH)
  next
    case (Some d)
    with u have "dp_data u = (if d = [] then [] else [d])" by (simp add: dp_data_def)
    with u Some show ?thesis by (cases "dp_run ws t") (simp_all add: IH split_beta)
  qed
qed

theorem processes_in_order:
  assumes "\<forall>u \<in> set us. dp_running u \<and> dp_hasMore u \<and> (\<exists>x. dp_read u = Inr x) \<and> \<not> dp_throws u"
  shows "\<not> dp_running w \<or> \<not> dp_hasMore w \<Longrightarrow> dp_run (us @ w # ws) t = Some (concat (map dp_data us), t)"
    and "dp_running w \<and> dp_hasMore w \<and> dp_read w = Inl () \<Longrightarrow>
      dp_run (us @ w # ws) t = Some (concat (map dp_data us), setRunning False t)"
    and "dp_running w \<and> dp_hasMore w \<and> dp_throws w \<and> dp_data w = [d] \<Longrightarrow>
      dp_run (us @ w # ws) t = Some (concat (map dp_data us) @ [d], setRunning False t)"
  using dp_run_prefix [OF assms, of "w # ws" t] by (auto simp: dp_data_def split: sum.splits option.splits if_splits)

section \<open>Performance counter\<close>

text \<open>Times are values of type \<^verbatim>\<open>double\<close>; \<open>fl\<close> is the rounding of its operations. The call counter is an \<^verbatim>\<open>int\<close>.\<close>

definition DBL_MAX :: rat where
  "DBL_MAX = (2 ^ 53 - 1) * 2 ^ 971"

record PerformanceCounter =
  minTime :: rat
  maxTime :: rat
  totalTime :: rat
  callCount :: int
  startTime :: rat

definition PerformanceCounter_init :: PerformanceCounter where
  "PerformanceCounter_init = \<lparr>minTime = DBL_MAX, maxTime = - DBL_MAX, totalTime = 0, callCount = 0, startTime = 0\<rparr>"

definition perf_Enter :: "rat \<Rightarrow> PerformanceCounter \<Rightarrow> PerformanceCounter" where
  "perf_Enter now p = p\<lparr>startTime := now\<rparr>"

text \<open>The result says whether the warning about a slow call is printed.\<close>

definition perf_Exit :: "(rat \<Rightarrow> rat) \<Rightarrow> rat \<Rightarrow> PerformanceCounter \<Rightarrow> (bool \<times> PerformanceCounter) outcome" where
  "perf_Exit fl endTime p =
     (let elapsedTime = fl (endTime - startTime p)
      in if callCount p = 2 ^ 31 - 1 then Inl SignedOverflow
         else Inr (elapsedTime > fl (2 / 100),
                   p\<lparr>minTime := (if elapsedTime < minTime p then elapsedTime else minTime p),
                     maxTime := (if elapsedTime > maxTime p then elapsedTime else maxTime p),
                     totalTime := fl (totalTime p + elapsedTime), callCount := callCount p + 1\<rparr>))"

definition GetMinTime :: "PerformanceCounter \<Rightarrow> rat" where
  "GetMinTime p = (if callCount p > 0 then minTime p else 0)"

definition GetMaxTime :: "PerformanceCounter \<Rightarrow> rat" where
  "GetMaxTime p = (if callCount p > 0 then maxTime p else 0)"

definition GetAverageTime :: "(rat \<Rightarrow> rat) \<Rightarrow> PerformanceCounter \<Rightarrow> rat" where
  "GetAverageTime fl p = (if callCount p > 0 then fl (totalTime p / of_int (callCount p)) else 0)"

definition GetCallCount :: "PerformanceCounter \<Rightarrow> int" where
  "GetCallCount p = callCount p"

text \<open>A series of measured calls, each given by its start and end.\<close>

fun measure_calls :: "(rat \<Rightarrow> rat) \<Rightarrow> (rat \<times> rat) list \<Rightarrow> PerformanceCounter \<Rightarrow> PerformanceCounter outcome" where
  "measure_calls fl [] p = Inr p"
| "measure_calls fl ((a, b) # cs) p = and_then (perf_Exit fl b (perf_Enter a p)) (\<lambda>(w, p'). measure_calls fl cs p')"

lemma measure_calls_spec:
  "measure_calls fl cs p = Inr p' \<Longrightarrow>
   callCount p' = callCount p + int (length cs) \<and>
   minTime p' = fold min (map (\<lambda>(a, b). fl (b - a)) cs) (minTime p) \<and> maxTime p' = fold max (map (\<lambda>(a, b). fl (b - a)) cs) (maxTime p)"
proof (induction fl cs p rule: measure_calls.induct)
  case (2 fl a b cs p)
  obtain w p1 where e: "perf_Exit fl b (perf_Enter a p) = Inr (w, p1)" "measure_calls fl cs p1 = Inr p'"
    using 2(2) by (auto simp: and_then_eq_Inr)
  have "callCount p1 = callCount p + 1" "minTime p1 = min (fl (b - a)) (minTime p)" "maxTime p1 = max (fl (b - a)) (maxTime p)"
    using e(1) by (auto simp: perf_Exit_def perf_Enter_def Let_def min_def max_def split: if_splits)
  with 2(1) [OF e(2)] show ?case by simp
qed simp

lemma fold_min_Min: "fold min xs (x :: rat) = Min (set (x # xs))" "fold max xs x = Max (set (x # xs))"
  by (simp_all only: Min.set_eq_fold Max.set_eq_fold)

text \<open>
  After a series of calls, none of which lasted longer than the largest \<^verbatim>\<open>double\<close>, the counter reports the
  shortest and the longest of them.
\<close>

theorem extremes_reported:
  assumes "measure_calls fl cs PerformanceCounter_init = Inr p" and "cs \<noteq> []" and "\<forall>(a, b) \<in> set cs. \<bar>fl (b - a)\<bar> \<le> DBL_MAX"
  shows "GetMinTime p = Min ((\<lambda>(a, b). fl (b - a)) ` set cs)" and "GetMaxTime p = Max ((\<lambda>(a, b). fl (b - a)) ` set cs)"
    and "GetCallCount p = int (length cs)"
proof -
  let ?S = "(\<lambda>(a, b). fl (b - a)) ` set cs"
  have s: "callCount p = int (length cs)" "minTime p = Min (insert DBL_MAX ?S)" "maxTime p = Max (insert (- DBL_MAX) ?S)"
    using measure_calls_spec [OF assms(1)] by (simp_all add: PerformanceCounter_init_def fold_min_Min)
  have S: "finite ?S" "?S \<noteq> {}" "\<forall>x \<in> ?S. x \<le> DBL_MAX \<and> - DBL_MAX \<le> x" using assms(2,3) by fastforce+
  have "Min ?S \<le> DBL_MAX" "- DBL_MAX \<le> Max ?S" using Min_in [OF S(1,2)] Max_in [OF S(1,2)] S(3) by blast+
  then have "minTime p = Min ?S" "maxTime p = Max ?S"
    using Min_insert [OF S(1,2), of DBL_MAX] Max_insert [OF S(1,2), of "- DBL_MAX"] by (simp_all only: s min_absorb2 max_absorb2)
  moreover have "callCount p > 0" using assms(2) by (simp add: s(1))
  ultimately show "GetMinTime p = Min ?S" and "GetMaxTime p = Max ?S" and "GetCallCount p = int (length cs)"
    by (simp_all only: GetMinTime_def GetMaxTime_def GetCallCount_def if_True s(1))
qed

end
