(* ===== verification/Client_System.thy ===== *)
theory Client_System
  imports Client_Props Sender_Complete
begin

text \<open>
  The client program as a transition system. \<^verbatim>\<open>main\<close> calls \<^verbatim>\<open>Start\<close> again and again; meanwhile datagrams
  arrive at the UDP socket, the watchdog replaces connections, the channel's threads work, a lost
  channel is reconnected in full or given up, and \<^verbatim>\<open>Stop\<close> may be called. In every state that can be
  reached all operations of the client run to their end without ending the program, and the channel
  of the client is a state of the sending half of a channel.
\<close>

section \<open>Steps\<close>

text \<open>The members of a new \<^verbatim>\<open>Client\<close>; the id comes from the configuration.\<close>

definition Client_init :: "u32 \<Rightarrow> client" where
  "Client_init clientId = \<lparr>cl_running = False, cl_clientId = clientId, tcpSockets = [], tcpConnectionIds = [], nextConnectionId = 1,
     cl_udpSocket = -1, remoteUdpAddr = None, cl_vc = None, watchdogRunning = False, watchdogJoinable = False, reconnectEpoch = 0,
     cl_closed = [], cl_binds = []\<rparr>"

text \<open>What a datagram adds to the payloads that the present channel accepted.\<close>

definition accepted_by :: "client \<Rightarrow> errno + ((u32 \<times> u16) \<times> bytes) \<Rightarrow> bytes list" where
  "accepted_by c a =
     (case a of Inl _ \<Rightarrow> [] | Inr (src, d) \<Rightarrow> (case cl_vc c of None \<Rightarrow> [] | Some v \<Rightarrow> if sendable d v then [d] else []))"

text \<open>
  The second component lists the payloads that the present channel accepted. A failed reconnect stops
  the client, as the thread that the disconnect callback spawns does.
\<close>

inductive cstep :: "client \<times> bytes list \<Rightarrow> client \<times> bytes list \<Rightarrow> bool" where
  Start: "client_start e created bound [] c = Inr (ok, c') \<Longrightarrow> cstep (c, ds) (c', [])"
| Datagram: "udp_loop [a] c = Inr c' \<Longrightarrow> Suc (length ds) < 2 ^ 64 \<Longrightarrow> cstep (c, ds) (c', ds @ accepted_by c a)"
| Watchdog: "cstep (c, ds) (watchdog_round run env c, ds)"
| Channel: "cl_vc c = Some v \<Longrightarrow> sstep (v, ds) (v', ds) \<Longrightarrow> cstep (c, ds) (c\<lparr>cl_vc := Some v'\<rparr>, ds)"
| Disconnected: "cstep (c, ds) (on_disconnect c, ds)"
| Reconnected: "ReconnectVC env 5 1000 c = Inr (True, delays, c') \<Longrightarrow> cstep (c, ds) (c', [])"
| GaveUp: "ReconnectVC env 5 1000 c = Inr (False, delays, c1) \<Longrightarrow> client_stop c1 = Inr c' \<Longrightarrow> cstep (c, ds) (c', ds)"
| Stop: "client_stop c = Inr c' \<Longrightarrow> cstep (c, ds) (c', ds)"

inductive creach :: "client \<times> bytes list \<Rightarrow> bool" where
  init: "creach (Client_init clientId, [])"
| step: "creach s \<Longrightarrow> cstep s s' \<Longrightarrow> creach s'"

text \<open>
  The handler that \<^verbatim>\<open>main.cpp\<close> defines for termination signals, up to \<^verbatim>\<open>exit\<close>. No call of \<^verbatim>\<open>signal\<close>
  installs it; if it ran, it would be the step \<open>Stop\<close>.
\<close>

definition client_signalHandler :: "client \<Rightarrow> client outcome" where
  "client_signalHandler c = client_stop c"

lemma signal_is_stop: "client_signalHandler c = Inr c' \<Longrightarrow> cstep (c, ds) (c', ds)"
  unfolding client_signalHandler_def by (rule cstep.Stop)

section \<open>Invariant\<close>

text \<open>
  The bookkeeping of the client is empty without a channel, and has 32 entries beside one; the
  channel is a reachable state of the sending half.
\<close>

definition cinv :: "client \<times> bytes list \<Rightarrow> bool" where
  "cinv = (\<lambda>(c, ds). case cl_vc c of
       None \<Rightarrow> tcpSockets c = [] \<and> tcpConnectionIds c = []
     | Some v \<Rightarrow> length (tcpSockets c) = VC_TCP_CONNECTIONS \<and> length (tcpConnectionIds c) = VC_TCP_CONNECTIONS \<and> sreach (v, ds))"

lemma cinv_init: "cinv (Client_init clientId, [])"
  by (simp add: cinv_def Client_init_def)

lemma cinv_idle: "idle c \<Longrightarrow> cinv (c, ds)"
  by (simp add: cinv_def idle_def)

lemma prepared_channel:
  assumes "PrepareVC e c = Inr (True, c')"
  obtains v r where "cl_vc c' = Some v" and "tcpSockets c' \<noteq> []" and "-1 \<notin> set (tcpSockets c')"
    and "length (tcpSockets c') = VC_TCP_CONNECTIONS" and "length (tcpConnectionIds c') = VC_TCP_CONNECTIONS"
    and "vc_open (pe_openNow e) ((TcpVirtualChannel_init (tcpSockets c') (pe_now e))\<lparr>ch_rx := r, hasDisconnectCallback := True\<rparr>) = Inr v"
proof -
  obtain c0 where c0: "TeardownVc c = Inr c0" "idle c0" by (rule TeardownVc_total [of c])
  obtain c1 where c1: "connect_loop e [0..<VC_TCP_CONNECTIONS] c0 = Inr (True, c1)"
    using assms c0(1) by (auto simp: PrepareVC_def and_then_eq_Inr split: if_splits)
  have "connected_upto e c0 0 c0" using c0(2) by (simp add: connected_upto_def idle_def)
  from connect_loop_result [OF this, of VC_TCP_CONNECTIONS] c1 have up: "connected_upto e c0 VC_TCP_CONNECTIONS c1" by auto
  let ?v = "TcpVirtualChannel_init (tcpSockets c1) (pe_now e)"
  obtain v where v: "vc_open (pe_openNow e) (?v\<lparr>ch_rx := (ch_rx ?v)\<lparr>reorderTimeoutMs := 8000, hasReceiveCallback := True\<rparr>, hasDisconnectCallback := True\<rparr>) = Inr v"
    and c': "c' = c1\<lparr>cl_vc := Some v, watchdogRunning := True, watchdogJoinable := True\<rparr>"
    using assms c0(1) c1 by (auto simp: PrepareVC_def and_then_eq_Inr Let_def StartWatchdog_def split: if_splits)
  have socks: "length (tcpSockets c1) = VC_TCP_CONNECTIONS" "length (tcpConnectionIds c1) = VC_TCP_CONNECTIONS" "-1 \<notin> set (tcpSockets c1)"
    using up by (auto simp: connected_upto_def)
  have "tcpSockets c1 \<noteq> []" using socks(1) by (auto simp: VC_TCP_CONNECTIONS_def)
  with v socks show ?thesis by (intro that [of v]) (simp_all add: c')
qed

lemma cinv_prepared:
  assumes "PrepareVC e c = Inr (True, c')"
  shows "cinv (c', [])"
  by (rule prepared_channel [OF assms]) (use configured_open_reach in \<open>auto simp: cinv_def\<close>)

lemma cinv_cong:
  "cl_vc c' = cl_vc c \<Longrightarrow> tcpSockets c' = tcpSockets c \<Longrightarrow> tcpConnectionIds c' = tcpConnectionIds c \<Longrightarrow> cinv (c', ds) = cinv (c, ds)"
  by (simp add: cinv_def split: option.split)

lemma cinv_closed [simp]: "cinv (client_close fd c, ds) = cinv (c, ds)"
  by (rule cinv_cong) (simp_all add: client_close_def)

lemma udp_loop_total: "(\<And>v. cl_vc c = Some v \<Longrightarrow> cache_ok (sentDataCache v)) \<Longrightarrow> \<exists>c'. udp_loop as c = Inr c'"
proof (induction as arbitrary: c)
  case (Cons a as)
  show ?case
  proof (cases "\<exists>src d v. a = Inr (src, d) \<and> d \<noteq> [] \<and> cl_vc c = Some v \<and> opened v")
    case True
    then obtain src d v where v: "a = Inr (src, d)" "d \<noteq> []" "cl_vc c = Some v" "opened v" by blast
    obtain v' where v': "vc_send (Some d) v = Inr v'" "cache_ok (sentDataCache v')" by (rule vc_send_total [OF Cons.prems [OF v(3)]])
    then show ?thesis using v Cons.IH [of "c\<lparr>remoteUdpAddr := Some src, cl_vc := Some v'\<rparr>"] by simp
  next
    case False
    then have "udp_loop (a # as) c \<in> {Inr c, udp_loop as c} \<union> (\<lambda>src. udp_loop as (c\<lparr>remoteUdpAddr := Some src\<rparr>)) ` UNIV"
      by (auto simp: Let_def split: sum.split option.split)
    then show ?thesis using Cons.IH [of c] Cons.IH [of "c\<lparr>remoteUdpAddr := _\<rparr>"] Cons.prems by auto
  qed
qed simp

lemma cinv_datagram:
  assumes inv: "cinv (c, ds)" and u: "udp_loop [a] c = Inr c'" and len: "Suc (length ds) < 2 ^ 64"
  shows "cinv (c', ds @ accepted_by c a)"
proof (cases "\<exists>src d v. a = Inr (src, d) \<and> cl_vc c = Some v \<and> sendable d v")
  case True
  then obtain src d v where a: "a = Inr (src, d)" "cl_vc c = Some v" "sendable d v" by blast
  have d: "d \<noteq> []" "opened v" using a(3) by (auto simp: sendable_def)
  obtain v' where v': "vc_send (Some d) v = Inr v'" "c' = c\<lparr>remoteUdpAddr := Some src, cl_vc := Some v'\<rparr>"
    using u a d by (auto simp: Let_def and_then_eq_Inr)
  have "sreach (v, ds)" using inv a(2) by (simp add: cinv_def)
  from sreach.step [OF this sstep.Send [OF v'(1) len]] a(3) have "sreach (v', ds @ [d])" by simp
  then show ?thesis using inv a by (simp add: cinv_def v'(2) accepted_by_def)
next
  case False
  have "cl_vc c' = cl_vc c \<and> tcpSockets c' = tcpSockets c \<and> tcpConnectionIds c' = tcpConnectionIds c"
  proof (cases a)
    case (Inl e)
    then show ?thesis using u by simp
  next
    case (Inr x)
    then obtain src d where a: "a = Inr (src, d)" by (cases x) auto
    have "vc_send (Some d) v = Inr v" if "cl_vc c = Some v" for v using False a that vc_send_reject [of "Some d" v] by simp
    then show ?thesis using u a by (auto simp: Let_def split: if_splits option.splits)
  qed
  moreover have "accepted_by c a = []" using False by (auto simp: accepted_by_def split: sum.split option.split)
  ultimately show ?thesis using inv by (simp add: cinv_cong [of c' c])
qed

lemma cinv_start:
  assumes "client_start e created bound [] c = Inr (ok, c')"
  shows "cinv (c', [])"
proof (cases rule: PrepareVC_total [of e "c\<lparr>cl_running := True\<rparr>"])
  case (1 c1 v)
  note inv = cinv_prepared [OF 1(1)]
  obtain ok2 c2 where u: "open_udp created bound c1 = (ok2, c2)" by fastforce
  have inv2: "cinv (c2, [])" using u inv cinv_cong [of "c1\<lparr>cl_udpSocket := created\<rparr>" c1 "[]"] by (auto simp: open_udp_def Let_def split: if_splits)
  obtain c3 where c3: "TeardownVc c2 = Inr c3" "idle c3" by (rule TeardownVc_total [of c2])
  have "idle ((client_close (cl_udpSocket c3) c3)\<lparr>cl_udpSocket := -1\<rparr>)" using c3(2) by (simp add: idle_def client_close_def)
  then show ?thesis using assms 1(1) u inv2 c3 cinv_idle
    by (auto simp: client_start_def PrepareUdpSocket_def split: if_splits)
next
  case (2 c1)
  obtain c2 where "TeardownVc c1 = Inr c2" "idle c2" by (rule TeardownVc_total [of c1])
  then show ?thesis using assms 2 cinv_idle by (auto simp: client_start_def)
qed

lemma cinv_reconnect_loop:
  assumes "reconnect_loop env i rs d c = Inr (res, delays, c')" and "cinv (c, ds)"
  shows "cinv (c', if res then [] else ds)"
  using assms
proof (induction rs arbitrary: d c delays)
  case (Cons r rs)
  let ?e = "env r"
  have stopped: "cinv (x\<lparr>cl_running := False\<rparr>, ds) = cinv (x, ds)" for x by (rule cinv_cong) simp_all
  show ?case
  proof (cases "\<not> cl_running c \<or> rc_stop1 ?e")
    case True
    then show ?thesis using Cons.prems by (auto simp: stopped)
  next
    case go: False
    obtain c1 where c1: "drop_vc c = Inr c1" "cinv (c1, ds)" using Cons.prems(1) go by (auto simp: Let_def and_then_eq_Inr drop_vc_def cinv_def split: option.splits)
    show ?thesis
    proof (cases rule: PrepareVC_total [of "rc_prepare ?e" c1])
      case (1 c2 v)
      then show ?thesis using Cons.prems(1) go c1 cinv_prepared [OF 1(1)] by (auto simp: Let_def stopped split: if_splits)
    next
      case (2 c2)
      then show ?thesis using Cons.prems(1) go c1 cinv_idle [OF 2(2), of ds]
        by (auto simp: Let_def stopped and_then_eq_Inr split: if_splits dest: Cons.IH)
    qed
  qed
qed auto

lemma cinv_reconnect:
  assumes "ReconnectVC env n i c = Inr (res, delays, c')" and "cinv (c, ds)"
  shows "cinv (c', if res then [] else ds)"
  by (rule cinv_reconnect_loop [OF assms(1) [unfolded ReconnectVC_def]]) (use assms(2) in \<open>subst cinv_cong [of _ c], simp_all add: StopWatchdog_def\<close>)

lemma cinv_stop:
  assumes "client_stop c = Inr c'" and "cinv (c, ds)"
  shows "cinv (c', ds)"
proof (cases "cl_vc c")
  case None
  then have "c' = StopWatchdog (c\<lparr>cl_running := False\<rparr>)" using assms(1) by (simp add: client_stop_def StopWatchdog_def Let_def)
  then show ?thesis using assms(2) by (subst cinv_cong [of _ c]) (simp_all add: StopWatchdog_def)
next
  case (Some v)
  then obtain v' where v': "vc_close OtherCaller v = Inr v'" "c' = (StopWatchdog (c\<lparr>cl_running := False\<rparr>))\<lparr>cl_vc := Some v'\<rparr>"
    using assms(1) by (auto simp: client_stop_def StopWatchdog_def Let_def and_then_eq_Inr)
  have "sreach (v', ds)" using assms(2) Some sreach.step [OF _ sstep.Close [OF v'(1)]] by (auto simp: cinv_def)
  then show ?thesis using assms(2) Some by (simp add: cinv_def v'(2) StopWatchdog_def)
qed

lemma cinv_single_slot: "cinv (c, ds) \<Longrightarrow> cinv (snd (ReconnectSingleSlot e slot c), ds)"
proof -
  assume inv: "cinv (c, ds)"
  have "sl_create e \<noteq> -1 \<Longrightarrow> cl_vc x = Some v \<Longrightarrow> cinv (x, ds) \<Longrightarrow> sreach (replaceConnection (int slot) (sl_create e) (sl_now e) v, ds)" for x v
    using sreach.step [OF _ sstep.Replace] by (auto simp: cinv_def)
  then have swap: "sl_create e \<noteq> -1 \<Longrightarrow> cinv (x, ds) \<Longrightarrow> cinv (snd (swap_slot e slot i x), ds)" for x i
    by (auto simp: swap_slot_def split: option.split) (simp add: cinv_def)
  have ghost: "cinv (c\<lparr>nextConnectionId := n\<rparr>, ds)" "cinv (c\<lparr>nextConnectionId := n, cl_binds := b\<rparr>, ds)" for n b
    using inv by (simp_all add: cinv_def split: option.splits)
  show ?thesis using inv ghost swap by (auto simp: ReconnectSingleSlot_def Let_def)
qed

lemma cinv_watchdog: "cinv (c, ds) \<Longrightarrow> cinv (watchdog_round run env c, ds)"
proof -
  have "cinv (c, ds) \<Longrightarrow> cinv (watchdog_slots run env slots c, ds)" for slots c
    by (induction slots arbitrary: c) (auto intro: cinv_single_slot)
  then show "cinv (c, ds) \<Longrightarrow> cinv (watchdog_round run env c, ds)" by (auto simp: watchdog_round_def split: option.split)
qed

lemma cinv_step: "cstep s s' \<Longrightarrow> cinv s \<Longrightarrow> cinv s'"
proof (induction rule: cstep.induct)
  case (Channel c v ds v')
  then have "sreach (v', ds)" using sreach.step by (auto simp: cinv_def)
  then show ?case using Channel by (simp add: cinv_def)
next
  case (Disconnected c ds)
  then show ?case by (subst cinv_cong [of _ c]) (simp_all add: on_disconnect_def)
next
  case (Reconnected env c delays c' ds)
  then show ?case using cinv_reconnect [of env 5 1000 c True] by fastforce
next
  case (GaveUp env c delays c1 c' ds)
  then show ?case using cinv_reconnect [of env 5 1000 c False] cinv_stop by fastforce
qed (auto intro: cinv_start cinv_datagram cinv_watchdog cinv_stop)

lemma cinv_reach: "creach s \<Longrightarrow> cinv s"
  by (induction rule: creach.induct) (auto intro: cinv_init cinv_step)

section \<open>The program goes on\<close>


lemma Client_init_idle: "TeardownVc ((Client_init clientId)\<lparr>cl_running := True\<rparr>) = Inr ((Client_init clientId)\<lparr>cl_running := True\<rparr>)"
  by (simp add: TeardownVc_def StopWatchdog_def Client_init_def)

lemma started_reach:
  obtains c v where "creach (c, [])" and "cl_vc c = Some v" and "opened v" and "sendable [42] v"
proof -
  have fine: "\<forall>i < VC_TCP_CONNECTIONS. try_ok (pe_try all_fine i)" using all_fine_ok by blast
  obtain c1 where p: "PrepareVC all_fine ((Client_init 5)\<lparr>cl_running := True\<rparr>) = Inr (True, c1)"
    using prepare_vc_cases [OF Client_init_idle, of all_fine 5] fine by blast
  obtain v r where v: "cl_vc c1 = Some v"
    "vc_open (pe_openNow all_fine) ((TcpVirtualChannel_init (tcpSockets c1) (pe_now all_fine))\<lparr>ch_rx := r, hasDisconnectCallback := True\<rparr>) = Inr v"
    by (rule prepared_channel [OF p])
  have s: "sendable [42] v" using v(2)
    by (auto simp: sendable_def vc_open_def TcpVirtualChannel_init_def Let_def and_then_eq_Inr bq_approxSize_def bq_setEnqueueNotifier_def
        BlockingQueue_init_def VC_MAX_DATA_PAYLOAD_SIZE_def)
  let ?c = "c1\<lparr>cl_udpSocket := 7\<rparr>"
  have "client_start all_fine 7 0 [] (Client_init 5) = Inr (True, ?c)"
    using p by (simp add: client_start_def PrepareUdpSocket_def open_udp_def)
  from creach.step [OF creach.init cstep.Start [OF this]] have r: "creach (?c, [])" .
  with v s show ?thesis by (intro that [of ?c v]) (simp_all add: sendable_def)
qed

text \<open>The same client after a datagram has arrived.\<close>

lemma datagram_reach:
  obtains c v where "creach (c, [[42]])" and "cl_vc c = Some v" and "opened v"
proof -
  obtain c v where c: "creach (c, [])" "cl_vc c = Some v" "opened v" "sendable [42] v" by (rule started_reach)
  have "cache_ok (sentDataCache v)" using cinv_reach [OF c(1)] c(2) sinv_reach by (fastforce simp: cinv_def sinv_def)
  then obtain v' where v': "vc_send (Some [42]) v = Inr v'" "opened v' = opened v" by (rule vc_send_accept [OF c(4)]) simp
  let ?a = "Inr ((0, 0), [42])" and ?c' = "c\<lparr>remoteUdpAddr := Some (0, 0), cl_vc := Some v'\<rparr>"
  have "udp_loop [?a] c = Inr ?c'" using c(2,3) v'(1) by simp
  from creach.step [OF c(1) cstep.Datagram [OF this]] have "creach (?c', [[42]])" using c(2,4) by (simp add: accepted_by_def)
  with v'(2) c(3) show ?thesis by (intro that [of ?c' v']) simp_all
qed


text \<open>
  An empty datagram, which UDP allows, ends the receive loop as if the socket had been closed: the
  client forwards none of the datagrams that follow.
\<close>

lemma empty_datagram_ends_loop: "udp_loop (Inr (src, []) # rest) c = Inr c"
  by simp

text \<open>
  A start that succeeds replaces the descriptor of the UDP socket without closing the one that an earlier
  start had opened: the descriptor is lost.
\<close>

theorem restart_leaks_udp_socket:
  assumes "creach (c, ds)" and "cl_udpSocket c = fd" and "client_start e created 0 [] c = Inr (True, c')"
    and "created \<noteq> -1" and "fd \<noteq> created"
  shows "cl_udpSocket c' \<noteq> fd \<and> cl_closed c' = cl_closed c"
proof -
  let ?c = "c\<lparr>cl_running := True\<rparr>"
  obtain c0 where c0: "TeardownVc ?c = Inr c0" "cl_closed c0 = cl_closed ?c @ (if cl_vc ?c = None then filter (\<lambda>fd. fd \<noteq> -1) (tcpSockets ?c) else [])"
    by (rule TeardownVc_total [of ?c])
  have "cl_vc c = None \<Longrightarrow> tcpSockets c = []" using cinv_reach [OF assms(1)] by (simp add: cinv_def)
  then have "cl_closed c0 = cl_closed c" using c0(2) by simp
  moreover obtain c1 where c1: "PrepareVC e ?c = Inr (True, c1)" "c' = c1\<lparr>cl_udpSocket := created\<rparr>"
    using assms(3,4) by (auto simp: client_start_def and_then_eq_Inr PrepareUdpSocket_def open_udp_def split: if_splits)
  ultimately have "cl_closed c1 = cl_closed c" using prepare_vc_cases [OF c0(1), of e] by auto
  then show ?thesis using c1(2) assms(5) by simp
qed

end
