(* ===== verification/Server_System.thy ===== *)
theory Server_System
  imports Server_Clients Sender_Complete
begin

text \<open>
  The server program as a transition system: rounds of the accept loop, datagrams that the UDP threads
  pump into the channels of their clients, the work of the channels themselves, and the end of the
  program by a signal. In every state that can be reached no round of the accept loop and no
  datagram ends in a fault, and each channel is a state of the sending half of a channel that has
  accepted datagrams of its own client only.
\<close>

section \<open>Start, signals\<close>

text \<open>A \<^verbatim>\<open>Server\<close> object before \<^verbatim>\<open>start\<close>; the member \<^verbatim>\<open>serverSocket\<close> has no initial value.\<close>

definition Server_init :: "int \<Rightarrow> ServerConfiguration \<Rightarrow> server" where
  "Server_init fd config = \<lparr>sv_running = False, sv_serverSocket = fd, sv_config = config, socketToConnId = [],
     clientConnSlots = [], peers = [], vcs = [], sv_chans = [], sv_owner = [], sv_udpThreads = [], sv_closed = []\<rparr>"

text \<open>\<^verbatim>\<open>Server::start\<close> up to the accept loop; the result says whether the loop is entered.\<close>

definition server_start :: "int \<Rightarrow> int \<Rightarrow> int \<Rightarrow> server \<Rightarrow> bool \<times> server" where
  "server_start created bound listening s = Listen created bound listening (s\<lparr>sv_running := True\<rparr>)"

text \<open>The handler of the termination signals, up to \<^verbatim>\<open>exit\<close>.\<close>

definition server_signalHandler :: "server \<Rightarrow> server" where
  "server_signalHandler s = server_stop (CloseAllSockets s)"

section \<open>Steps\<close>

text \<open>
  The second component lists for each channel the payloads that it accepted. A channel that could not
  be opened has no owner and no threads.
\<close>

inductive srv_step :: "server \<times> bytes list list \<Rightarrow> server \<times> bytes list list \<Rightarrow> bool" where
  Accept: "accept_step e s = Some (Inr (r, s')) \<Longrightarrow>
    srv_step (s, dss) (s', dss @ replicate (length (sv_chans s') - length (sv_chans s)) [])"
| Datagram: "(udp, vc) \<in> set (sv_udpThreads s) \<Longrightarrow> udp_pump (Inr d) vc s = Inr (r, s') \<Longrightarrow> Suc (length (dss ! vc)) < 2 ^ 64 \<Longrightarrow>
    srv_step (s, dss) (s', dss[vc := if sendable d (sv_chans s ! vc) then dss ! vc @ [d] else dss ! vc])"
| Channel: "vc < length (sv_chans s) \<Longrightarrow> sv_owner s ! vc \<noteq> None \<Longrightarrow> sstep (sv_chans s ! vc, dss ! vc) (c', dss ! vc) \<Longrightarrow>
    srv_step (s, dss) (on_chan vc c' s, dss)"
| Signal: "srv_step (s, dss) (server_signalHandler s, dss)"

inductive srv_reach :: "server \<times> bytes list list \<Rightarrow> bool" where
  init: "server_start created bound listening (Server_init fd config) = (True, s) \<Longrightarrow> srv_reach (s, [])"
| step: "srv_reach z \<Longrightarrow> srv_step z z' \<Longrightarrow> srv_reach z'"

section \<open>Invariant\<close>

definition peers_pos :: "(u32, Peer) umap \<Rightarrow> bool" where
  "peers_pos ps \<longleftrightarrow> (\<forall>k p. map_of ps k = Some p \<longrightarrow> (\<forall>fd \<in> set (pr_sockets p). 0 \<le> fd))"

lemma peers_pos_ops:
  "peers_pos ps \<Longrightarrow> \<forall>fd \<in> set (pr_sockets p). 0 \<le> fd \<Longrightarrow> peers_pos (AList.update k p ps)"
  "peers_pos ps \<Longrightarrow> peers_pos (AList.delete k ps)" "peers_pos []"
  by (auto simp: peers_pos_def split: if_splits)

definition own_ok :: "(u32 \<times> int) option \<Rightarrow> chan \<Rightarrow> bytes list \<Rightarrow> bool" where
  "own_ok owner c ds \<longleftrightarrow> (if owner = None then \<not> opened c else sreach (c, ds))"

definition srv_inv :: "server \<times> bytes list list \<Rightarrow> bool" where
  "srv_inv = (\<lambda>(s, dss). length dss = length (sv_chans s) \<and> length (sv_owner s) = length (sv_chans s) \<and> peers_pos (peers s) \<and>
     (\<forall>i < length (sv_chans s). own_ok (sv_owner s ! i) (sv_chans s ! i) (dss ! i)) \<and>
     (\<forall>(udp, i) \<in> set (sv_udpThreads s). i < length (sv_chans s) \<and> sv_owner s ! i \<noteq> None))"

lemma srv_inv_start: "server_start created bound listening (Server_init fd config) = (True, s) \<Longrightarrow> srv_inv (s, [])"
  by (auto simp: server_start_def Listen_def Server_init_def Let_def srv_inv_def peers_pos_ops close_socket_def split: if_splits)

lemma on_chan_fields:
  "sv_chans (on_chan i c' s) = (sv_chans s)[i := c']" "sv_owner (on_chan i c' s) = sv_owner s"
  "sv_udpThreads (on_chan i c' s) = sv_udpThreads s" "peers_pos (peers s) \<Longrightarrow> peers_pos (peers (on_chan i c' s))"
  by (auto simp: on_chan_def on_vc_disconnect_def close_socket_def RemovePeer_def VcManager_Remove_def Let_def peers_pos_ops split: option.split)

lemma srv_inv_on_chan:
  assumes "srv_inv (s, dss)" and "vc < length (sv_chans s) \<Longrightarrow> own_ok (sv_owner s ! vc) c' ds"
  shows "srv_inv (on_chan vc c' s, dss[vc := ds])"
proof -
  have "own_ok (sv_owner s ! i) ((sv_chans s)[vc := c'] ! i) (dss[vc := ds] ! i)"
    if "i < length (sv_chans s)" for i
    using assms that by (cases "i = vc") (simp_all add: srv_inv_def)
  then show ?thesis using assms(1) by (simp add: srv_inv_def on_chan_fields)
qed

lemma srv_inv_cong:
  assumes "sv_chans s' = sv_chans s" and "sv_owner s' = sv_owner s" and "sv_udpThreads s' = sv_udpThreads s" and "peers_pos (peers s) \<Longrightarrow> peers_pos (peers s')"
    and "srv_inv (s, dss)"
  shows "srv_inv (s', dss)"
  using assms by (simp add: srv_inv_def)

text \<open>A step of a channel that leaves its list of accepted payloads alone and does not open it.\<close>

lemma srv_inv_channel:
  assumes "srv_inv (s, dss)" and "sreach (sv_chans s ! vc, dss ! vc) \<Longrightarrow> sreach (c', dss ! vc)" and "opened c' \<Longrightarrow> opened (sv_chans s ! vc)"
  shows "srv_inv (on_chan vc c' s, dss)"
proof -
  have "own_ok (sv_owner s ! vc) c' (dss ! vc)" if "vc < length (sv_chans s)"
    using assms that by (auto simp: srv_inv_def own_ok_def split: if_splits)
  from srv_inv_on_chan [OF assms(1) this] show ?thesis by simp
qed

section \<open>Rounds of the accept loop\<close>

lemma create_vc_eq:
  obtains s' r where "create_vc e clientId fds s = (length (sv_chans s), s')"
    and "sv_chans s' = sv_chans s @ [(TcpVirtualChannel_init fds (ae_now e))\<lparr>ch_rx := r\<rparr>]" and "sv_owner s' = sv_owner s @ [None]"
    and "sv_udpThreads s' = sv_udpThreads s" and "peers s' = peers s"
  by (rule that [of "snd (create_vc e clientId fds s)" "(ch_rx (TcpVirtualChannel_init fds (ae_now e)))\<lparr>reorderTimeoutMs := 8000\<rparr>"])
    (simp_all add: create_vc_def VcManager_Add_def split_beta Let_def)

lemma start_vc_total:
  assumes "vc < length (sv_chans s)" and "sv_chans s ! vc = (TcpVirtualChannel_init fds now)\<lparr>ch_rx := r\<rparr>"
  obtains res s' where "start_vc e clientId vc s = Inr (res, s')"
proof -
  let ?c = "sv_chans s ! vc"
  obtain c2 where "vc_open (ae_openNow e) (?c\<lparr>ch_rx := (ch_rx ?c)\<lparr>hasReceiveCallback := True\<rparr>, hasDisconnectCallback := True\<rparr>) = Inr c2"
    by (auto simp: assms(2) vc_open_def Let_def thread_start_def TcpVCIoThread_init_def TcpVCSendThread_init_def StopableThread_init_def TcpVirtualChannel_init_def)
  then have "\<exists>x. start_vc e clientId vc s = Inr x" by (simp add: start_vc_def Let_def)
  then show ?thesis using that by auto
qed

lemma srv_inv_start_vc:
  assumes inv: "srv_inv (s, dss)" and vc: "vc < length (sv_chans s)" "sv_chans s ! vc = (TcpVirtualChannel_init fds now)\<lparr>ch_rx := r\<rparr>"
    and fds: "fds \<noteq> []" "-1 \<notin> set fds" and empty: "dss ! vc = []" and s': "start_vc e clientId vc s = Inr (res, s')"
  shows "srv_inv (s', dss)" and "length (sv_chans s') = length (sv_chans s)"
proof -
  let ?c = "sv_chans s ! vc"
  have "srv_inv (s', dss) \<and> length (sv_chans s') = length (sv_chans s)"
  proof (cases "ae_udp e = -1 \<or> ae_udpBind e < 0")
    case True
    then have "s' = s \<or> s' = close_socket (ae_udp e) s" using s' by (auto simp: start_vc_def split: if_splits)
    then show ?thesis using inv by (auto simp: close_socket_def srv_inv_def)
  next
    case False
    obtain c2 where c2: "vc_open (ae_openNow e) (?c\<lparr>ch_rx := (ch_rx ?c)\<lparr>hasReceiveCallback := True\<rparr>, hasDisconnectCallback := True\<rparr>) = Inr c2"
      and f: "sv_chans s' = (sv_chans s)[vc := c2]" "sv_owner s' = (sv_owner s)[vc := Some (clientId, ae_udp e)]"
        "sv_udpThreads s' = sv_udpThreads s @ [(ae_udp e, vc)]"
      and p: "peers s' = (case map_of (peers s) clientId of None \<Rightarrow> peers s
          | Some p \<Rightarrow> AList.update clientId (SetUdpAddress (word_of_int (udpTargetPort (sv_config s))) (SetUdpSocket (ae_udp e) p)) (peers s))"
      using s' False by (auto simp: start_vc_def Let_def and_then_eq_Inr)
    have r: "sreach (c2, [])" by (rule configured_open_reach [OF fds]) (use c2 in \<open>simp add: vc(2)\<close>)
    have pos: "peers_pos (peers s')" using inv
      by (auto simp: p srv_inv_def SetUdpAddress_def SetUdpSocket_def peers_pos_def split: option.split if_splits)
    have "own_ok (sv_owner s' ! i) (sv_chans s' ! i) (dss ! i)" if "i < length (sv_chans s)" for i
      using that inv r empty vc(1) by (cases "i = vc") (simp_all add: f srv_inv_def own_ok_def)
    moreover have "\<forall>(udp, i) \<in> set (sv_udpThreads s'). i < length (sv_chans s) \<and> sv_owner s' ! i \<noteq> None"
      using inv vc(1) by (auto simp: f srv_inv_def nth_list_update)
    ultimately show ?thesis using inv pos by (simp add: srv_inv_def f)
  qed
  then show "srv_inv (s', dss)" and "length (sv_chans s') = length (sv_chans s)" by auto
qed

text \<open>A round that collects a socket, and perhaps makes a channel of the sockets collected.\<close>

lemma accumulate_reach:
  assumes inv: "srv_inv (s, dss)" and fd: "0 \<le> ae_client e"
  obtains res s' where "accumulate e b s = Inr (res, s')" and "srv_inv (s', dss @ replicate (length (sv_chans s') - length (sv_chans s)) [])"
proof -
  let ?k = "mb_clientId b"
  let ?s1 = "if mb_connectionId b \<noteq> 0 then s\<lparr>socketToConnId := AList.update (ae_client e) (mb_connectionId b) (socketToConnId s)\<rparr> else s"
  define s2 where "s2 = AddPeer ?k ?s1"
  have same: "sv_chans s2 = sv_chans s" "sv_owner s2 = sv_owner s" "sv_udpThreads s2 = sv_udpThreads s"
    by (simp_all add: s2_def AddPeer_def RemoveAllSockets_def Let_def split: option.split)
  have pos: "peers_pos (peers s2)" using inv
    by (auto simp: s2_def AddPeer_def RemoveAllSockets_def Let_def srv_inv_def Peer_init_def split: option.split intro!: peers_pos_ops)
  show ?thesis
  proof (cases "GetPeerById ?k s2")
    case None
    let ?s' = "close_socket (ae_client e) s2"
    have "accumulate e b s = Inr (LoopGoesOn, ?s')" using None by (simp add: accumulate_def s2_def Let_def)
    moreover have "srv_inv (?s', dss)" by (rule srv_inv_cong [OF _ _ _ _ inv]) (simp_all add: close_socket_def same pos)
    ultimately show ?thesis using that by (simp add: close_socket_def same)
  next
    case (Some p)
    define p' where "p' = fst (AddSocket (ae_client e) p)"
    define s3 where "s3 = s2\<lparr>peers := AList.update ?k p' (peers s2), sv_closed := sv_closed s2 @ snd (AddSocket (ae_client e) p)\<rparr>"
    have p'_pos: "\<forall>fd \<in> set (pr_sockets p'). 0 \<le> fd"
      using pos Some fd by (auto simp: p'_def AddSocket_def GetPeerById_def peers_pos_def)
    have i3: "srv_inv (s3, dss)" by (rule srv_inv_cong [OF _ _ _ _ inv]) (simp_all add: s3_def same peers_pos_ops pos p'_pos)
    have c3: "sv_chans s3 = sv_chans s" by (simp add: s3_def same)
    have acc: "accumulate e b s = (if GetSocketCount p' \<ge> VC_TCP_CONNECTIONS
        then let (vc, s4) = create_vc e ?k (pr_sockets p') s3 in start_vc e ?k vc s4 else Inr (LoopGoesOn, s3))"
      using Some by (simp add: accumulate_def s2_def s3_def p'_def Let_def split_beta)
    show ?thesis
    proof (cases "GetSocketCount p' \<ge> VC_TCP_CONNECTIONS")
      case False
      then show ?thesis using acc i3 c3 that by simp
    next
      case True
      obtain s4 r where cv: "create_vc e ?k (pr_sockets p') s3 = (length (sv_chans s3), s4)"
        "sv_chans s4 = sv_chans s3 @ [(TcpVirtualChannel_init (pr_sockets p') (ae_now e))\<lparr>ch_rx := r\<rparr>]" "sv_owner s4 = sv_owner s3 @ [None]"
        "sv_udpThreads s4 = sv_udpThreads s3" "peers s4 = peers s3" by (rule create_vc_eq)
      have i4: "srv_inv (s4, dss @ [[]])" using i3
        by (auto simp: srv_inv_def cv nth_append less_Suc_eq own_ok_def TcpVirtualChannel_init_def)
      have vc: "length (sv_chans s3) < length (sv_chans s4)" "sv_chans s4 ! length (sv_chans s3) = (TcpVirtualChannel_init (pr_sockets p') (ae_now e))\<lparr>ch_rx := r\<rparr>"
        "(dss @ [[]]) ! length (sv_chans s3) = []" using i3 by (simp_all add: cv(2) srv_inv_def nth_append)
      have fds: "pr_sockets p' \<noteq> []" "-1 \<notin> set (pr_sockets p')"
        using True VC_TCP_pos p'_pos by (auto simp: GetSocketCount_def)
      obtain res s' where s': "start_vc e ?k (length (sv_chans s3)) s4 = Inr (res, s')" by (rule start_vc_total [OF vc(1,2)])
      note st = srv_inv_start_vc [OF i4 vc(1,2) fds vc(3) s']
      show ?thesis using that [of res s'] acc True cv(1) s' st by (simp add: cv(2) c3)
    qed
  qed
qed

lemma register_connId_fields:
  "sv_chans (register_connId k cid t s) = sv_chans s" "sv_owner (register_connId k cid t s) = sv_owner s"
  "sv_udpThreads (register_connId k cid t s) = sv_udpThreads s" "peers (register_connId k cid t s) = peers s"
  by (simp_all add: register_connId_def Let_def)

lemma replace_slot_reach:
  assumes inv: "srv_inv (s, dss)" and fd: "0 \<le> ae_client e"
  shows "srv_inv (replace_slot e b vc s, dss)" and "length (sv_chans (replace_slot e b vc s)) = length (sv_chans s)"
proof -
  let ?c = "sv_chans s ! vc"
  let ?t = "DecideReplaceSlot (slot_of_connId (mb_clientId b) (mb_connectionId b) s) (sint (mb_slotIndex b)) (int VC_TCP_CONNECTIONS) (getDeadSlots ?c)"
  let ?s1 = "on_chan vc (replaceConnection ?t (ae_client e) (ae_now e) ?c) s"
  have "srv_inv (?s1, dss)" using fd
    by (intro srv_inv_channel [OF inv] sreach.step [OF _ sstep.Replace]) (auto simp: replaceConnection_def Let_def split: if_splits)
  then have "srv_inv (register_connId (mb_clientId b) (mb_connectionId b) ?t ?s1, dss)"
    by (rule srv_inv_cong [rotated -1]) (simp_all add: register_connId_fields)
  moreover have "srv_inv (close_socket (ae_client e) s, dss)" by (rule srv_inv_cong [OF _ _ _ _ inv]) (simp_all add: close_socket_def)
  ultimately show "srv_inv (replace_slot e b vc s, dss)" by (simp add: replace_slot_def Let_def)
  show "length (sv_chans (replace_slot e b vc s)) = length (sv_chans s)"
    by (simp add: replace_slot_def Let_def close_socket_def register_connId_fields on_chan_fields)
qed

lemma accept_reach:
  assumes inv: "srv_inv (s, dss)" and n: "accept_step e s \<noteq> None"
  obtains res s' where "accept_step e s = Some (Inr (res, s'))"
    and "srv_inv (s', dss @ replicate (length (sv_chans s') - length (sv_chans s)) [])"
proof (cases "ae_client e < 0 \<or> receive_bind (ae_recv e) = Some None")
  case True
  let ?s' = "if ae_client e < 0 then s else close_socket (ae_client e) s"
  have "srv_inv (?s', dss)" by (rule srv_inv_cong [OF _ _ _ _ inv]) (simp_all add: close_socket_def)
  then show ?thesis using True that [of LoopGoesOn ?s'] by (auto simp: accept_step_def close_socket_def)
next
  case False
  then obtain b where b: "receive_bind (ae_recv e) = Some (Some b)" using n by (auto simp: accept_step_def split: option.splits)
  have fd: "0 \<le> ae_client e" "\<not> ae_client e < 0" using False by auto
  show ?thesis
  proof (cases "VcManager_Get (mb_clientId b) s")
    case None
    obtain res s' where "accumulate e b s = Inr (res, s')" "srv_inv (s', dss @ replicate (length (sv_chans s') - length (sv_chans s)) [])"
      by (rule accumulate_reach [OF inv fd(1)])
    then show ?thesis using that None fd(2) b by (simp add: accept_step_def)
  next
    case vc: (Some vc)
    show ?thesis
    proof (cases "sint (mb_slotIndex b) < 0")
      case False
      then show ?thesis using that [of LoopGoesOn "replace_slot e b vc s"] replace_slot_reach [OF inv fd(1)] vc b fd(2) by (simp add: accept_step_def)
    next
      case True
      obtain c' where c': "vc_close OtherCaller (sv_chans s ! vc) = Inr c'" using close_completes by blast
      define s1 where "s1 = on_chan vc c' s"
      define s2 where "s2 = (if VcManager_Exists (mb_clientId b) s1 then VcManager_Remove (mb_clientId b) s1 else s1)"
      have "srv_inv (s1, dss)" unfolding s1_def
        by (rule srv_inv_channel [OF inv]) (use close_not_opened [OF c'] in \<open>auto intro: sreach.step [OF _ sstep.Close [OF c']]\<close>)
      then have "srv_inv (s2, dss)" by (rule srv_inv_cong [rotated -1]) (simp_all add: s2_def VcManager_Remove_def)
      then obtain res s' where "accumulate e b s2 = Inr (res, s')" "srv_inv (s', dss @ replicate (length (sv_chans s') - length (sv_chans s2)) [])"
        by (rule accumulate_reach [OF _ fd(1)])
      moreover have "length (sv_chans s2) = length (sv_chans s)" by (simp add: s2_def s1_def VcManager_Remove_def on_chan_fields)
      moreover have "accept_step e s = Some (accumulate e b s2)" using vc b fd(2) True c' by (simp add: accept_step_def s1_def s2_def Let_def)
      ultimately show ?thesis using that [of res s'] by simp
    qed
  qed
qed

section \<open>Datagrams\<close>

lemma thread_channel:
  assumes "srv_inv (s, dss)" and "(udp, vc) \<in> set (sv_udpThreads s)"
  shows "vc < length (sv_chans s)" and "sv_owner s ! vc \<noteq> None" and "sreach (sv_chans s ! vc, dss ! vc)"
  using assms by (auto simp: srv_inv_def own_ok_def)

lemma pump_total:
  assumes "srv_inv (s, dss)" and "(udp, vc) \<in> set (sv_udpThreads s)"
  obtains c' where "vc_send (Some d) (sv_chans s ! vc) = Inr c'"
proof -
  have "cache_ok (sentDataCache (sv_chans s ! vc))" using sinv_reach [OF thread_channel(3) [OF assms]] by (simp add: sinv_def)
  then show ?thesis using that by (rule vc_send_total)
qed

lemma srv_inv_pump:
  assumes inv: "srv_inv (s, dss)" and th: "(udp, vc) \<in> set (sv_udpThreads s)" and p: "udp_pump (Inr d) vc s = Inr (r, s')"
    and len: "Suc (length (dss ! vc)) < 2 ^ 64"
  shows "srv_inv (s', dss[vc := if sendable d (sv_chans s ! vc) then dss ! vc @ [d] else dss ! vc])"
proof (cases "d = []")
  case True
  then show ?thesis using p inv by (simp add: udp_pump_def sendable_def)
next
  case False
  obtain c' where c': "vc_send (Some d) (sv_chans s ! vc) = Inr c'" by (rule pump_total [OF inv th])
  then have "s' = on_chan vc c' s" using p False by (simp add: udp_pump_def)
  moreover have "sreach (c', if sendable d (sv_chans s ! vc) then dss ! vc @ [d] else dss ! vc)"
    by (rule sreach.step [OF thread_channel(3) [OF inv th] sstep.Send [OF c' len]])
  ultimately show ?thesis using srv_inv_on_chan [OF inv, of vc c'] thread_channel(2) [OF inv th] by (simp add: own_ok_def)
qed

lemma srv_inv_step: "srv_step z z' \<Longrightarrow> srv_inv z \<Longrightarrow> srv_inv z'"
proof (induction rule: srv_step.induct)
  case (Accept e s r s' dss)
  have "accept_step e s \<noteq> None" using Accept(1) by simp
  from accept_reach [OF Accept(2) this] Accept(1) show ?case by auto
next
  case (Channel vc s dss c')
  have "sreach (c', dss ! vc)" using Channel(1,2,4) sreach.step [OF _ Channel(3)] by (simp add: srv_inv_def own_ok_def)
  then show ?case using srv_inv_on_chan [OF Channel(4), of vc c' "dss ! vc"] Channel(2) by (simp add: own_ok_def)
next
  case (Signal s dss)
  show ?case by (rule srv_inv_cong [OF _ _ _ _ Signal])
    (simp_all add: server_signalHandler_def server_stop_def CloseAllSockets_def close_socket_def Let_def peers_pos_ops)
qed (rule srv_inv_pump)

lemma srv_inv_reach: "srv_reach z \<Longrightarrow> srv_inv z"
  by (induction rule: srv_reach.induct) (auto intro: srv_inv_start srv_inv_step)

section \<open>The program goes on\<close>


section \<open>A server with one client\<close>

lemma accept_all_reach:
  "accept_all es s = Some (Inr (LoopGoesOn, s')) \<Longrightarrow> srv_reach (s, dss) \<Longrightarrow> \<exists>dss'. srv_reach (s', dss')"
proof (induction es arbitrary: s dss)
  case (Cons e es)
  then obtain s1 where s1: "accept_step e s = Some (Inr (LoopGoesOn, s1))" "accept_all es s1 = Some (Inr (LoopGoesOn, s'))"
    by (auto split: option.splits sum.splits accept_end.splits prod.splits)
  show ?case by (rule Cons.IH [OF s1(2)]) (rule srv_reach.step [OF Cons.prems(2) srv_step.Accept [OF s1(1)]])
qed auto

lemma one_client_reach:
  obtains s dss vc where "srv_reach (s, dss)" and "vc < length (sv_chans s)" and "sv_owner s ! vc \<noteq> None" and "opened (sv_chans s ! vc)"
proof -
  obtain s vc where s: "accept_all hellos empty_server = Some (Inr (LoopGoesOn, s))" "map_of (vcs s) 5 = Some vc" "opened (sv_chans s ! vc)" "server_inv s"
    using new_client_outcome [OF server_inv_empty hellos_ok(9-11,1-8)] by blast
  have "server_start 3 0 0 (Server_init 0 ServerConfiguration_init) = (True, empty_server)"
    by (simp add: server_start_def Listen_def Server_init_def empty_server_def)
  from accept_all_reach [OF s(1) srv_reach.init [OF this]] obtain dss where r: "srv_reach (s, dss)" by blast
  have vc: "vc < length (sv_chans s)" using s(2,4) by (simp add: server_inv_def vcs_inv_def)
  then have "own_ok (sv_owner s ! vc) (sv_chans s ! vc) (dss ! vc)" using srv_inv_reach [OF r] by (simp add: srv_inv_def)
  then have "sv_owner s ! vc \<noteq> None" using s(3) unfolding own_ok_def by metis
  with r vc s(3) show ?thesis using that by blast
qed


end
