(* ===== verification/Diagnostics.thy ===== *)
theory Diagnostics
  imports Number_Text Reorder Send_Status Tcp_Connection
begin

text \<open>
  The texts of the reorder thread's log (\<^verbatim>\<open>src/src/common/TcpVirtualChannel.cpp\<close>): the summaries per
  connection, the warning about a skipped gap and the health line. Numbers are written in decimal, as
  \<^verbatim>\<open>std::format\<close> writes them. The summaries can be read back.
\<close>

section \<open>Texts\<close>

definition int_text :: "int \<Rightarrow> string" where
  "int_text x = (if x < 0 then ''-'' @ decimal (nat (- x)) else decimal (nat x))"

definition id_text :: "u64 \<Rightarrow> string" where
  "id_text m = decimal (unat m)"

fun commas :: "string list \<Rightarrow> string" where
  "commas [] = ''''"
| "commas [x] = x"
| "commas (x # y # xs) = x @ '','' @ commas (y # xs)"

definition rx_entry :: "time \<Rightarrow> 'a reorder_scheme \<Rightarrow> nat \<Rightarrow> string" where
  "rx_entry now s i =
     (if \<not> lastRxValid s ! i then decimal i @ '':-''
      else decimal i @ '':'' @ id_text (lastRxMessageId s ! i) @ ''@'' @ int_text (ns_to_ms (now - lastRxTime s ! i)) @ ''ms'')"

definition rx_text :: "time \<Rightarrow> 'a reorder_scheme \<Rightarrow> string" where
  "rx_text now s = ''rx=['' @ commas (map (rx_entry now s) [0..<length (lastRxValid s)]) @ '']''"

definition tx_entry :: "int \<Rightarrow> ConnSendStats list \<Rightarrow> nat \<Rightarrow> string" where
  "tx_entry nowMs stats i =
     (let s = stats ! i
      in if \<not> st_valid s then decimal i @ '':-''
         else decimal i @ '':'' @ id_text (st_lastTxMessageId s) @ ''@'' @ int_text (nowMs - st_lastTxTimeMs s) @ ''ms/n'' @
           id_text (st_txCount s) @ ''/r'' @ id_text (st_reenqueueCount s) @ ''/s'' @ id_text (st_slowSendCount s))"

definition tx_text :: "int \<Rightarrow> ConnSendStats list \<Rightarrow> string" where
  "tx_text nowMs stats = ''tx=['' @ commas (map (tx_entry nowMs stats) [0..<length stats]) @ '']''"

definition buffered_text :: "nat list \<Rightarrow> nat \<Rightarrow> string" where
  "buffered_text bufByConn bufUnknown =
     ''bufByConn=['' @ commas (map (\<lambda>i. decimal i @ '':'' @ decimal (bufByConn ! i)) [0..<length bufByConn]) @
     (if bufUnknown > 0 then '',u:'' @ decimal bufUnknown else '''') @ '']''"

text \<open>What the suspected connection is doing; without one the text is empty.\<close>

definition send_diag :: "int \<Rightarrow> TcpConnection option \<Rightarrow> string" where
  "send_diag nowMs conn =
     (case conn of
        None \<Rightarrow> ''''
      | Some c \<Rightarrow>
          if diagSendInFlight c
          then '', sendInFlight=true sendMsgId='' @ id_text (diagInFlightMessageIdVal c) @
               '' sendAgeMs='' @ int_text (nowMs - diagInFlightStartMsVal c)
          else '', sendIdle lastSendMsgId='' @ id_text (diagLastSendCompletedMessageIdVal c))"

definition gap_message :: "gap_report \<Rightarrow> int \<Rightarrow> string \<Rightarrow> string \<Rightarrow> string \<Rightarrow> string" where
  "gap_message g suspectPendingBytes sendDiag rxSummary txSummary =
     ''Reorder timeout ('' @ int_text (gr_elapsedMs g) @ ''ms): skipping messageIds '' @ id_text (gr_missingStart g) @ ''-'' @
     id_text (gr_missingEnd g) @ '', advancing to '' @ id_text (gr_skipTo g) @ ''. Buffered='' @ decimal (gr_mapSize g) @
     '' (lastDeliveredConn='' @ int_text (gr_lastDelivConn g) @ '', firstBuffered='' @ id_text (gr_skipTo g) @
     '' conn='' @ int_text (gr_firstBufConn g) @ '', lastBuffered='' @ id_text (gr_lastBuf g) @ '' conn='' @ int_text (gr_lastBufConn g) @
     '', suspectConn='' @ int_text (gr_suspectConn g) @ '' suspectRx='' @ id_text (if gr_suspectConn g = -1 then 0 else gr_suspectLastRx g) @
     ''@'' @ int_text (if gr_suspectConn g = -1 then 0 else gr_suspectAgeMs g) @ ''ms pendingBytes='' @ int_text suspectPendingBytes @
     sendDiag @ '', '' @ buffered_text (gr_bufByConn g) (gr_bufUnknown g) @ '', '' @ rxSummary @ '', '' @ txSummary @ '')''"

definition health_line :: "time \<Rightarrow> nat \<Rightarrow> ConnSendStats list \<Rightarrow> 'a reorder_scheme \<Rightarrow> string" where
  "health_line now queueDepth stats s =
     ''[VC] Health: nextMsgId='' @ id_text (nextMessageId s) @ '' buffered='' @ decimal (length (receivedDataMap s)) @
     '' queueDepth='' @ decimal queueDepth @ '' gap='' @ (if gapTimerActive s then ''active'' else ''none'') @
     '', '' @ rx_text now s @ '', '' @ tx_text (ns_to_ms now) stats"

section \<open>Reading them back\<close>

lemma decimal_inj: "decimal a = decimal b \<longleftrightarrow> a = b"
  by (metis decimal_value)

lemma takeWhile_digits: "\<not> is_digit c \<Longrightarrow> takeWhile is_digit (decimal n @ c # r) = decimal n"
  using decimal_digits [of n] by (simp add: takeWhile_append2)

lemma decimal_cons_inj:
  assumes "\<not> is_digit c" and "\<not> is_digit d"
  shows "decimal a @ c # r = decimal b @ d # r' \<longleftrightarrow> a = b \<and> c = d \<and> r = r'"
proof
  assume e: "decimal a @ c # r = decimal b @ d # r'"
  then have "decimal a = decimal b" using takeWhile_digits [OF assms(1), of a r] takeWhile_digits [OF assms(2), of b r'] by simp
  with e show "a = b \<and> c = d \<and> r = r'" by (simp add: decimal_inj)
qed simp

lemma int_text_cons_inj:
  assumes "\<not> is_digit c" and "\<not> is_digit d"
  shows "int_text a @ c # r = int_text b @ d # r' \<longleftrightarrow> a = b \<and> c = d \<and> r = r'"
proof -
  have sign: "decimal n @ x \<noteq> CHR ''-'' # y" for n x y
    using decimal_digits [of n] decimal_nonempty [of n] digit_plain by (cases "decimal n") auto
  show ?thesis using decimal_cons_inj [OF assms] sign [symmetric] sign by (auto simp: int_text_def)
qed

lemma id_text_cons_inj:
  "\<not> is_digit c \<Longrightarrow> \<not> is_digit d \<Longrightarrow> id_text a @ c # r = id_text b @ d # r' \<longleftrightarrow> a = b \<and> c = d \<and> r = r'"
  by (simp add: id_text_def decimal_cons_inj word_unat_eq_iff)

lemma id_text_inj: "id_text a = id_text b \<longleftrightarrow> a = b"
  by (simp add: id_text_def decimal_inj word_unat_eq_iff)

lemma int_text_inj: "int_text a = int_text b \<longleftrightarrow> a = b"
proof -
  have "\<not> is_digit (CHR ''m'')" by (simp add: is_digit_def)
  from int_text_cons_inj [OF this this, of a "[]" b "[]"] show ?thesis by (metis append_same_eq)
qed

lemma no_comma [simp]: "CHR '','' \<notin> set (decimal n)" "CHR '','' \<notin> set (int_text x)" "CHR '','' \<notin> set (id_text m)"
proof -
  show d: "CHR '','' \<notin> set (decimal n)" for n using decimal_digits [of n] by (auto simp: is_digit_def)
  show "CHR '','' \<notin> set (int_text x)" "CHR '','' \<notin> set (id_text m)" using d by (simp_all add: int_text_def id_text_def)
qed

lemma separators: "\<not> is_digit (CHR '':'')" "\<not> is_digit (CHR ''@'')" "\<not> is_digit (CHR ''m'')" "\<not> is_digit (CHR ''/'')" "\<not> is_digit (CHR ''-'')"
  by (simp_all add: is_digit_def)

lemma comma_split:
  assumes "CHR '','' \<notin> set x" and "CHR '','' \<notin> set x'"
  shows "x @ CHR '','' # r = x' @ CHR '','' # r' \<longleftrightarrow> x = x' \<and> r = r'"
  using assms by (auto simp: append_eq_append_conv2 Cons_eq_append_conv append_eq_Cons_conv)

lemma commas_Cons: "commas (x # xs) = x @ (if xs = [] then [] else CHR '','' # commas xs)"
  by (cases xs) simp_all

text \<open>A list of entries without commas, none of them empty, is determined by the joined text.\<close>

lemma commas_inj:
  assumes "\<forall>x \<in> set xs \<union> set ys. CHR '','' \<notin> set x \<and> x \<noteq> []"
  shows "commas xs = commas ys \<longleftrightarrow> xs = ys"
  using assms
proof (induction xs arbitrary: ys)
  case Nil
  then show ?case by (cases ys) (auto simp: commas_Cons)
next
  case (Cons x xs)
  show ?case
  proof (cases ys)
    case Nil
    then show ?thesis using Cons.prems by (auto simp: commas_Cons)
  next
    case (Cons y ys')
    have ok: "CHR '','' \<notin> set x" "CHR '','' \<notin> set y" using Cons.prems Cons by auto
    have IH: "commas xs = commas ys' \<longleftrightarrow> xs = ys'" by (rule Cons.IH) (use Cons.prems Cons in auto)
    have ne: "x @ CHR '','' # r \<noteq> y" "y @ CHR '','' # r \<noteq> x" for r using ok by auto
    note ne [symmetric]
    with ne show ?thesis using IH comma_split [OF ok] Cons by (cases "xs = []"; cases "ys' = []") (simp_all add: commas_Cons)
  qed
qed

lemma dash_no_number: "id_text m @ r \<noteq> ''-''" "''-'' \<noteq> id_text m @ r"
proof -
  show "id_text m @ r \<noteq> ''-''"
    using decimal_digits [of "unat m"] decimal_nonempty [of "unat m"] separators(5) by (cases "decimal (unat m)") (auto simp: id_text_def)
  then show "''-'' \<noteq> id_text m @ r" by (rule not_sym)
qed

lemma map_upt_eq: "map f [0..<m] = map g [0..<n] \<longleftrightarrow> m = n \<and> (\<forall>i < m. f i = g i)"
  by (auto simp: list_eq_iff_nth_eq)

lemma rx_entry_clean: "CHR '','' \<notin> set (rx_entry now s i)" "rx_entry now s i \<noteq> []"
  by (simp_all add: rx_entry_def)

lemma rx_entry_inj:
  "rx_entry now s i = rx_entry now' s' i \<longleftrightarrow> lastRxValid s ! i = lastRxValid s' ! i \<and>
     (lastRxValid s ! i \<longrightarrow> lastRxMessageId s ! i = lastRxMessageId s' ! i \<and>
        ns_to_ms (now - lastRxTime s ! i) = ns_to_ms (now' - lastRxTime s' ! i))"
  by (cases "lastRxValid s ! i"; cases "lastRxValid s' ! i")
    (simp_all add: rx_entry_def id_text_cons_inj int_text_cons_inj int_text_inj separators dash_no_number)

text \<open>
  The receive summary is faithful: two states have the same text exactly if they have the same number of
  connections and agree, connection by connection, on whether anything was received and on the id and
  the age of what was received last. The same holds of the send summary and the statistics.
\<close>

theorem rx_text_readable:
  "rx_text now s = rx_text now' s' \<longleftrightarrow> length (lastRxValid s) = length (lastRxValid s') \<and>
     (\<forall>i < length (lastRxValid s). lastRxValid s ! i = lastRxValid s' ! i \<and>
        (lastRxValid s ! i \<longrightarrow> lastRxMessageId s ! i = lastRxMessageId s' ! i \<and>
           ns_to_ms (now - lastRxTime s ! i) = ns_to_ms (now' - lastRxTime s' ! i)))"
proof -
  let ?xs = "map (rx_entry now s) [0..<length (lastRxValid s)]" and ?ys = "map (rx_entry now' s') [0..<length (lastRxValid s')]"
  have "commas ?xs = commas ?ys \<longleftrightarrow> ?xs = ?ys" by (rule commas_inj) (unfold set_map ball_Un ball_simps, intro conjI ballI rx_entry_clean)
  moreover have "?xs = ?ys \<longleftrightarrow> length (lastRxValid s) = length (lastRxValid s') \<and>
    (\<forall>i < length (lastRxValid s). rx_entry now s i = rx_entry now' s' i)"
    by (rule map_upt_eq)
  moreover have "rx_text now s = rx_text now' s' \<longleftrightarrow> commas ?xs = commas ?ys" by (simp only: rx_text_def append_same_eq same_append_eq)
  ultimately show ?thesis by (simp only: rx_entry_inj)
qed

lemma tx_entry_clean: "CHR '','' \<notin> set (tx_entry nowMs stats i)" "tx_entry nowMs stats i \<noteq> []"
  by (simp_all add: tx_entry_def Let_def)

lemma tx_entry_inj:
  "tx_entry nowMs st i = tx_entry nowMs' st' i \<longleftrightarrow> st_valid (st ! i) = st_valid (st' ! i) \<and>
     (st_valid (st ! i) \<longrightarrow> st_lastTxMessageId (st ! i) = st_lastTxMessageId (st' ! i) \<and>
        nowMs - st_lastTxTimeMs (st ! i) = nowMs' - st_lastTxTimeMs (st' ! i) \<and> st_txCount (st ! i) = st_txCount (st' ! i) \<and>
        st_reenqueueCount (st ! i) = st_reenqueueCount (st' ! i) \<and> st_slowSendCount (st ! i) = st_slowSendCount (st' ! i))"
  by (cases "st_valid (st ! i)"; cases "st_valid (st' ! i)")
    (simp_all add: tx_entry_def Let_def id_text_cons_inj int_text_cons_inj id_text_inj separators dash_no_number)

theorem tx_text_readable:
  "tx_text nowMs st = tx_text nowMs' st' \<longleftrightarrow> length st = length st' \<and>
     (\<forall>i < length st. st_valid (st ! i) = st_valid (st' ! i) \<and>
       (st_valid (st ! i) \<longrightarrow> st_lastTxMessageId (st ! i) = st_lastTxMessageId (st' ! i) \<and>
          nowMs - st_lastTxTimeMs (st ! i) = nowMs' - st_lastTxTimeMs (st' ! i) \<and> st_txCount (st ! i) = st_txCount (st' ! i) \<and>
          st_reenqueueCount (st ! i) = st_reenqueueCount (st' ! i) \<and> st_slowSendCount (st ! i) = st_slowSendCount (st' ! i)))"
proof -
  let ?xs = "map (tx_entry nowMs st) [0..<length st]" and ?ys = "map (tx_entry nowMs' st') [0..<length st']"
  have "commas ?xs = commas ?ys \<longleftrightarrow> ?xs = ?ys" by (rule commas_inj) (unfold set_map ball_Un ball_simps, intro conjI ballI tx_entry_clean)
  moreover have "?xs = ?ys \<longleftrightarrow> length st = length st' \<and> (\<forall>i < length st. tx_entry nowMs st i = tx_entry nowMs' st' i)"
    by (rule map_upt_eq)
  moreover have "tx_text nowMs st = tx_text nowMs' st' \<longleftrightarrow> commas ?xs = commas ?ys" by (simp only: tx_text_def append_same_eq same_append_eq)
  ultimately show ?thesis by (simp only: tx_entry_inj)
qed

end
