(* ===== verification/Delivery.thy ===== *)
theory Delivery
  imports Sender_Complete
begin

text \<open>
  The two halves together: what the receiver's IO thread takes from the connections is what the sender
  wrote on them (\<open>received_from\<close>), hence what the receiving application is handed are payloads that the
  sender accepted. When the sender has come to rest and the receiver has read everything
  (\<open>all_received\<close>), all of them have been handed over.
\<close>

section \<open>Genuine payloads\<close>

text \<open>
  A message that the receiver's IO thread took from a connection: the octets it read, in however many
  rounds and chunks, are an initial part of what the sender wrote on one of its connections.
\<close>

definition received_from :: "chan \<Rightarrow> DeliveryItem \<Rightarrow> bool" where
  "received_from c it \<longleftrightarrow> (\<exists>k rounds later. k < length (heap c) \<and> (\<forall>cs \<in> set rounds. [] \<notin> set cs) \<and>
     concat (concat rounds) @ later = wire (heap c ! k) \<and>
     DataCallback (di_messageId it) (di_data it) (di_sourceConnIndex it)
       \<in> set (fst (io_rounds (di_sourceConnIndex it) rounds empty_ReadBuffer)))"

lemma read_genuine:
  assumes "sreach (c, ds)" and "k < length (heap c)" and "\<forall>cs \<in> set rounds. [] \<notin> set cs"
    and "concat (concat rounds) @ later = wire (heap c ! k)"
    and ev: "DataCallback m d ci' \<in> set (fst (io_rounds ci rounds empty_ReadBuffer))"
  shows "ci' = ci \<and> unat m < length ds \<and> d = ds ! unat m"
proof -
  obtain ps later' where ps: "wire (heap c ! k) @ later' = stream_bytes ps" "good_packets ds ps"
    by (rule wire_prefix_of_good [OF assms(1,2)])
  have all: "concat (concat rounds) @ (later @ later') = stream_bytes ps" using assms(4) ps(1) by (metis append.assoc)
  have ok: "list_all packet_ok ps" using ps(2) by (simp add: good_packets_def)
  obtain ps1 ps2 r where p: "ps = ps1 @ ps2" "fst (io_rounds ci rounds empty_ReadBuffer) = map (packet_event ci) ps1"
    by (rule io_rounds_prefix [OF ok assms(3) all])
  then obtain q where q: "q \<in> set ps1" "packet_event ci q = DataCallback m d ci'" using ev by auto
  have "q = PData m d \<and> ci' = ci" using q(2) by (cases q) simp_all
  moreover have "sent_packet ds q" using ps(2) p(1) q(1) by (auto simp: good_packets_def list_all_iff)
  ultimately show ?thesis by auto
qed

lemma received_genuine:
  assumes "sreach (c, ds)" and "received_from c it"
  shows "unat (di_messageId it) < length ds \<and> di_data it = ds ! unat (di_messageId it)"
  using assms(2) read_genuine [OF assms(1)] unfolding received_from_def by blast

lemma handed_genuine:
  assumes "sreach (c, ds)" and "rreach n t z" and "\<forall>it \<in> set (offered z). received_from c it" and "it \<in> set (handed z)"
  shows "unat (di_messageId it) < length ds \<and> di_data it = ds ! unat (di_messageId it)"
proof -
  from rinv_reach [OF assms(2)] assms(4) have "from_offered z (di_messageId it) (di_data it)" unfolding rinv_def by blast
  then obtain x where "x \<in> set (offered z)" "di_messageId x = di_messageId it" "di_data x = di_data it"
    unfolding from_offered_def by blast
  with received_genuine [OF assms(1), of x] assms(3) show ?thesis by auto
qed

lemma handed_prefix:
  assumes "sreach (c, ds)" and "rreach n t z" and "\<forall>it \<in> set (offered z). received_from c it" and "\<not> skipped z"
  shows "map di_data (handed z) = take (length (handed z)) ds" and "length (handed z) = unat (nextMessageId (rx z))"
proof -
  let ?ids = "map (unat \<circ> di_messageId) (handed z)"
  have ids: "?ids = [0..<unat (nextMessageId (rx z))]" using rinv_reach [OF assms(2)] assms(4) unfolding rinv_def by blast
  then show len: "length (handed z) = unat (nextMessageId (rx z))" by (metis length_map length_upt minus_nat.diff_0)
  have data: "map di_data (handed z) = map ((!) ds) ?ids" and bound: "\<forall>i \<in> set ?ids. i < length ds"
    using handed_genuine [OF assms(1-3)] by auto
  have "length (handed z) \<le> length ds" using bound unfolding ids len by (cases "unat (nextMessageId (rx z))") auto
  then have "map ((!) ds) [0..<length (handed z)] = take (length (handed z)) ds" by (intro nth_equalityI) simp_all
  then show "map di_data (handed z) = take (length (handed z)) ds" unfolding data ids len [symmetric] .
qed

lemma handed_subsequence:
  assumes "sreach (c, ds)" and "rreach n t z" and "\<forall>it \<in> set (offered z). received_from c it"
  shows "\<exists>ids. sorted_wrt (<) ids \<and> (\<forall>i \<in> set ids. i < length ds) \<and> map di_data (handed z) = map ((!) ds) ids"
proof -
  let ?ids = "map (unat \<circ> di_messageId) (handed z)"
  have "sorted_wrt (<) (map di_messageId (handed z))" using rinv_reach [OF assms(2)] unfolding rinv_def by blast
  then have sorted: "sorted_wrt (<) ?ids" by (simp add: sorted_wrt_map word_less_nat_alt)
  have "map di_data (handed z) = map ((!) ds) ?ids" and "\<forall>i \<in> set ?ids. i < length ds"
    using handed_genuine [OF assms] by auto
  with sorted show ?thesis by blast
qed

text \<open>
  The receiver has read everything that was written: each stream in some division into portions, and
  every data message among the callbacks went into the queues of the reorder thread.
\<close>

definition all_received :: "chan \<Rightarrow> rsys \<Rightarrow> bool" where
  "all_received c z \<longleftrightarrow> (\<forall>k < length (heap c). \<exists>rounds ci. (\<forall>cs \<in> set rounds. [] \<notin> set cs) \<and>
     concat (concat rounds) = wire (heap c ! k) \<and>
     (\<forall>m d. DataCallback m d ci \<in> set (fst (io_rounds ci rounds empty_ReadBuffer)) \<longrightarrow>
        (\<exists>it \<in> set (offered z). di_messageId it = m \<and> di_data it = d)))"

lemma written_offered:
  assumes "sreach (c, ds)" and "opened c" and "\<And>p. \<not> waiting c p" and "all_received c z" and "i < length ds"
  shows "\<exists>it \<in> set (offered z). di_messageId it = word_of_nat i"
proof -
  let ?q = "PData (word_of_nat i) (ds ! i)"
  obtain k qs rest where k: "k < length (heap c)" "wire (heap c ! k) = stream_bytes (qs @ [?q]) @ rest" "good_packets ds qs"
    using accepted_somewhere [OF assms(1,2,5)] assms(3) by blast
  obtain rounds ci where r: "\<forall>cs \<in> set rounds. [] \<notin> set cs" "concat (concat rounds) = wire (heap c ! k)"
    "\<forall>m d. DataCallback m d ci \<in> set (fst (io_rounds ci rounds empty_ReadBuffer)) \<longrightarrow>
        (\<exists>it \<in> set (offered z). di_messageId it = m \<and> di_data it = d)"
    using assms(4) k(1) unfolding all_received_def by blast
  obtain ps later where ps: "wire (heap c ! k) @ later = stream_bytes ps" "good_packets ds ps"
    by (rule wire_prefix_of_good [OF assms(1) k(1)])
  have "sinv (c, ds)" by (rule sinv_reach [OF assms(1)])
  then have "packet_ok ?q" using assms(5) by (simp add: sinv_def)
  then have "packet_event ci ?q \<in> set (fst (io_rounds ci rounds empty_ReadBuffer))"
    using k(2,3) r(1,2) ps by (intro io_rounds_complete [of ps rounds later qs _ rest]) (simp_all add: good_packets_def)
  then show ?thesis using r(3) by auto
qed

text \<open>What is missing at the front has not been offered when queues and buffer do not hold it.\<close>

lemma drained_handed:
  assumes "sreach (c, ds)" and "opened c" and "\<And>p. \<not> waiting c p"
    and "rreach n t z" and "\<forall>it \<in> set (offered z). received_from c it" and "all_received c z"
    and "\<not> skipped z" and "map_of (receivedDataMap (rx z)) (nextMessageId (rx z)) = None" and "queued (rx z) = []"
  shows "map di_data (handed z) = ds"
proof -
  let ?n = "nextMessageId (rx z)"
  note pre = handed_prefix [OF assms(1,4,5,7)]
  have "\<not> unat ?n < length ds"
  proof
    assume n: "unat ?n < length ds"
    obtain x where x: "x \<in> set (offered z)" "di_messageId x = ?n"
      using written_offered [OF assms(1-3,6) n] by auto
    with offered_accounted [OF assms(4) x(1)] assms(8,9) show False by simp
  qed
  with pre show ?thesis by simp
qed

lemma waiting_drained:
  "rreach n t z \<Longrightarrow> pc z = Check b \<or> pc z = Blocked b \<Longrightarrow> map_of (receivedDataMap (rx z)) (nextMessageId (rx z)) = None"
  using rinv_reach [of n t z] unfolding rinv_def by blast

lemma quiescent_handed:
  assumes "sreach (c, ds)" and "opened c" and "\<And>p. \<not> waiting c p"
    and "rreach n t z" and "\<forall>it \<in> set (offered z). received_from c it" and "all_received c z"
    and "\<not> skipped z" and "pc z = Check b \<or> pc z = Blocked b" and "queued (rx z) = []"
  shows "map di_data (handed z) = ds"
  by (rule drained_handed [OF assms(1-7) waiting_drained [OF assms(4,8)] assms(9)])

text \<open>A channel that accepted one payload, written by one iteration of its send thread.\<close>

definition sent_example :: chan where
  "sent_example = (case vc_send (Some [42]) example_chan of Inr c \<Rightarrow> c | Inl _ \<Rightarrow> example_chan)"

lemma sent_example_sends:
  "case send_iteration easy_env sent_example of Some (Inr (PacketSent d, c')) \<Rightarrow> map wire (heap c') = [VCDataPacket_bytes 0 [42], []] \<and>
     opened c' \<and> bq_queue (sendQueue c') = [] \<and> map_option st_pending (sendThread c') = Some None | _ \<Rightarrow> False"
  apply (simp add: sent_example_def example_chan_def vc_open_def vc_send_def easy_env_def TcpVirtualChannel_init_def
      TcpVCSendThread_init_def bq_enqueue_def BlockingQueue_init_def
      thread_start_def TcpVCIoThread_init_def StopableThread_init_def bq_setEnqueueNotifier_def bq_approxSize_def sdc_insert_def SentDataCache_init_def
      VC_MAX_DATA_PAYLOAD_SIZE_def SEND_QUEUE_DROP_THRESHOLD_def Let_def numeral_2_eq_2 upt_rec)
  apply (simp add: send_iteration_def drain_resends_def any_resend_alive_def bq_tryDequeue_def upd_st_def send_data_packet_def
      VC_FIRST_RESEND_CONN_INDEX_def VC_TCP_CONNECTIONS_def VC_RESEND_CONN_COUNT_def numeral_2_eq_2 upt_rec)
  apply (simp add: rateConnection_def refreshConnRuntimeInfo_def alive_def TcpConnection_init_def RuntimeInfo_init_def rate_score_def TCP_RUNTIME_REFRESH_MS_def ConnSendStats_init_def ms_def Let_def wrap_i32_def checked_i32_def in_i32_def)
  apply (simp add: connection_order_def best_score_def Let_def skip_conn_def send_attempt_def diagMarkSendStart_def diagMarkSendEnd_def send_packet_on_def first_answer_def SendTcpDirect_def note_sent_def
     VCDataPacket_bytes_def recordMessage_def MessageTracker_init_def)
  done

lemma sent_example_reach: "sreach (sent_example, [[42]])"
proof -
  have s: "sendable [42] example_chan"
    by (simp add: sendable_def VC_MAX_DATA_PAYLOAD_SIZE_def bq_approxSize_def BlockingQueue_init_def)
  obtain c' where "vc_send (Some [42]) example_chan = Inr c'" by (rule vc_send_accept [OF s]) auto
  then have "vc_send (Some [42]) example_chan = Inr sent_example" by (simp add: sent_example_def)
  from sreach.step [OF open_reach sstep.Send [OF this]] s show ?thesis by simp
qed

lemma msg0_received:
  assumes "heap c \<noteq> []" and "wire (heap c ! 0) = VCDataPacket_bytes 0 [42]"
  shows "received_from c msg0"
proof -
  let ?w = "VCDataPacket_bytes 0 [42]"
  have "fst (io_rounds 0 [[?w]] empty_ReadBuffer) = map (packet_event 0) [PData 0 [42]]"
    by (intro conjunct1 [OF io_rounds_stream]) (simp_all add: VCDataPacket_bytes_def VC_MAX_DATA_PAYLOAD_SIZE_def)
  then show ?thesis using assms
    by (auto simp: received_from_def msg0_def VCDataPacket_bytes_def intro!: exI [of _ 0] exI [of _ "[[?w]]"])
qed

lemma sent_example_rest:
  obtains c where "sreach (c, [[42]])" and "opened c" and "\<And>p. \<not> waiting c p" and "length (heap c) = 2"
    and "wire (heap c ! 0) = VCDataPacket_bytes 0 [42]" and "wire (heap c ! 1) = []"
proof -
  obtain d c where c: "send_iteration easy_env sent_example = Some (Inr (PacketSent d, c))"
    "map wire (heap c) = [VCDataPacket_bytes 0 [42], []]" "opened c" "bq_queue (sendQueue c) = []" "map_option st_pending (sendThread c) = Some None"
    using sent_caseD [OF sent_example_sends] by (elim exE conjE)
  have len: "length (heap c) = 2" using c(2) by (metis length_map length_Cons list.size(3) numeral_2_eq_2)
  then have "wire (heap c ! 0) = VCDataPacket_bytes 0 [42]" "wire (heap c ! 1) = []"
    using c(2) by (metis nth_Cons_0 nth_map zero_less_numeral, metis One_nat_def nth_Cons_0 nth_Cons_Suc nth_map one_less_numeral_iff semiring_norm(76))
  then show ?thesis using that [of c] sreach.step [OF sent_example_reach sstep.Iterate [OF c(1)]] c(3-5) len by (auto simp: waiting_def)
qed

section \<open>Streams only grow\<close>

lemma replace_wires: "wires_grow (heap c) (heap (replaceConnection slot newFd now c))"
  by (auto simp: replaceConnection_def Let_def wires_grow_def nth_append)

lemma close_wires:
  assumes "vc_close who c = Inr c'"
  shows "wires_grow (heap c) (heap c')"
proof -
  have ct: "close_threads who c1 = Inr c2 \<Longrightarrow> heap c2 = heap c1" for c1 c2
    by (auto simp: close_threads_def and_then_eq_Inr split: option.splits if_splits)
  have cr: "close_rest who c1 = Inr c2 \<Longrightarrow> heap c2 = heap c1" for c1 c2
    by (auto simp: close_rest_def Let_def and_then_eq_Inr split: if_splits)
  have da: "wires_grow (heap c1) (heap (disconnect_all c1))" for c1
    by (simp add: disconnect_all_def wires_grow_disconnects)
  show ?thesis using assms da
    by (auto simp: vc_close_def Let_def and_then_eq_Inr dest!: ct cr split: if_splits) metis
qed

lemma send_iteration_wires:
  assumes it: "send_iteration e c = Some (Inr (r, c'))"
  shows "wires_grow (heap c) (heap c')"
proof (cases "\<exists>t0. sendThread c = Some t0 \<and> th_running (st_thr t0)")
  case False
  then show ?thesis using it by (auto simp: send_iteration_def split: option.splits)
next
  case True
  then obtain c1 where dr: "drain_resends e c = Some c1" using it by (auto simp: send_iteration_def split: option.splits)
  have g: "wires_grow (heap c) (heap c1)" using drain_resends_grows [OF dr] by (simp add: grows_def)
  show ?thesis
  proof (cases "sendThread c1")
    case None
    then show ?thesis using it True dr g by (auto simp: send_iteration_def)
  next
    case (Some t)
    obtain r0 q where dq: "bq_tryDequeue (sendQueue c1) = (r0, q)" by fastforce
    define c2 where "c2 = (case st_pending t of Some d \<Rightarrow> upd_st (\<lambda>t. t\<lparr>st_pending := None\<rparr>) c1 | None \<Rightarrow> c1\<lparr>sendQueue := q\<rparr>)"
    define dv where "dv = (case st_pending t of Some d \<Rightarrow> Some d | None \<Rightarrow> r0)"
    have "t\<lparr>st_pending := None\<rparr> = t" if "st_pending t = None" using that by simp
    then have h: "heap c2 = heap c1" "sendThread c2 = Some (t\<lparr>st_pending := None\<rparr>)"
      by (auto simp: c2_def Some upd_st_def split: option.split)
    have res: "(case dv of None \<Rightarrow> Some (Inr (IdleWait, c2))
        | Some d \<Rightarrow> if \<not> th_running (st_thr t) then Some (Inr (PacketDropped d, c2)) else send_data_packet e d (t\<lparr>st_pending := None\<rparr>) c2)
        = Some (Inr (r, c'))"
      using True dr Some dq it by (auto simp: send_iteration_def c2_def dv_def split: option.split)
    then have "c' = c2 \<or> (\<exists>d. send_data_packet e d (t\<lparr>st_pending := None\<rparr>) c2 = Some (Inr (r, c')))"
      by (auto split: option.splits if_splits)
    then have "wires_grow (heap c2) (heap c')" using send_data_packet_grows(1) h(2) by fastforce
    then show ?thesis using g wires_grow_trans h(1) by simp
  qed
qed

lemma vc_send_wires:
  assumes "vc_send (Some d) c = Inr c'" and "cache_ok (sentDataCache c)"
  shows "heap c' = heap c"
proof (cases "sendable d c")
  case True
  show ?thesis by (rule vc_send_accept [OF True assms(2)]) (use assms(1) in auto)
next
  case False
  then show ?thesis using vc_send_reject [of "Some d" c] assms(1) by simp
qed

lemma sstep_wires: "sstep s s' \<Longrightarrow> sinv s \<Longrightarrow> wires_grow (heap (fst s)) (heap (fst s'))"
proof (induction rule: sstep.induct)
  case (Send d c c' ds)
  then show ?case using vc_send_wires by (simp add: sinv_def)
next
  case (Iterate e c r c' ds)
  then show ?case using send_iteration_wires by simp
next
  case (ResendRequest nowMs m c c' ds)
  then show ?case using processResendRequest_grows by (auto simp: grows_def)
next
  case (MissingNotify now nowMs ids c c' ds)
  have "grows c c'" using missing_loop_grows [OF MissingNotify(1) [unfolded processMissingNotify_def]] by simp
  then show ?case by (simp add: grows_def)
next
  case (Lost c ds r)
  have "grows c (c\<lparr>heap := disconnect_ref r (heap c)\<rparr>)" by (rule grows_heap) (simp add: disconnect_ref_def wires_grow_conn_upd)
  then show ?case using grows_disconnect by (auto simp: grows_def)
qed (auto simp: replace_wires close_wires default_missing_notify_def)

lemma received_from_grow:
  assumes "received_from c it" and "wires_grow (heap c) (heap c')"
  shows "received_from c' it"
proof -
  obtain k rounds later where k: "k < length (heap c)" "\<forall>cs \<in> set rounds. [] \<notin> set cs" "concat (concat rounds) @ later = wire (heap c ! k)"
    "DataCallback (di_messageId it) (di_data it) (di_sourceConnIndex it) \<in> set (fst (io_rounds (di_sourceConnIndex it) rounds empty_ReadBuffer))"
    using assms(1) unfolding received_from_def by blast
  obtain x where "k < length (heap c')" "wire (heap c' ! k) = wire (heap c ! k) @ x" using assms(2) k(1) unfolding wires_grow_def by fastforce
  then show ?thesis using k unfolding received_from_def by (metis append.assoc)
qed

end
