(* ===== verification/Lossy_Channel.thy ===== *)
theory Lossy_Channel
  imports Vc_Prelude "HOL-Library.Sublist"
begin

text \<open>
  The service that the virtual channel offers to the datagrams it carries, as two small transition
  systems: a channel that may lose messages but neither reorders, repeats, alters nor invents them, and
  a channel that loses none. The interface between a detailed system and such a specification is a
  refinement mapping.
\<close>

section \<open>Refinement mappings\<close>

text \<open>
  A detailed system (\<open>start\<close>, \<open>step\<close>) with an invariant, a specification (\<open>astep\<close>) and a function that
  reads the state of the specification off a detailed state. A detailed step is some number of steps of the specification.
\<close>

locale refinement_mapping =
  fixes start :: "'s \<Rightarrow> bool" and step :: "'s \<Rightarrow> 's \<Rightarrow> bool"
    and astart :: 'a and astep :: "'a \<Rightarrow> 'a \<Rightarrow> bool"
    and invar :: "'s \<Rightarrow> bool" and abst :: "'s \<Rightarrow> 'a"
  assumes start_invar: "start s \<Longrightarrow> invar s"
    and start_abst: "start s \<Longrightarrow> abst s = astart"
    and step_invar: "step s s' \<Longrightarrow> invar s \<Longrightarrow> invar s'"
    and step_abst: "step s s' \<Longrightarrow> invar s \<Longrightarrow> astep\<^sup>*\<^sup>* (abst s) (abst s')"
begin

lemma run_refines:
  assumes "step\<^sup>*\<^sup>* s0 s" and "start s0"
  shows "invar s \<and> astep\<^sup>*\<^sup>* astart (abst s)"
  using assms(1)
proof (induction rule: rtranclp_induct)
  case base
  then show ?case using start_invar [OF assms(2)] start_abst [OF assms(2)] by simp
next
  case (step s s')
  then have "invar s'" and "astep\<^sup>*\<^sup>* (abst s) (abst s')" using step_invar step_abst by blast+
  with step.IH show ?case by (meson rtranclp_trans)
qed

text \<open>Whatever the specification keeps, the detailed system keeps.\<close>

lemma run_keeps:
  assumes "step\<^sup>*\<^sup>* s0 s" and "start s0" and "P astart" and "\<And>a a'. astep a a' \<Longrightarrow> P a \<Longrightarrow> P a'"
  shows "P (abst s)"
proof -
  have "astep\<^sup>*\<^sup>* astart (abst s)" using run_refines [OF assms(1,2)] by blast
  then show ?thesis by (induction rule: rtranclp_induct) (use assms(3,4) in auto)
qed

end

section \<open>The two channels\<close>

record channel =
  ch_in :: "bytes list"
  ch_next :: nat
  ch_out :: "bytes list"

definition channel_empty :: channel where
  "channel_empty = \<lparr>ch_in = [], ch_next = 0, ch_out = []\<rparr>"

text \<open>The message number \<open>i\<close> comes out; those between \<open>ch_next\<close> and \<open>i\<close> are lost.\<close>

definition channel_deliver :: "nat \<Rightarrow> channel \<Rightarrow> channel" where
  "channel_deliver i ch = ch\<lparr>ch_out := ch_out ch @ [ch_in ch ! i], ch_next := Suc i\<rparr>"

inductive lossy_step :: "channel \<Rightarrow> channel \<Rightarrow> bool" where
  Put: "lossy_step ch (ch\<lparr>ch_in := ch_in ch @ [d]\<rparr>)"
| Deliver: "ch_next ch \<le> i \<Longrightarrow> i < length (ch_in ch) \<Longrightarrow> lossy_step ch (channel_deliver i ch)"

inductive fifo_step :: "channel \<Rightarrow> channel \<Rightarrow> bool" where
  Put: "fifo_step ch (ch\<lparr>ch_in := ch_in ch @ [d]\<rparr>)"
| Deliver: "ch_next ch < length (ch_in ch) \<Longrightarrow> fifo_step ch (channel_deliver (ch_next ch) ch)"

text \<open>What the specifications promise.\<close>

definition in_order :: "channel \<Rightarrow> bool" where
  "in_order ch \<longleftrightarrow> ch_next ch \<le> length (ch_in ch) \<and> subseq (ch_out ch) (take (ch_next ch) (ch_in ch))"

definition in_full :: "channel \<Rightarrow> bool" where
  "in_full ch \<longleftrightarrow> ch_next ch \<le> length (ch_in ch) \<and> ch_out ch = take (ch_next ch) (ch_in ch)"

lemma channel_empty_ok [simp]: "in_order channel_empty" "in_full channel_empty"
  by (simp_all add: in_order_def in_full_def channel_empty_def)

lemma subseq_take_mono: "n \<le> i \<Longrightarrow> subseq (take n xs) (take i xs)"
  by (metis min.absorb1 prefix_imp_subseq take_is_prefix take_take)

lemma in_order_step: "lossy_step ch ch' \<Longrightarrow> in_order ch \<Longrightarrow> in_order ch'"
proof (induction rule: lossy_step.induct)
  case (Deliver ch i)
  have "subseq (ch_out ch) (take i (ch_in ch))"
    using Deliver(3) subseq_take_mono [OF Deliver(1), of "ch_in ch"] by (auto simp: in_order_def intro: subseq_order.trans)
  then show ?case using Deliver(2) by (simp add: in_order_def channel_deliver_def take_Suc_conv_app_nth subseq_append)
qed (auto simp: in_order_def)

lemma in_full_step: "fifo_step ch ch' \<Longrightarrow> in_full ch \<Longrightarrow> in_full ch'"
  by (induction rule: fifo_step.induct) (auto simp: in_full_def channel_deliver_def take_Suc_conv_app_nth)

lemma fifo_step_lossy: "fifo_step ch ch' \<Longrightarrow> lossy_step ch ch'"
  by (induction rule: fifo_step.induct) (auto intro: lossy_step.intros)

section \<open>Several steps\<close>

text \<open>Messages come out in one go: their numbers ascend from \<open>ch_next\<close>.\<close>

definition channel_deliver_all :: "nat list \<Rightarrow> channel \<Rightarrow> channel" where
  "channel_deliver_all ids ch = fold channel_deliver ids ch"

lemma channel_deliver_all_simps [simp]:
  "channel_deliver_all [] ch = ch"
  "channel_deliver_all (i # ids) ch = channel_deliver_all ids (channel_deliver i ch)"
  by (simp_all add: channel_deliver_all_def)

lemma channel_deliver_all_value:
  "channel_deliver_all ids ch =
     ch\<lparr>ch_out := ch_out ch @ map ((!) (ch_in ch)) ids, ch_next := (if ids = [] then ch_next ch else Suc (last ids))\<rparr>"
  by (induction ids arbitrary: ch) (simp_all add: channel_deliver_def)

lemma lossy_delivers:
  assumes "sorted_wrt (<) ids" and "\<forall>i \<in> set ids. ch_next ch \<le> i \<and> i < length (ch_in ch)"
  shows "lossy_step\<^sup>*\<^sup>* ch (channel_deliver_all ids ch)"
  using assms
proof (induction ids arbitrary: ch)
  case (Cons i ids)
  have "lossy_step ch (channel_deliver i ch)" using Cons.prems(2) by (intro lossy_step.Deliver) simp_all
  moreover have "lossy_step\<^sup>*\<^sup>* (channel_deliver i ch) (channel_deliver_all ids (channel_deliver i ch))"
    using Cons.prems by (intro Cons.IH) (auto simp: channel_deliver_def)
  ultimately show ?case by (simp add: converse_rtranclp_into_rtranclp)
qed simp

lemma fifo_delivers:
  assumes "ch_next ch \<le> m" and "m \<le> length (ch_in ch)"
  shows "fifo_step\<^sup>*\<^sup>* ch (channel_deliver_all [ch_next ch..<m] ch)"
  using assms
proof (induction "m - ch_next ch" arbitrary: ch)
  case (Suc k)
  have "fifo_step ch (channel_deliver (ch_next ch) ch)" using Suc by (intro fifo_step.Deliver) simp
  moreover have "fifo_step\<^sup>*\<^sup>* (channel_deliver (ch_next ch) ch) (channel_deliver_all [Suc (ch_next ch)..<m] (channel_deliver (ch_next ch) ch))"
    using Suc.hyps(1) [of "channel_deliver (ch_next ch) ch"] Suc by (simp add: channel_deliver_def)
  moreover have "[ch_next ch..<m] = ch_next ch # [Suc (ch_next ch)..<m]" using Suc(2) by (simp add: upt_conv_Cons)
  ultimately show ?case by (simp add: converse_rtranclp_into_rtranclp)
qed simp

end
