(* ===== verification/Reorder_Rounds.thy ===== *)
theory Reorder_Rounds
  imports Reorder_Steps
begin

text \<open>
  Progress of the reorder thread: from every reachable state in which it runs there is a schedule,
  without a gap timing out, that ends with empty queues and everything deliverable delivered, or
  with the thread asleep without a timeout (\<open>reorder_lost_wakeup\<close> shows that the latter happens).
\<close>

section \<open>Further invariants\<close>

definition rsane :: "nat \<Rightarrow> rsys \<Rightarrow> bool" where
  "rsane n z \<longleftrightarrow> length (connReceiveQueues (rx z)) = n \<and> (\<forall>q \<in> set (connReceiveQueues (rx z)). Capacity q = 1024) \<and>
     reorderTimeoutMs (rx z) = 4000 \<and> (pc z = Stopped \<longrightarrow> \<not> reorderRunning (rx z)) \<and> (\<forall>i. pc z = Scan i \<longrightarrow> i \<le> n) \<and>
     (length (offered z) < 2 ^ 64 \<longrightarrow> lastProcessedSeq (rx z) \<le> reorderEnqueueSeq (rx z) \<and>
        unat (reorderEnqueueSeq (rx z)) + (if prod z = PEnqueued then 1 else 0) = length (offered z))"

lemma work_timeout [simp]: "reorderTimeoutMs (snd (reorder_work n ck s)) = reorderTimeoutMs s"
  by (simp add: reorder_work_def handle_gap_def skip_gap_def Let_def split_beta)

lemma enqueue_fields:
  assumes "prd_enqueue it s = (ok, s')"
  shows "reorderTimeoutMs s' = reorderTimeoutMs s" "reorderRunning s' = reorderRunning s" "lastProcessedSeq s' = lastProcessedSeq s"
    "reorderEnqueueSeq s' = reorderEnqueueSeq s" "length (connReceiveQueues s') = length (connReceiveQueues s)"
  using assms by (auto simp: prd_enqueue_def Let_def split_beta split: if_splits)

lemma capacities_update: "\<forall>q \<in> set qs. Capacity q = 1024 \<Longrightarrow> Capacity q' = 1024 \<Longrightarrow> \<forall>q \<in> set (qs[i := q']). Capacity q = 1024"
  by (auto dest!: set_update_subset_insert [THEN subsetD])

lemma enqueue_capacities:
  assumes "prd_enqueue it s = (ok, s')" and "valid_conn it s" and "\<forall>q \<in> set (connReceiveQueues s). Capacity q = 1024"
  shows "\<forall>q \<in> set (connReceiveQueues s'). Capacity q = 1024"
proof (cases ok)
  case True
  let ?i = "nat (di_sourceConnIndex it)"
  have s': "s' = s\<lparr>connReceiveQueues := (connReceiveQueues s)[?i := snd (try_enqueue it (connReceiveQueues s ! ?i))]\<rparr>"
    using assms(1) True by (auto simp: prd_enqueue_def Let_def split_beta)
  have "Capacity (snd (try_enqueue it (connReceiveQueues s ! ?i))) = 1024" using assms(2,3) by (simp add: valid_conn_def)
  from capacities_update [OF assms(3) this, of ?i] show ?thesis by (simp add: s')
next
  case False
  then have "s' = s" using assms(1) by (auto simp: prd_enqueue_def Let_def split_beta)
  then show ?thesis using assms(3) by simp
qed

lemma seq_next: "unat (s :: u64) + 1 < 2 ^ 64 \<Longrightarrow> unat (s + 1) = unat s + 1"
  by (simp add: unat_word_ariths)

lemma rsane_step: "rstep z z' \<Longrightarrow> rsane n z \<Longrightarrow> rsane n z'"
proof (induction rule: rstep.induct)
  case (Enqueue z it s')
  note f = enqueue_fields [OF Enqueue(4)]
  have "\<forall>q \<in> set (connReceiveQueues s'). Capacity q = 1024"
    by (rule enqueue_capacities [OF Enqueue(4,2)]) (use Enqueue(5) in \<open>simp add: rsane_def\<close>)
  then show ?case using Enqueue(1,5) f by (auto simp: rsane_def)
next
  case (Count z)
  show ?case unfolding rsane_def
  proof (intro conjI impI)
    assume "length (offered (z\<lparr>rx := prd_count (rx z), prod := PCounted\<rparr>)) < 2 ^ 64"
    then have h: "lastProcessedSeq (rx z) \<le> reorderEnqueueSeq (rx z)" "unat (reorderEnqueueSeq (rx z)) + 1 = length (offered z)" "length (offered z) < 2 ^ 64"
      using Count by (simp_all add: rsane_def)
    then have u: "unat (reorderEnqueueSeq (rx z) + 1) = unat (reorderEnqueueSeq (rx z)) + 1" by (intro seq_next) simp
    then show "lastProcessedSeq (rx (z\<lparr>rx := prd_count (rx z), prod := PCounted\<rparr>)) \<le> reorderEnqueueSeq (rx (z\<lparr>rx := prd_count (rx z), prod := PCounted\<rparr>))"
      using h(1) by (simp add: prd_count_def word_le_nat_alt)
    show "unat (reorderEnqueueSeq (rx (z\<lparr>rx := prd_count (rx z), prod := PCounted\<rparr>))) +
        (if prod (z\<lparr>rx := prd_count (rx z), prod := PCounted\<rparr>) = PEnqueued then 1 else 0) = length (offered (z\<lparr>rx := prd_count (rx z), prod := PCounted\<rparr>))"
      using h(2) u by (simp add: prd_count_def)
  qed (use Count in \<open>auto simp: rsane_def prd_count_def\<close>)
next
  case (Notify z)
  then show ?case by (auto simp: rsane_def split: rpc.splits)
next
  case (Dequeue z i it q now acc s')
  have s': "s' = snd (accept_item now it ((rx z)\<lparr>connReceiveQueues := (connReceiveQueues (rx z))[i := q]\<rparr>))" using Dequeue(4) by simp
  have "Capacity q = Capacity (connReceiveQueues (rx z) ! i)"
    using Dequeue(3) by (auto simp: try_dequeue_def Let_def split: if_splits)
  then have "Capacity q = 1024" using Dequeue(2,5) by (simp add: rsane_def)
  then show ?case using Dequeue(1,2,5) capacities_update [of "connReceiveQueues (rx z)" q i] by (simp add: rsane_def s')
next
  case (Work z i ck out s')
  have "s' = snd (reorder_work (length (connReceiveQueues (rx z))) ck (rx z))" using Work(3) by simp
  then show ?case using Work(1,4) by (simp add: rsane_def split: wait_mode.splits)
qed (auto simp: rsane_def)

lemma rsane_reach: "rreach n t z \<Longrightarrow> rsane n z"
proof (induction rule: rreach.induct)
  case init
  show ?case by (simp add: rsane_def rsys_init_def reorder_init_def SpscQueue_init_def)
qed (rule rsane_step)

section \<open>Silent steps\<close>

text \<open>Steps of the receiver that neither take input nor skip a gap nor close.\<close>

definition rquiet :: "rsys \<Rightarrow> rsys \<Rightarrow> bool" where
  "rquiet z z' \<longleftrightarrow> rstep z z' \<and> offered z' = offered z \<and> skipped z' = skipped z \<and> reorderRunning (rx z') = reorderRunning (rx z)"

lemma rquiet_reach:
  assumes "rquiet\<^sup>*\<^sup>* z z'"
  shows "(rreach n t z \<longrightarrow> rreach n t z') \<and> offered z' = offered z \<and> skipped z' = skipped z \<and> reorderRunning (rx z') = reorderRunning (rx z)"
  using assms
proof (induction rule: rtranclp_induct)
  case (step z1 z2)
  then show ?case using rreach.step [of n t z1 z2] by (simp add: rquiet_def)
qed simp

lemma rquiet_trans: "rquiet\<^sup>*\<^sup>* a b \<Longrightarrow> rquiet\<^sup>*\<^sup>* b c \<Longrightarrow> rquiet\<^sup>*\<^sup>* a c"
  by (rule rtranclp_trans)

text \<open>The scan empties a queue and moves on; what the loop took is in the buffer.\<close>

lemma scan_slot:
  assumes "rreach n t z" and "pc z = Scan i" and "i < n"
  shows "\<exists>z'. rquiet\<^sup>*\<^sup>* z z' \<and> pc z' = Scan (Suc i) \<and> prod z' = prod z \<and> spsc_contents (connReceiveQueues (rx z') ! i) = [] \<and>
     (\<forall>j. j \<noteq> i \<longrightarrow> connReceiveQueues (rx z') ! j = connReceiveQueues (rx z) ! j)"
  using assms
proof (induction "length (spsc_contents (connReceiveQueues (rx z) ! i))" arbitrary: z)
  case 0
  have len: "i < length (connReceiveQueues (rx z))" using rsane_reach [OF 0(2)] 0(4) by (simp add: rsane_def)
  then have inv: "spsc_invar (connReceiveQueues (rx z) ! i)" using rinv_reach [OF 0(2)] by (simp add: rinv_def queues_ok_def)
  have c: "spsc_contents (connReceiveQueues (rx z) ! i) = []" using 0(1) by (metis length_0_conv)
  have "rquiet z (z\<lparr>pc := Scan (Suc i)\<rparr>)" using rstep.Empty [OF 0(3) len spsc.deq_empty [OF inv c]] by (simp add: rquiet_def)
  then show ?case using c by (intro exI [of _ "z\<lparr>pc := Scan (Suc i)\<rparr>"]) simp
next
  case (Suc k)
  let ?q = "connReceiveQueues (rx z) ! i"
  have len: "i < length (connReceiveQueues (rx z))" using rsane_reach [OF Suc(3)] Suc(5) by (simp add: rsane_def)
  then have inv: "spsc_invar ?q" using rinv_reach [OF Suc(3)] by (simp add: rinv_def queues_ok_def)
  obtain it r where c: "spsc_contents ?q = it # r" using Suc(2) by (cases "spsc_contents ?q") auto
  obtain q where q: "try_dequeue ?q = (Some it, q)" "spsc_contents q = r" using spsc.deq_Cons [OF inv c] by (cases "try_dequeue ?q") auto
  let ?s = "(rx z)\<lparr>connReceiveQueues := (connReceiveQueues (rx z))[i := q]\<rparr>"
  define z1 where "z1 = z\<lparr>rx := snd (accept_item 0 it ?s), got := got z \<or> fst (accept_item 0 it ?s)\<rparr>"
  have st: "rquiet z z1"
    using rstep.Dequeue [OF Suc(4) len q(1), of 0 "fst (accept_item 0 it ?s)" "snd (accept_item 0 it ?s)"] by (simp add: rquiet_def z1_def)
  have "k = length (spsc_contents (connReceiveQueues (rx z1) ! i))" "pc z1 = Scan i" "rreach n t z1"
    using Suc(2,4) len c q(2) rreach.step [OF Suc(3), of z1] st by (simp_all add: z1_def rquiet_def)
  from Suc(1) [OF this(1,3,2) Suc(5)] obtain z' where z': "rquiet\<^sup>*\<^sup>* z1 z'" "pc z' = Scan (Suc i)" "prod z' = prod z1"
    "spsc_contents (connReceiveQueues (rx z') ! i) = []" "\<forall>j. j \<noteq> i \<longrightarrow> connReceiveQueues (rx z') ! j = connReceiveQueues (rx z1) ! j" by blast
  have "rquiet\<^sup>*\<^sup>* z z'" using st z'(1) by (rule converse_rtranclp_into_rtranclp)
  then show ?case using z' by (intro exI [of _ z']) (simp add: z1_def)
qed

lemma scan_slots:
  assumes "rreach n t z" and "pc z = Scan i" and "i \<le> n"
  shows "\<exists>z'. rquiet\<^sup>*\<^sup>* z z' \<and> pc z' = Scan n \<and> prod z' = prod z \<and>
     (\<forall>j. i \<le> j \<and> j < n \<longrightarrow> spsc_contents (connReceiveQueues (rx z') ! j) = []) \<and>
     (\<forall>j < i. connReceiveQueues (rx z') ! j = connReceiveQueues (rx z) ! j)"
  using assms
proof (induction "n - i" arbitrary: z i)
  case 0
  then show ?case by (intro exI [of _ z]) auto
next
  case (Suc k)
  then have "i < n" by simp
  from scan_slot [OF Suc(3,4) this] obtain z1 where z1: "rquiet\<^sup>*\<^sup>* z z1" "pc z1 = Scan (Suc i)" "prod z1 = prod z"
    "spsc_contents (connReceiveQueues (rx z1) ! i) = []" "\<forall>j. j \<noteq> i \<longrightarrow> connReceiveQueues (rx z1) ! j = connReceiveQueues (rx z) ! j" by blast
  have r: "rreach n t z1" using rquiet_reach [OF z1(1)] Suc(3) by blast
  have "k = n - Suc i" "Suc i \<le> n" using Suc(2) by simp_all
  from Suc(1) [OF this(1) r z1(2) this(2)] obtain z' where z': "rquiet\<^sup>*\<^sup>* z1 z'" "pc z' = Scan n" "prod z' = prod z1"
    "\<forall>j. Suc i \<le> j \<and> j < n \<longrightarrow> spsc_contents (connReceiveQueues (rx z') ! j) = []"
    "\<forall>j < Suc i. connReceiveQueues (rx z') ! j = connReceiveQueues (rx z1) ! j" by blast
  have "spsc_contents (connReceiveQueues (rx z') ! j) = []" if "i \<le> j" "j < n" for j
    using that z'(4,5) z1(4) by (cases "j = i") auto
  then show ?case using rquiet_trans [OF z1(1) z'(1)] z' z1 by (intro exI [of _ z']) simp
qed

lemma queued_empty: "queued s = [] \<longleftrightarrow> (\<forall>j < length (connReceiveQueues s). spsc_contents (connReceiveQueues s ! j) = [])"
  by (auto simp: queued_def all_set_conv_all_nth)

text \<open>The rest of an iteration, with a clock at which no gap has timed out.\<close>

lemma quiet_work:
  assumes "rreach n t z" and "pc z = Scan n"
  shows "\<exists>z' b. rquiet z z' \<and> prod z' = prod z \<and> queued (rx z') = queued (rx z) \<and> (pc z' = Loop \<or> pc z' = Check b) \<and>
     map_of (receivedDataMap (rx z')) (nextMessageId (rx z')) = None"
proof -
  let ?ck = "example_clock (gapFirstSeen (rx z))" and ?s = "rx z"
  let ?w = "reorder_work n ?ck ?s"
  have len: "length (connReceiveQueues ?s) = n" and t: "reorderTimeoutMs ?s = 4000"
    using rsane_reach [OF assms(1)] by (simp_all add: rsane_def)
  have inv: "reorder_inv ?s" using rinv_reach [OF assms(1)] by (simp add: rinv_def)
  have quiet: "io_report (fst ?w) = None"
    using t by (simp add: reorder_work_def handle_gap_def example_clock_def ms_def Let_def split_beta)
  define z1 where "z1 = z\<lparr>rx := snd ?w, handed := handed z @ io_delivered (fst ?w), skipped := skipped z \<or> io_report (fst ?w) \<noteq> None,
       pc := (case reorder_wait (got z) (ck_wait ?ck) (snd ?w) of NoWait \<Rightarrow> Loop | WaitFor t \<Rightarrow> Check True | WaitIndefinitely \<Rightarrow> Check False)\<rparr>"
  have "rquiet z z1" using rstep.Work [OF assms(2), of ?ck "fst ?w" "snd ?w"] len quiet by (simp add: rquiet_def z1_def)
  moreover have "prod z1 = prod z" "queued (rx z1) = queued ?s" by (simp_all add: z1_def queued_def)
  moreover have "map_of (receivedDataMap (rx z1)) (nextMessageId (rx z1)) = None"
    using work_next_missing [OF inv] by (simp add: z1_def)
  moreover have "\<exists>b. pc z1 = Loop \<or> pc z1 = Check b" by (auto simp: z1_def split: wait_mode.split)
  ultimately show ?thesis by blast
qed

section \<open>Rounds\<close>

text \<open>All taken and delivered, the thread about to start again or asleep.\<close>

definition settled :: "rsys \<Rightarrow> bool" where
  "settled z \<longleftrightarrow> prod z = PIdle \<and> queued (rx z) = [] \<and> (pc z = Loop \<or> pc z = Blocked False) \<and>
     map_of (receivedDataMap (rx z)) (nextMessageId (rx z)) = None"

text \<open>Asleep without a timeout and nothing that would wake it.\<close>

definition asleep :: "rsys \<Rightarrow> bool" where
  "asleep z \<longleftrightarrow> prod z = PIdle \<and> pc z = Blocked False \<and> \<not> wake_predicate (rx z)"

lemma wait_ends:
  assumes "pc z = Check b"
  shows "\<exists>z'. rquiet\<^sup>*\<^sup>* z z' \<and> rx z' = rx z \<and> prod z' = prod z \<and> (pc z' = Loop \<or> pc z' = Blocked False \<and> \<not> wake_predicate (rx z))"
proof -
  let ?c = "z\<lparr>pc := (if wake_predicate (rx z) then Loop else Blocked b)\<rparr>"
  have c: "rquiet z ?c" using rstep.Check [OF assms] by (simp add: rquiet_def)
  show ?thesis
  proof (cases "wake_predicate (rx z) \<or> \<not> b")
    case True
    then show ?thesis using c by (intro exI [of _ ?c]) auto
  next
    case False
    have "rquiet ?c (z\<lparr>pc := Loop\<rparr>)" using rstep.Timeout [of ?c] False by (simp add: rquiet_def)
    with c have "rquiet\<^sup>*\<^sup>* z (z\<lparr>pc := Loop\<rparr>)" by (meson converse_rtranclp_into_rtranclp r_into_rtranclp)
    then show ?thesis by (intro exI [of _ "z\<lparr>pc := Loop\<rparr>"]) simp
  qed
qed

text \<open>A whole round from the top of the loop.\<close>

lemma round_settles:
  assumes "rreach n t z" and "pc z = Loop" and "prod z = PIdle" and "reorderRunning (rx z)"
  shows "\<exists>z'. rquiet\<^sup>*\<^sup>* z z' \<and> settled z'"
proof -
  let ?a = "z\<lparr>pc := Scan 0, got := False\<rparr>"
  have a: "rquiet z ?a" using rstep.Start [OF assms(2)] assms(4) by (simp add: rquiet_def)
  then have ra: "rreach n t ?a" using rreach.step [OF assms(1)] by (simp add: rquiet_def)
  obtain z1 where z1: "rquiet\<^sup>*\<^sup>* ?a z1" "pc z1 = Scan n" "prod z1 = PIdle" "\<forall>j < n. spsc_contents (connReceiveQueues (rx z1) ! j) = []"
    using scan_slots [OF ra, of 0] assms(3) by auto
  have r1: "rreach n t z1" using rquiet_reach [OF z1(1)] ra by blast
  have q1: "queued (rx z1) = []" using z1(4) rsane_reach [OF r1] by (simp add: queued_empty rsane_def)
  obtain z2 b where z2: "rquiet z1 z2" "prod z2 = PIdle" "queued (rx z2) = []" "pc z2 = Loop \<or> pc z2 = Check b"
    "map_of (receivedDataMap (rx z2)) (nextMessageId (rx z2)) = None"
    using quiet_work [OF r1 z1(2)] z1(3) q1 by auto
  have to2: "rquiet\<^sup>*\<^sup>* z z2" using converse_rtranclp_into_rtranclp [of rquiet, OF a] rtranclp.rtrancl_into_rtrancl [of rquiet, OF z1(1) z2(1)] by blast
  show ?thesis
  proof (cases "pc z2 = Loop")
    case True
    then show ?thesis using to2 z2 by (auto simp: settled_def)
  next
    case False
    then obtain z3 where "rquiet\<^sup>*\<^sup>* z2 z3" "rx z3 = rx z2" "prod z3 = prod z2" "pc z3 = Loop \<or> pc z3 = Blocked False"
      using wait_ends [of z2 b] z2(4) by blast
    then show ?thesis using rquiet_trans [OF to2] z2(2,3,5) by (intro exI [of _ z3]) (auto simp: settled_def)
  qed
qed

text \<open>The IO thread completes what it began, which at most moves a sleeping thread to the test.\<close>

lemma producer_ends:
  "\<exists>z'. rquiet\<^sup>*\<^sup>* z z' \<and> prod z' = PIdle \<and> (pc z' = pc z \<or> (\<exists>b. pc z' = Check b))"
proof -
  have notify: "\<exists>z'. rquiet\<^sup>*\<^sup>* y z' \<and> prod z' = PIdle \<and> (pc z' = pc y \<or> (\<exists>b. pc z' = Check b))" if "prod y = PCounted" for y
    using rstep.Notify [OF that]
    by (intro exI [of _ "y\<lparr>prod := PIdle, pc := (case pc y of Blocked b \<Rightarrow> Check b | p \<Rightarrow> p)\<rparr>"]) (auto simp: rquiet_def split: rpc.splits)
  show ?thesis
  proof (cases "prod z")
    case PIdle
    then show ?thesis by blast
  next
    case PEnqueued
    let ?y = "z\<lparr>rx := prd_count (rx z), prod := PCounted\<rparr>"
    have "rquiet z ?y" using rstep.Count [OF PEnqueued] by (simp add: rquiet_def prd_count_def)
    then show ?thesis using notify [of ?y] converse_rtranclp_into_rtranclp [of rquiet z ?y] by auto
  next
    case PCounted
    then show ?thesis by (rule notify)
  qed
qed

lemma idle_settles:
  assumes "rreach n t z" and "prod z = PIdle" and "reorderRunning (rx z)"
  shows "\<exists>z'. rquiet\<^sup>*\<^sup>* z z' \<and> (settled z' \<or> asleep z')"
proof -
  have from_check: "\<exists>z'. rquiet\<^sup>*\<^sup>* y z' \<and> (settled z' \<or> asleep z')"
    if y: "rreach n t y" "prod y = PIdle" "reorderRunning (rx y)" "pc y = Loop \<or> pc y = Check b" for y b
  proof -
    obtain x where x: "rquiet\<^sup>*\<^sup>* y x" "rx x = rx y" "prod x = prod y" "pc x = Loop \<or> pc x = Blocked False \<and> \<not> wake_predicate (rx y)"
    proof (cases "pc y = Loop")
      case True
      then show ?thesis using that [of y] by simp
    next
      case False
      then have "pc y = Check b" using y(4) by blast
      from wait_ends [OF this] show ?thesis using that by blast
    qed
    show ?thesis
    proof (cases "pc x = Loop")
      case True
      then have "\<exists>z'. rquiet\<^sup>*\<^sup>* x z' \<and> settled z'" using round_settles rquiet_reach [OF x(1)] x(2,3) y(1-3) by metis
      then show ?thesis using rquiet_trans [OF x(1)] by blast
    next
      case False
      then show ?thesis using x y(2) by (intro exI [of _ x]) (auto simp: asleep_def)
    qed
  qed
  show ?thesis
  proof (cases "pc z")
    case (Scan i)
    then have le: "i \<le> n" using rsane_reach [OF assms(1)] by (simp add: rsane_def)
    obtain z1 where z1: "rquiet\<^sup>*\<^sup>* z z1" "pc z1 = Scan n" "prod z1 = prod z" using scan_slots [OF assms(1) Scan le] by blast
    have r1: "rreach n t z1" "reorderRunning (rx z1)" using rquiet_reach [OF z1(1)] assms by auto
    obtain z2 b where z2: "rquiet z1 z2" "prod z2 = prod z1" "pc z2 = Loop \<or> pc z2 = Check b" using quiet_work [OF r1(1) z1(2)] by blast
    have r2: "rreach n t z2" "reorderRunning (rx z2)" using z2(1) r1 rreach.step by (auto simp: rquiet_def)
    have "rquiet\<^sup>*\<^sup>* z z2" using z1(1) z2(1) by (rule rtranclp.rtrancl_into_rtrancl)
    then show ?thesis using from_check [OF r2(1) _ r2(2) z2(3)] z1(3) z2(2) assms(2) rquiet_trans by metis
  next
    case (Blocked b)
    have "rquiet z (z\<lparr>pc := Check b\<rparr>)" using rstep.Spurious [OF Blocked] by (simp add: rquiet_def)
    then have "rquiet\<^sup>*\<^sup>* z (z\<lparr>pc := Check b\<rparr>)" by blast
    moreover from rquiet_reach [OF this] have "\<exists>z'. rquiet\<^sup>*\<^sup>* (z\<lparr>pc := Check b\<rparr>) z' \<and> (settled z' \<or> asleep z')"
      by (intro from_check [where b = b]) (use assms in auto)
    ultimately show ?thesis using rquiet_trans by blast
  next
    case Stopped
    then show ?thesis using rsane_reach [OF assms(1)] assms(3) by (simp add: rsane_def)
  qed (use from_check [OF assms] in auto)
qed

text \<open>From every state in which the thread runs.\<close>

lemma quiet_settles:
  assumes "rreach n t z" and "reorderRunning (rx z)"
  shows "\<exists>z'. rquiet\<^sup>*\<^sup>* z z' \<and> (settled z' \<or> asleep z')"
proof -
  obtain z1 where z1: "rquiet\<^sup>*\<^sup>* z z1" "prod z1 = PIdle" using producer_ends by blast
  have "rreach n t z1" "reorderRunning (rx z1)" using rquiet_reach [OF z1(1)] assms by auto
  from idle_settles [OF this(1) z1(2) this(2)] show ?thesis using rquiet_trans [OF z1(1)] by blast
qed

text \<open>
  A settled receiver takes the next message and settles again: its queues have room, and counting the
  message wakes the thread. The counter must not be about to wrap around.
\<close>

lemma settled_offers:
  assumes "rreach n t z" and "settled z" and "reorderRunning (rx z)" and "valid_conn it (rx z)" and "di_messageId it < -1"
    and "length (offered z) + 1 < 2 ^ 64"
  shows "\<exists>s' z'. prd_enqueue it (rx z) = (True, s') \<and>
     rquiet\<^sup>*\<^sup>* (z\<lparr>rx := s', prod := PEnqueued, offered := offered z @ [it]\<rparr>) z' \<and> settled z'"
proof -
  let ?i = "nat (di_sourceConnIndex it)"
  let ?q = "connReceiveQueues (rx z) ! ?i"
  have i: "?i < length (connReceiveQueues (rx z))" using assms(4) by (simp add: valid_conn_def)
  have inv: "spsc_invar ?q" and cap: "Capacity ?q = 1024" and c: "spsc_contents ?q = []"
    using rinv_reach [OF assms(1)] rsane_reach [OF assms(1)] assms(2) i by (simp_all add: rinv_def queues_ok_def rsane_def settled_def queued_empty)
  have "spsc_count ?q = 0" using c by (metis length_spsc_contents list.size(3))
  then have "spsc_room ?q" using spsc_room_count [OF inv] cap by simp
  then obtain s' where s': "prd_enqueue it (rx z) = (True, s')"
    using spsc.enq_room [OF inv, of it] by (cases "try_enqueue it ?q") (auto simp: prd_enqueue_def)
  let ?z = "z\<lparr>rx := s', prod := PEnqueued, offered := offered z @ [it]\<rparr>"
  have idle: "prod z = PIdle" using assms(2) by (simp add: settled_def)
  have r: "rreach n t ?z" using rreach.step [OF assms(1) rstep.Enqueue [OF idle assms(4,5) s']] .
  note f = enqueue_fields [OF s']
  let ?c = "?z\<lparr>rx := prd_count s', prod := PCounted\<rparr>"
  let ?p = "case pc z of Blocked b \<Rightarrow> Check b | p \<Rightarrow> p"
  let ?n = "?c\<lparr>prod := PIdle, pc := ?p\<rparr>"
  have c1: "rquiet ?z ?c" using rstep.Count [of ?z] by (simp add: rquiet_def prd_count_def)
  have c2: "rquiet ?c ?n" using rstep.Notify [of ?c] by (simp add: rquiet_def)
  have to: "rquiet\<^sup>*\<^sup>* ?z ?n" using converse_rtranclp_into_rtranclp [of rquiet, OF c1 r_into_rtranclp [of rquiet, OF c2]] .
  then have rn: "rreach n t ?n" using rquiet_reach r by blast
  have seq: "lastProcessedSeq (rx z) \<le> reorderEnqueueSeq (rx z)" "unat (reorderEnqueueSeq (rx z)) = length (offered z)"
    using rsane_reach [OF assms(1)] idle assms(6) by (simp_all add: rsane_def)
  have "unat (reorderEnqueueSeq (rx z) + 1) = unat (reorderEnqueueSeq (rx z)) + 1" by (rule seq_next) (use seq(2) assms(6) in simp)
  then have wake: "wake_predicate (rx ?n)" using seq(1) f by (simp add: wake_predicate_def prd_count_def word_less_nat_alt word_le_nat_alt)
  have run: "reorderRunning (rx ?n)" using f assms(3) by (simp add: prd_count_def)
  obtain x where x: "rquiet\<^sup>*\<^sup>* ?n x" "pc x = Loop" "prod x = PIdle"
  proof (cases "pc z = Loop")
    case True
    then show ?thesis using that [of ?n] by simp
  next
    case False
    then have "pc ?n = Check False" using assms(2) by (auto simp: settled_def)
    from wait_ends [OF this] wake show ?thesis using that by auto
  qed
  have "rreach n t x" "reorderRunning (rx x)" using rquiet_reach [OF x(1)] rn run by auto
  from round_settles [OF this(1) x(2,3) this(2)] obtain z' where "rquiet\<^sup>*\<^sup>* x z'" "settled z'" by blast
  then show ?thesis using s' rquiet_trans [OF to rquiet_trans [OF x(1)]] by blast
qed

end
