(* ===== verification/Tunnel.thy ===== *)
theory Tunnel
  imports Delivery Lossy_Channel Reorder_Rounds
begin

text \<open>
  Sender, network and receiver as one closed system. The sender makes the steps of \<open>sstep\<close>; a
  connection of the sender is accepted by the receiver in one of its slots; the receiver's IO thread
  reads the octets of a connection in portions and passes the callbacks of each read, one by one, to the
  queues of the reorder thread, which makes the steps of \<open>rstep\<close>. All of them interleave. Nothing is
  assumed about what reaches the receiver: that its messages come from the sender is an invariant here.
\<close>

section \<open>State and steps\<close>

text \<open>
  The receiver's view of one connection: its slot, its read buffer, how many octets of the stream have
  reached the packet parser, and whether it is still read.
\<close>

record instream =
  is_slot :: int
  is_buf :: ReadBuffer
  is_pos :: nat
  is_open :: bool

record tunnel =
  tn_chan :: chan
  tn_sent :: "bytes list"
  tn_ins :: "nat \<Rightarrow> instream option"
  tn_pending :: "io_event list"
  tn_rx :: rsys
  tn_dropped :: bool

definition tunnel_init :: "chan \<Rightarrow> nat \<Rightarrow> time \<Rightarrow> tunnel" where
  "tunnel_init c n t0 = \<lparr>tn_chan = c, tn_sent = [], tn_ins = \<lambda>_. None, tn_pending = [], tn_rx = rsys_init n t0, tn_dropped = False\<rparr>"

definition tunnel_start :: "nat \<Rightarrow> time \<Rightarrow> tunnel \<Rightarrow> bool" where
  "tunnel_start n t0 t \<longleftrightarrow> (\<exists>fds now now' c. fds \<noteq> [] \<and> -1 \<notin> set fds \<and>
     vc_open now (TcpVirtualChannel_init fds now') = Inr c \<and> t = tunnel_init c n t0)"

definition item_at :: "u64 \<Rightarrow> bytes \<Rightarrow> int \<Rightarrow> DeliveryItem" where
  "item_at m d ci = \<lparr>di_messageId = m, di_data = d, di_sourceConnIndex = ci\<rparr>"

definition is_data :: "io_event \<Rightarrow> bool" where
  "is_data ev \<longleftrightarrow> (case ev of DataCallback m d ci \<Rightarrow> True | _ \<Rightarrow> False)"

text \<open>
  \<open>Read\<close>: \<open>cs\<close> are the chunks that \<^verbatim>\<open>recv\<close> returns and \<open>a\<close> the answer that ends the round, no octets:
  would-block, the end of the stream or an error; after the latter two the connection is not read any more
  and what came with them never reaches the parser. \<open>Abandon\<close>: the receiver closed or
  replaced the connection. \<open>Full\<close>: the queue of the slot is full and \<^verbatim>\<open>processReceivedData\<close> drops the message.
  \<open>Other\<close>: a resend request or missing notification of the peer; the sender's half answers them in steps of its own.
\<close>

inductive tstep :: "tunnel \<Rightarrow> tunnel \<Rightarrow> bool" where
  Sender: "sstep (tn_chan t, tn_sent t) (c', ds') \<Longrightarrow> tstep t (t\<lparr>tn_chan := c', tn_sent := ds'\<rparr>)"
| Accept: "k < length (heap (tn_chan t)) \<Longrightarrow> tn_ins t k = None \<Longrightarrow>
     0 \<le> slot \<Longrightarrow> nat slot < length (connReceiveQueues (rx (tn_rx t))) \<Longrightarrow>
     tstep t (t\<lparr>tn_ins := (tn_ins t)(k \<mapsto> \<lparr>is_slot = slot, is_buf = empty_ReadBuffer, is_pos = 0, is_open = True\<rparr>)\<rparr>)"
| Read: "tn_pending t = [] \<Longrightarrow> tn_ins t k = Some s \<Longrightarrow> is_open s \<Longrightarrow> [] \<notin> set cs \<Longrightarrow>
     prefix (concat cs) (drop (is_pos s) (wire (heap (tn_chan t) ! k))) \<Longrightarrow>
     fst (RecvTcpDirect a) \<le> 0 \<Longrightarrow> over \<longleftrightarrow> fst (RecvTcpDirect a) = SOCKET_ERROR_CLOSED \<Longrightarrow>
     readFromConnection True (map Inr cs @ [a]) (is_slot s) (is_buf s) = (evs, rb) \<Longrightarrow>
     tstep t (t\<lparr>tn_ins := (tn_ins t)(k \<mapsto> (if over then s\<lparr>is_open := False\<rparr>
         else s\<lparr>is_buf := rb, is_pos := is_pos s + length (concat cs)\<rparr>)), tn_pending := evs\<rparr>)"
| Abandon: "tn_ins t k = Some s \<Longrightarrow> tstep t (t\<lparr>tn_ins := (tn_ins t)(k \<mapsto> s\<lparr>is_open := False\<rparr>)\<rparr>)"
| Offer: "tn_pending t = DataCallback m d ci # evs \<Longrightarrow> prod (tn_rx t) = PIdle \<Longrightarrow> valid_conn (item_at m d ci) (rx (tn_rx t)) \<Longrightarrow>
     prd_enqueue (item_at m d ci) (rx (tn_rx t)) = (True, s') \<Longrightarrow>
     tstep t (t\<lparr>tn_pending := evs, tn_rx := (tn_rx t)\<lparr>rx := s', prod := PEnqueued, offered := offered (tn_rx t) @ [item_at m d ci]\<rparr>\<rparr>)"
| Full: "tn_pending t = DataCallback m d ci # evs \<Longrightarrow> prod (tn_rx t) = PIdle \<Longrightarrow>
     prd_enqueue (item_at m d ci) (rx (tn_rx t)) = (False, s') \<Longrightarrow>
     tstep t (t\<lparr>tn_pending := evs, tn_dropped := True\<rparr>)"
| Other: "tn_pending t = ev # evs \<Longrightarrow> \<not> is_data ev \<Longrightarrow> tstep t (t\<lparr>tn_pending := evs\<rparr>)"
| Reorder: "rstep (tn_rx t) z \<Longrightarrow> offered z = offered (tn_rx t) \<Longrightarrow> tstep t (t\<lparr>tn_rx := z\<rparr>)"

inductive treach :: "nat \<Rightarrow> time \<Rightarrow> tunnel \<Rightarrow> bool" for n t0 where
  start: "tunnel_start n t0 t \<Longrightarrow> treach n t0 t"
| step: "treach n t0 t \<Longrightarrow> tstep t t' \<Longrightarrow> treach n t0 t'"

lemma treach_run: "treach n t0 t \<Longrightarrow> \<exists>s. tunnel_start n t0 s \<and> tstep\<^sup>*\<^sup>* s t"
proof (induction rule: treach.induct)
  case (step t t')
  then show ?case using rtranclp.rtrancl_into_rtrancl [of tstep] by blast
qed auto

section \<open>Reading\<close>

lemma io_rounds_snoc:
  "io_rounds ci (rounds @ [cs]) rb =
     (let (es, rb1) = io_rounds ci rounds rb; (es', rb2) = readFromConnection True (map Inr cs @ [Inl EAGAIN]) ci rb1
      in (es @ es', rb2))"
  by (induction rounds arbitrary: rb) (auto simp: Let_def split_beta)

text \<open>How a round ends decides whether what was read is parsed.\<close>

lemma round_end:
  assumes "[] \<notin> set cs" and "fst (RecvTcpDirect a) \<le> 0"
  shows "fst (RecvTcpDirect a) \<noteq> SOCKET_ERROR_CLOSED \<Longrightarrow>
      readFromConnection True (map Inr cs @ [a]) ci rb = readFromConnection True (map Inr cs @ [Inl EAGAIN]) ci rb"
    and "fst (RecvTcpDirect a) = SOCKET_ERROR_CLOSED \<Longrightarrow> fst (readFromConnection True (map Inr cs @ [a]) ci rb) = [ConnectionClosed]"
  using assms by (auto simp: readFromConnection_def drain_socket_chunks Let_def split_beta RecvTcpDirect_def socket_codes split: sum.splits if_splits)

section \<open>Invariant\<close>

text \<open>A data callback has reached the queues, is still to be passed on, or a message was dropped.\<close>

definition covered :: "DeliveryItem list \<Rightarrow> io_event list \<Rightarrow> bool \<Rightarrow> u64 \<Rightarrow> bytes \<Rightarrow> int \<Rightarrow> bool" where
  "covered off pend dropped m d ci \<longleftrightarrow> item_at m d ci \<in> set off \<or> DataCallback m d ci \<in> set pend \<or> dropped"

text \<open>The read buffer is that of some rounds of reading, whose data callbacks are all accounted for.\<close>

definition instream_ok :: "bytes \<Rightarrow> (u64 \<Rightarrow> bytes \<Rightarrow> int \<Rightarrow> bool) \<Rightarrow> instream \<Rightarrow> bool" where
  "instream_ok w acc s \<longleftrightarrow> is_pos s \<le> length w \<and> (\<exists>rounds. (\<forall>cs \<in> set rounds. [] \<notin> set cs) \<and>
     concat (concat rounds) = take (is_pos s) w \<and> snd (io_rounds (is_slot s) rounds empty_ReadBuffer) = is_buf s \<and>
     (\<forall>m d. DataCallback m d (is_slot s) \<in> set (fst (io_rounds (is_slot s) rounds empty_ReadBuffer)) \<longrightarrow> acc m d (is_slot s)))"

definition tunnel_inv :: "nat \<Rightarrow> time \<Rightarrow> tunnel \<Rightarrow> bool" where
  "tunnel_inv n t0 t \<longleftrightarrow> sreach (tn_chan t, tn_sent t) \<and> rreach n t0 (tn_rx t) \<and>
     (\<forall>it \<in> set (offered (tn_rx t)). received_from (tn_chan t) it) \<and>
     (\<forall>m d ci. DataCallback m d ci \<in> set (tn_pending t) \<longrightarrow> received_from (tn_chan t) (item_at m d ci)) \<and>
     (\<forall>k s. tn_ins t k = Some s \<longrightarrow> k < length (heap (tn_chan t)) \<and> instream_ok (wire (heap (tn_chan t) ! k)) (covered (offered (tn_rx t)) (tn_pending t) (tn_dropped t)) s)"

lemma instream_ok_new: "instream_ok w acc \<lparr>is_slot = slot, is_buf = empty_ReadBuffer, is_pos = 0, is_open = True\<rparr>"
  by (auto simp: instream_ok_def intro: exI [of _ "[]"])

lemma instream_ok_mono:
  assumes "instream_ok w acc s" and "\<And>m d ci. acc m d ci \<Longrightarrow> acc' m d ci"
  shows "instream_ok (w @ x) acc' s"
  using assms by (auto simp: instream_ok_def)

lemma instream_ok_acc: "instream_ok w acc s \<Longrightarrow> acc \<le> acc' \<Longrightarrow> instream_ok w acc' s"
  using instream_ok_mono [of w acc s acc' "[]"] by (simp add: le_fun_def)

lemma instream_ok_closed [simp]: "instream_ok w acc (s\<lparr>is_open := b\<rparr>) = instream_ok w acc s"
  by (simp add: instream_ok_def)

text \<open>One more round of reading.\<close>

lemma instream_ok_read:
  assumes ok: "instream_ok w acc s" and cs: "[] \<notin> set cs" "prefix (concat cs) (drop (is_pos s) w)"
    and rd: "readFromConnection True (map Inr cs @ [Inl EAGAIN]) (is_slot s) (is_buf s) = (evs, rb)"
    and acc: "\<And>m d. DataCallback m d (is_slot s) \<in> set evs \<Longrightarrow> acc m d (is_slot s)"
  shows "instream_ok w acc (s\<lparr>is_buf := rb, is_pos := is_pos s + length (concat cs)\<rparr>)"
    and "\<exists>rounds later. (\<forall>cs \<in> set rounds. [] \<notin> set cs) \<and> concat (concat rounds) @ later = w \<and>
      set evs \<subseteq> set (fst (io_rounds (is_slot s) rounds empty_ReadBuffer))"
proof -
  obtain rounds where r: "\<forall>cs \<in> set rounds. [] \<notin> set cs" "concat (concat rounds) = take (is_pos s) w"
    "snd (io_rounds (is_slot s) rounds empty_ReadBuffer) = is_buf s"
    "\<forall>m d. DataCallback m d (is_slot s) \<in> set (fst (io_rounds (is_slot s) rounds empty_ReadBuffer)) \<longrightarrow> acc m d (is_slot s)"
    and pos: "is_pos s \<le> length w" using ok unfolding instream_ok_def by blast
  obtain z where z: "drop (is_pos s) w = concat cs @ z" using cs(2) by (auto simp: prefix_def)
  then have w: "w = take (is_pos s) w @ concat cs @ z" by (metis append_take_drop_id)
  have len: "is_pos s + length (concat cs) \<le> length w" using arg_cong [OF z, of length] pos by simp
  have tk: "concat (concat (rounds @ [cs])) = take (is_pos s + length (concat cs)) w" using r(2) z by (simp add: take_add)
  have ev: "io_rounds (is_slot s) (rounds @ [cs]) empty_ReadBuffer = (fst (io_rounds (is_slot s) rounds empty_ReadBuffer) @ evs, rb)"
    using r(3) rd by (simp add: io_rounds_snoc Let_def split_beta)
  show "instream_ok w acc (s\<lparr>is_buf := rb, is_pos := is_pos s + length (concat cs)\<rparr>)"
    unfolding instream_ok_def using r(1,4) cs(1) len tk ev acc by (intro conjI exI [of _ "rounds @ [cs]"]) auto
  show "\<exists>rounds later. (\<forall>cs \<in> set rounds. [] \<notin> set cs) \<and> concat (concat rounds) @ later = w \<and>
      set evs \<subseteq> set (fst (io_rounds (is_slot s) rounds empty_ReadBuffer))"
    using r(1) cs(1) tk ev by (intro exI [of _ "rounds @ [cs]"] exI [of _ "drop (is_pos s + length (concat cs)) w"]) auto
qed

text \<open>The messages of a round stem from the sender and bear the slot's number.\<close>

lemma read_received:
  assumes "sreach (c, ds)" and k: "k < length (heap c)" and ok: "instream_ok (wire (heap c ! k)) acc s"
    and cs: "[] \<notin> set cs" "prefix (concat cs) (drop (is_pos s) (wire (heap c ! k)))"
    and rd: "readFromConnection True (map Inr cs @ [Inl EAGAIN]) (is_slot s) (is_buf s) = (evs, rb)"
    and ev: "DataCallback m d ci \<in> set evs"
  shows "ci = is_slot s \<and> received_from c (item_at m d ci)"
proof -
  have "instream_ok (wire (heap c ! k)) (\<lambda>_ _ _. True) s" using ok by (auto simp: instream_ok_def)
  from instream_ok_read(2) [OF this cs rd] obtain rounds later where r: "\<forall>cs \<in> set rounds. [] \<notin> set cs"
    "concat (concat rounds) @ later = wire (heap c ! k)" "set evs \<subseteq> set (fst (io_rounds (is_slot s) rounds empty_ReadBuffer))" by blast
  then have "DataCallback m d ci \<in> set (fst (io_rounds (is_slot s) rounds empty_ReadBuffer))" using ev by blast
  moreover from read_genuine [OF assms(1) k r(1,2) this] have "ci = is_slot s" by simp
  ultimately show ?thesis using k r(1,2) by (auto simp: received_from_def item_at_def)
qed

lemma tunnel_inv_start:
  assumes "tunnel_start n t0 t"
  shows "tunnel_inv n t0 t"
  using assms by (auto simp: tunnel_start_def tunnel_inv_def tunnel_init_def intro: sreach.init rreach.init) (simp add: rsys_init_def)

lemma pending_id:
  assumes "tunnel_inv n t0 t" and "tn_pending t = DataCallback m d ci # evs"
  shows "di_messageId (item_at m d ci) < - 1"
proof -
  have rc: "received_from (tn_chan t) (item_at m d ci)" and r: "sreach (tn_chan t, tn_sent t)"
    using assms by (auto simp: tunnel_inv_def)
  have "unat m < length (tn_sent t)" using received_genuine [OF r rc] by (simp add: item_at_def)
  moreover have "length (tn_sent t) < 2 ^ 64" using sinv_reach [OF r] by (simp add: sinv_def)
  ultimately show ?thesis by (simp add: item_at_def word_less_nat_alt unsigned_minus_1_eq_mask mask_eq_exp_minus_1)
qed

lemma tunnel_inv_step: "tstep t t' \<Longrightarrow> tunnel_inv n t0 t \<Longrightarrow> tunnel_inv n t0 t'"
proof (induction rule: tstep.induct)
  case (Sender t c' ds')
  have r: "sreach (c', ds')" using Sender sreach.step by (auto simp: tunnel_inv_def)
  have g: "wires_grow (heap (tn_chan t)) (heap c')"
    using sstep_wires [OF Sender(1)] sinv_reach Sender(2) by (simp add: tunnel_inv_def)
  have "k < length (heap c') \<and> instream_ok (wire (heap c' ! k)) (covered (offered (tn_rx t)) (tn_pending t) (tn_dropped t)) s" if "tn_ins t k = Some s" for k s
  proof -
    have k: "k < length (heap (tn_chan t))" "instream_ok (wire (heap (tn_chan t) ! k)) (covered (offered (tn_rx t)) (tn_pending t) (tn_dropped t)) s"
      using Sender(2) that by (simp_all add: tunnel_inv_def)
    obtain x where "k < length (heap c')" "wire (heap c' ! k) = wire (heap (tn_chan t) ! k) @ x"
      using g k(1) unfolding wires_grow_def by fastforce
    then show ?thesis using instream_ok_mono [OF k(2)] by simp
  qed
  then show ?case using Sender(2) r received_from_grow [OF _ g] by (auto simp: tunnel_inv_def)
next
  case (Accept k t slot)
  then show ?case using instream_ok_new by (auto simp: tunnel_inv_def)
next
  case (Read t k s cs a over evs rb)
  let ?w = "wire (heap (tn_chan t) ! k)"
  have k: "k < length (heap (tn_chan t))" "instream_ok ?w (covered (offered (tn_rx t)) [] (tn_dropped t)) s"
    and r: "sreach (tn_chan t, tn_sent t)" using Read(1,2,9) by (auto simp: tunnel_inv_def)
  have more: "covered (offered (tn_rx t)) [] (tn_dropped t) \<le> covered (offered (tn_rx t)) evs (tn_dropped t)"
    by (auto simp: covered_def le_fun_def)
  note ok = instream_ok_acc [OF _ more]
  show ?case
  proof (cases over)
    case True
    then have "evs = [ConnectionClosed]" using round_end(2) [OF Read(4,6)] Read(7,8) by (metis fst_conv)
    then show ?thesis using Read(1,2,9) True ok by (auto simp: tunnel_inv_def)
  next
    case False
    then have rd: "readFromConnection True (map Inr cs @ [Inl EAGAIN]) (is_slot s) (is_buf s) = (evs, rb)"
      using round_end(1) [OF Read(4,6)] Read(7,8) by metis
    have "instream_ok ?w (covered (offered (tn_rx t)) evs (tn_dropped t)) (s\<lparr>is_buf := rb, is_pos := is_pos s + length (concat cs)\<rparr>)"
      by (rule instream_ok_read(1) [OF ok [OF k(2)] Read(4,5) rd]) (simp add: covered_def)
    then show ?thesis using Read(1,2,9) False ok read_received [OF r k Read(4,5) rd] by (auto simp: tunnel_inv_def)
  qed
next
  case (Abandon t k s)
  then show ?case by (auto simp: tunnel_inv_def)
next
  case (Offer t m d ci evs s')
  have more: "covered (offered (tn_rx t)) (tn_pending t) (tn_dropped t) \<le> covered (offered (tn_rx t) @ [item_at m d ci]) evs (tn_dropped t)"
    using Offer(1) by (auto simp: covered_def le_fun_def)
  have rc: "received_from (tn_chan t) (item_at m d ci)" using Offer(1,5) by (auto simp: tunnel_inv_def)
  have "di_messageId (item_at m d ci) < - 1" by (rule pending_id [OF Offer(5,1)])
  from rstep.Enqueue [OF Offer(2,3) this Offer(4)] show ?case
    using Offer(1,5) rc instream_ok_acc [OF _ more] rreach.step by (auto simp: tunnel_inv_def)
next
  case (Full t m d ci evs s')
  have more: "covered (offered (tn_rx t)) (tn_pending t) (tn_dropped t) \<le> covered (offered (tn_rx t)) evs True"
    by (simp add: covered_def le_fun_def)
  show ?case using Full(1,4) instream_ok_acc [OF _ more] by (auto simp: tunnel_inv_def)
next
  case (Other t ev evs)
  have more: "covered (offered (tn_rx t)) (tn_pending t) (tn_dropped t) \<le> covered (offered (tn_rx t)) evs (tn_dropped t)"
    using Other(1,2) by (auto simp: covered_def is_data_def le_fun_def)
  show ?case using Other(1,3) instream_ok_acc [OF _ more] by (auto simp: tunnel_inv_def)
next
  case (Reorder t z)
  then show ?case using rreach.step by (auto simp: tunnel_inv_def)
qed

lemma tunnel_inv_reach: "treach n t0 t \<Longrightarrow> tunnel_inv n t0 t"
  by (induction rule: treach.induct) (auto intro: tunnel_inv_start tunnel_inv_step)

section \<open>Delivery\<close>

text \<open>Every octet of every stream has reached the parser, and what it made of them the queues.\<close>

definition all_read :: "tunnel \<Rightarrow> bool" where
  "all_read t \<longleftrightarrow> tn_pending t = [] \<and> \<not> tn_dropped t \<and>
     (\<forall>k < length (heap (tn_chan t)). \<exists>s. tn_ins t k = Some s \<and> is_pos s = length (wire (heap (tn_chan t) ! k)))"

lemma all_read_received:
  assumes "tunnel_inv n t0 t" and "all_read t"
  shows "all_received (tn_chan t) (tn_rx t)"
  unfolding all_received_def
proof (intro allI impI)
  fix k assume k: "k < length (heap (tn_chan t))"
  then obtain s where s: "tn_ins t k = Some s" "is_pos s = length (wire (heap (tn_chan t) ! k))" and p: "tn_pending t = []" "\<not> tn_dropped t"
    using assms(2) unfolding all_read_def by blast
  then have "instream_ok (wire (heap (tn_chan t) ! k)) (covered (offered (tn_rx t)) [] False) s"
    using assms(1) by (auto simp: tunnel_inv_def)
  then show "\<exists>rounds ci. (\<forall>cs \<in> set rounds. [] \<notin> set cs) \<and> concat (concat rounds) = wire (heap (tn_chan t) ! k) \<and>
     (\<forall>m d. DataCallback m d ci \<in> set (fst (io_rounds ci rounds empty_ReadBuffer)) \<longrightarrow>
        (\<exists>it \<in> set (offered (tn_rx t)). di_messageId it = m \<and> di_data it = d))"
    unfolding instream_ok_def covered_def item_at_def using s(2) by force
qed

text \<open>At rest: the sender has written all it accepted, the receiver has read all and its queues are empty.\<close>

definition at_rest :: "tunnel \<Rightarrow> bool" where
  "at_rest t \<longleftrightarrow> opened (tn_chan t) \<and> (\<forall>p. \<not> waiting (tn_chan t) p) \<and> all_read t \<and> settled (tn_rx t)"

definition handed_data :: "tunnel \<Rightarrow> bytes list" where
  "handed_data t = map di_data (handed (tn_rx t))"

lemma rest_handed:
  assumes "treach n t0 t" and "at_rest t" and "\<not> skipped (tn_rx t)"
  shows "handed_data t = tn_sent t"
proof -
  note inv = tunnel_inv_reach [OF assms(1)]
  have "all_received (tn_chan t) (tn_rx t)" by (rule all_read_received [OF inv]) (use assms(2) in \<open>simp add: at_rest_def\<close>)
  then show ?thesis unfolding handed_data_def using inv assms(2)
    by (intro drained_handed [of "tn_chan t" "tn_sent t" n t0 "tn_rx t", OF _ _ _ _ _ _ assms(3)])
      (auto simp: tunnel_inv_def at_rest_def settled_def)
qed

section \<open>Refinement of the channel specifications\<close>

definition tunnel_abs :: "tunnel \<Rightarrow> channel" where
  "tunnel_abs t = \<lparr>ch_in = tn_sent t,
     ch_next = (if handed (tn_rx t) = [] then 0 else Suc (unat (di_messageId (last (handed (tn_rx t)))))),
     ch_out = handed_data t\<rparr>"

text \<open>What the reorder thread hands over in one step.\<close>

lemma rstep_handed: "rstep z z' \<Longrightarrow> \<exists>its. handed z' = handed z @ its"
  by (induction rule: rstep.induct) auto

lemma handed_step:
  assumes "tunnel_inv n t0 t'" and "handed (tn_rx t') = handed (tn_rx t) @ its" and "tn_sent t' = tn_sent t"
  shows "tunnel_abs t' = channel_deliver_all (map (unat \<circ> di_messageId) its) (tunnel_abs t)"
    and "sorted_wrt (<) (map (unat \<circ> di_messageId) its)"
    and "\<forall>i \<in> set (map (unat \<circ> di_messageId) its). ch_next (tunnel_abs t) \<le> i \<and> i < length (ch_in (tunnel_abs t))"
proof -
  have r: "rreach n t0 (tn_rx t')" and s: "sreach (tn_chan t', tn_sent t')"
    and gen: "\<forall>it \<in> set (offered (tn_rx t')). received_from (tn_chan t') it" using assms(1) by (simp_all add: tunnel_inv_def)
  note genuine = handed_genuine [OF s r gen]
  have "sorted_wrt (<) (map di_messageId (handed (tn_rx t')))" using rinv_reach [OF r] unfolding rinv_def by blast
  then have sorted: "sorted_wrt (<) (map (unat \<circ> di_messageId) (handed (tn_rx t')))" by (simp add: sorted_wrt_map word_less_nat_alt)
  then show "sorted_wrt (<) (map (unat \<circ> di_messageId) its)" by (simp add: assms(2) sorted_wrt_append)
  have its: "unat (di_messageId it) < length (tn_sent t) \<and> di_data it = tn_sent t ! unat (di_messageId it)" if "it \<in> set its" for it
    using genuine that assms(2,3) by auto
  then have "map di_data its = map ((!) (tn_sent t)) (map (unat \<circ> di_messageId) its)" by simp
  then show "tunnel_abs t' = channel_deliver_all (map (unat \<circ> di_messageId) its) (tunnel_abs t)"
    by (auto simp: tunnel_abs_def handed_data_def channel_deliver_all_value assms(2,3) last_map)
  have "unat (di_messageId (last (handed (tn_rx t)))) < unat (di_messageId it)" if "handed (tn_rx t) \<noteq> []" "it \<in> set its" for it
    using sorted that by (auto simp: assms(2) sorted_wrt_append)
  then show "\<forall>i \<in> set (map (unat \<circ> di_messageId) its). ch_next (tunnel_abs t) \<le> i \<and> i < length (ch_in (tunnel_abs t))"
    using its by (auto simp: tunnel_abs_def Suc_le_eq)
qed

lemma sstep_sent: "sstep s s' \<Longrightarrow> snd s' = snd s \<or> (\<exists>d. snd s' = snd s @ [d])"
  by (induction rule: sstep.induct) auto

lemma tstep_effect: "tstep t t' \<Longrightarrow>
   (tn_sent t' = tn_sent t \<or> (\<exists>d. tn_sent t' = tn_sent t @ [d])) \<and> tn_rx t' = tn_rx t \<or>
   tn_sent t' = tn_sent t \<and> (\<exists>its. handed (tn_rx t') = handed (tn_rx t) @ its)"
proof (induction rule: tstep.induct)
  case (Sender t c' ds')
  then show ?case using sstep_sent [OF Sender(1)] by simp
next
  case (Reorder t z)
  then show ?case using rstep_handed [OF Reorder(1)] by simp
qed simp_all

lemma tstep_cases:
  assumes "tstep t t'"
  obtains (same) "tn_sent t' = tn_sent t" and "tn_rx t' = tn_rx t"
  | (put) d where "tn_sent t' = tn_sent t @ [d]" and "tn_rx t' = tn_rx t"
  | (hand) its where "tn_sent t' = tn_sent t" and "handed (tn_rx t') = handed (tn_rx t) @ its"
  using tstep_effect [OF assms] by blast

lemma tunnel_abs_same: "tn_sent t' = tn_sent t \<Longrightarrow> tn_rx t' = tn_rx t \<Longrightarrow> tunnel_abs t' = tunnel_abs t"
  by (simp add: tunnel_abs_def handed_data_def)

lemma tunnel_abs_put: "tn_sent t' = tn_sent t @ [d] \<Longrightarrow> tn_rx t' = tn_rx t \<Longrightarrow>
   tunnel_abs t' = (tunnel_abs t)\<lparr>ch_in := ch_in (tunnel_abs t) @ [d]\<rparr>"
  by (simp add: tunnel_abs_def handed_data_def)

lemma tunnel_abs_start: "tunnel_start n t0 t \<Longrightarrow> tunnel_abs t = channel_empty"
  by (auto simp: tunnel_start_def tunnel_init_def tunnel_abs_def handed_data_def rsys_init_def channel_empty_def)

lemma tstep_lossy:
  assumes "tstep t t'" and "tunnel_inv n t0 t"
  shows "lossy_step\<^sup>*\<^sup>* (tunnel_abs t) (tunnel_abs t')"
  using assms(1)
proof (cases rule: tstep_cases)
  case same
  show ?thesis unfolding tunnel_abs_same [OF same] by (rule rtranclp.rtrancl_refl)
next
  case (put d)
  then show ?thesis using tunnel_abs_put [OF put] lossy_step.Put by auto
next
  case (hand its)
  note h = handed_step [OF tunnel_inv_step [OF assms] hand(2,1)]
  show ?thesis using lossy_delivers [OF h(2,3)] by (simp add: h(1))
qed

text \<open>Until a gap times out the numbers handed over are those from \<open>ch_next\<close> on.\<close>

lemma unskipped_ids:
  assumes "tunnel_inv n t0 t" and "\<not> skipped (tn_rx t)"
  shows "map (unat \<circ> di_messageId) (handed (tn_rx t)) = [0..<ch_next (tunnel_abs t)]"
proof -
  obtain m where m: "map (unat \<circ> di_messageId) (handed (tn_rx t)) = [0..<m]"
    using rinv_reach [of n t0 "tn_rx t"] assms by (auto simp: rinv_def tunnel_inv_def)
  show ?thesis
  proof (cases "handed (tn_rx t) = []")
    case True
    then show ?thesis by (simp add: tunnel_abs_def)
  next
    case False
    then have "last (map (unat \<circ> di_messageId) (handed (tn_rx t))) = unat (di_messageId (last (handed (tn_rx t))))"
      by (simp add: last_map)
    moreover have "m \<noteq> 0" using m False by (cases m) auto
    then have "last [0..<m] = m - 1" by simp
    ultimately have "Suc (unat (di_messageId (last (handed (tn_rx t))))) = m" using m \<open>m \<noteq> 0\<close> by simp
    then show ?thesis using m False by (simp add: tunnel_abs_def)
  qed
qed

lemma upt_suffix: "[0..<m] @ xs = [0..<k] \<Longrightarrow> m \<le> k \<and> xs = [m..<k]"
proof -
  assume eq: "[0..<m] @ xs = [0..<k]"
  then have le: "m \<le> k" by (metis diff_zero le_add1 length_append length_upt)
  then have "[0..<k] = [0..<m] @ [m..<k]" by (metis le_add_diff_inverse upt_add_eq_append zero_le)
  with eq have "[0..<m] @ xs = [0..<m] @ [m..<k]" by (rule trans)
  with le show ?thesis by (simp only: same_append_eq)
qed

lemma rstep_skipped: "rstep z z' \<Longrightarrow> skipped z \<Longrightarrow> skipped z'"
  by (induction rule: rstep.induct) auto

lemma tstep_skipped: "tstep t t' \<Longrightarrow> skipped (tn_rx t) \<Longrightarrow> skipped (tn_rx t')"
  by (induction rule: tstep.induct) (auto dest: rstep_skipped)

lemma tstep_fifo:
  assumes "tstep t t'" and "tunnel_inv n t0 t" and "\<not> skipped (tn_rx t')"
  shows "fifo_step\<^sup>*\<^sup>* (tunnel_abs t) (tunnel_abs t')"
  using assms(1)
proof (cases rule: tstep_cases)
  case same
  show ?thesis unfolding tunnel_abs_same [OF same] by (rule rtranclp.rtrancl_refl)
next
  case (put d)
  then show ?thesis using tunnel_abs_put [OF put] fifo_step.Put by auto
next
  case (hand its)
  let ?m = "ch_next (tunnel_abs t)" and ?k = "ch_next (tunnel_abs t')"
  have ns: "\<not> skipped (tn_rx t)" using tstep_skipped [OF assms(1)] assms(3) by blast
  note inv' = tunnel_inv_step [OF assms(1,2)]
  note h = handed_step [OF inv' hand(2,1)]
  have "[0..<?m] @ map (unat \<circ> di_messageId) its = [0..<?k]"
    using unskipped_ids [OF assms(2) ns] unskipped_ids [OF inv' assms(3)] hand(2) by simp
  then obtain k where ids: "?m \<le> k" "map (unat \<circ> di_messageId) its = [?m..<k]" using upt_suffix by blast
  have eq: "tunnel_abs t' = channel_deliver_all [?m..<k] (tunnel_abs t)" using h(1) unfolding ids(2) .
  show ?thesis
  proof (cases "?m = k")
    case True
    then show ?thesis by (simp add: eq)
  next
    case False
    then have "k - 1 \<in> set (map (unat \<circ> di_messageId) its)" unfolding ids(2) using ids(1) by simp
    then have "k - 1 < length (ch_in (tunnel_abs t))" using h(3) by blast
    then have "k \<le> length (ch_in (tunnel_abs t))" by simp
    then show ?thesis using fifo_delivers [OF ids(1)] by (simp add: eq)
  qed
qed

text \<open>The tunnel provides the lossy channel and, as long as no gap times out, the one that loses nothing.\<close>

definition unskipped_step :: "tunnel \<Rightarrow> tunnel \<Rightarrow> bool" where
  "unskipped_step t t' \<longleftrightarrow> tstep t t' \<and> \<not> skipped (tn_rx t')"

interpretation tunnel_lossy: refinement_mapping "tunnel_start n t0" tstep channel_empty lossy_step "tunnel_inv n t0" tunnel_abs for n t0
  by unfold_locales (auto intro: tunnel_inv_start tunnel_abs_start tunnel_inv_step tstep_lossy)

interpretation tunnel_fifo: refinement_mapping "tunnel_start n t0" unskipped_step channel_empty fifo_step "tunnel_inv n t0" tunnel_abs for n t0
  by unfold_locales (auto simp: unskipped_step_def intro: tunnel_inv_start tunnel_abs_start tunnel_inv_step tstep_fifo)

lemma treach_unskipped_run: "treach n t0 t \<Longrightarrow> \<not> skipped (tn_rx t) \<Longrightarrow> \<exists>s. tunnel_start n t0 s \<and> unskipped_step\<^sup>*\<^sup>* s t"
proof (induction rule: treach.induct)
  case (step t t')
  then have "\<not> skipped (tn_rx t)" using tstep_skipped by blast
  with step obtain s where "tunnel_start n t0 s" "unskipped_step\<^sup>*\<^sup>* s t" by blast
  moreover have "unskipped_step t t'" using step by (simp add: unskipped_step_def)
  ultimately show ?case using rtranclp.rtrancl_into_rtrancl by meson
qed auto

end
