(* ===== verification/Tunnel_Progress.thy ===== *)
theory Tunnel_Progress
  imports Tunnel
begin

text \<open>
  Liveness of the closed system of \<open>Tunnel\<close>: when the sender has written all it accepted and every
  stream can still be read to its end, the receiver can always complete the delivery, except that
  its reorder thread may be asleep with messages in its queues.
\<close>

section \<open>Slots\<close>

definition slots_ok :: "nat \<Rightarrow> tunnel \<Rightarrow> bool" where
  "slots_ok n t \<longleftrightarrow> (\<forall>k s. tn_ins t k = Some s \<longrightarrow> 0 \<le> is_slot s \<and> nat (is_slot s) < n) \<and>
     (\<forall>m d ci. DataCallback m d ci \<in> set (tn_pending t) \<longrightarrow> 0 \<le> ci \<and> nat ci < n)"

lemma tunnel_queues: "tunnel_inv n t0 t \<Longrightarrow> length (connReceiveQueues (rx (tn_rx t))) = n"
  using rsane_reach by (auto simp: tunnel_inv_def rsane_def)

lemma slots_ok_step: "tstep t t' \<Longrightarrow> tunnel_inv n t0 t \<Longrightarrow> slots_ok n t \<Longrightarrow> slots_ok n t'"
proof (induction rule: tstep.induct)
  case (Accept k t slot)
  then show ?case using tunnel_queues [OF Accept(5)] by (auto simp: slots_ok_def)
next
  case (Read t k s cs a over evs rb)
  have k: "k < length (heap (tn_chan t))" "instream_ok (wire (heap (tn_chan t) ! k)) (covered (offered (tn_rx t)) [] (tn_dropped t)) s"
    and r: "sreach (tn_chan t, tn_sent t)" using Read(1,2,9) by (auto simp: tunnel_inv_def)
  have s: "0 \<le> is_slot s \<and> nat (is_slot s) < n" using Read(2,10) by (auto simp: slots_ok_def)
  have "0 \<le> ci \<and> nat ci < n" if ev: "DataCallback m d ci \<in> set evs" for m d ci
  proof (cases over)
    case True
    then have "evs = [ConnectionClosed]" using round_end(2) [OF Read(4,6)] Read(7,8) by (metis fst_conv)
    then show ?thesis using ev by simp
  next
    case False
    then have "readFromConnection True (map Inr cs @ [Inl EAGAIN]) (is_slot s) (is_buf s) = (evs, rb)"
      using round_end(1) [OF Read(4,6)] Read(7,8) by metis
    then show ?thesis using read_received [OF r k Read(4,5) _ ev] s by blast
  qed
  then show ?case using Read(10) s by (auto simp: slots_ok_def)
qed (auto simp: slots_ok_def)

lemma slots_ok_reach: "treach n t0 t \<Longrightarrow> slots_ok n t"
proof (induction rule: treach.induct)
  case (start t)
  then show ?case by (auto simp: tunnel_start_def tunnel_init_def slots_ok_def)
next
  case (step t t')
  then show ?case using slots_ok_step tunnel_inv_reach by blast
qed

section \<open>Steps of the receiver\<close>

definition tquiet :: "tunnel \<Rightarrow> tunnel \<Rightarrow> bool" where
  "tquiet t t' \<longleftrightarrow> tstep t t' \<and> tn_chan t' = tn_chan t \<and> tn_sent t' = tn_sent t \<and> tn_dropped t' = tn_dropped t \<and>
     skipped (tn_rx t') = skipped (tn_rx t) \<and> reorderRunning (rx (tn_rx t')) = reorderRunning (rx (tn_rx t))"

lemma tquiet_reach:
  assumes "tquiet\<^sup>*\<^sup>* t t'"
  shows "(treach n t0 t \<longrightarrow> treach n t0 t') \<and> tstep\<^sup>*\<^sup>* t t' \<and> tn_chan t' = tn_chan t \<and> tn_sent t' = tn_sent t \<and> tn_dropped t' = tn_dropped t \<and>
     skipped (tn_rx t') = skipped (tn_rx t) \<and> reorderRunning (rx (tn_rx t')) = reorderRunning (rx (tn_rx t))"
  using assms
proof (induction rule: rtranclp_induct)
  case (step t1 t2)
  then have "tstep t1 t2" by (simp add: tquiet_def)
  with step show ?case using treach.step rtranclp.rtrancl_into_rtrancl [of tstep] by (auto simp: tquiet_def)
qed simp

lemma reorder_quiet:
  assumes "rquiet\<^sup>*\<^sup>* (tn_rx t) z"
  shows "tquiet\<^sup>*\<^sup>* t (t\<lparr>tn_rx := z\<rparr>)"
  using assms
proof (induction rule: rtranclp_induct)
  case (step y z)
  then have "tquiet (t\<lparr>tn_rx := y\<rparr>) (t\<lparr>tn_rx := z\<rparr>)"
    using tstep.Reorder [of "t\<lparr>tn_rx := y\<rparr>" z] by (simp add: tquiet_def rquiet_def)
  with step(3) show ?case by (rule rtranclp.rtrancl_into_rtrancl)
qed simp

text \<open>The counter of enqueued messages is about to wrap around.\<close>

definition counted_out :: "tunnel \<Rightarrow> bool" where
  "counted_out t \<longleftrightarrow> 2 ^ 64 \<le> length (offered (tn_rx t)) + 1"

definition calm :: "tunnel \<Rightarrow> bool" where
  "calm t \<longleftrightarrow> settled (tn_rx t) \<and> reorderRunning (rx (tn_rx t))"

text \<open>The callbacks of a read are passed on one by one.\<close>

lemma pending_done:
  assumes "treach n t0 t" and "calm t"
  shows "\<exists>t'. tquiet\<^sup>*\<^sup>* t t' \<and> tn_ins t' = tn_ins t \<and> length (offered (tn_rx t')) \<le> length (offered (tn_rx t)) + length (tn_pending t) \<and>
     (counted_out t' \<or> calm t' \<and> tn_pending t' = [])"
  using assms
proof (induction "tn_pending t" arbitrary: t)
  case Nil
  then show ?case by (intro exI [of _ t]) simp
next
  case (Cons ev evs)
  note inv = tunnel_inv_reach [OF Cons(3)]
  show ?case
  proof (cases "counted_out t")
    case True
    then show ?thesis by (intro exI [of _ t]) simp
  next
    case False
    obtain t1 where t1: "tquiet\<^sup>*\<^sup>* t t1" "tn_pending t1 = evs" "calm t1" "tn_ins t1 = tn_ins t"
      "length (offered (tn_rx t1)) \<le> Suc (length (offered (tn_rx t)))"
    proof (cases "is_data ev")
      case True
      then obtain m d ci where ev: "ev = DataCallback m d ci" by (auto simp: is_data_def split: io_event.splits)
      let ?it = "item_at m d ci"
      have p: "tn_pending t = DataCallback m d ci # evs" using Cons(2) ev by simp
      have r: "rreach n t0 (tn_rx t)" and s: "settled (tn_rx t)" and run: "reorderRunning (rx (tn_rx t))"
        using inv Cons(4) by (simp_all add: tunnel_inv_def calm_def)
      have v: "valid_conn ?it (rx (tn_rx t))"
        using slots_ok_reach [OF Cons(3)] tunnel_queues [OF inv] p by (simp add: slots_ok_def valid_conn_def item_at_def)
      have id: "di_messageId ?it < -1" by (rule pending_id [OF inv p])
      obtain s' z' where s': "prd_enqueue ?it (rx (tn_rx t)) = (True, s')"
        "rquiet\<^sup>*\<^sup>* ((tn_rx t)\<lparr>rx := s', prod := PEnqueued, offered := offered (tn_rx t) @ [?it]\<rparr>) z'" "settled z'"
        using settled_offers [OF r s run v id] False by (auto simp: counted_out_def)
      let ?o = "t\<lparr>tn_pending := evs, tn_rx := (tn_rx t)\<lparr>rx := s', prod := PEnqueued, offered := offered (tn_rx t) @ [?it]\<rparr>\<rparr>"
      have idle: "prod (tn_rx t) = PIdle" using s by (simp add: settled_def)
      have o: "tquiet t ?o" using tstep.Offer [OF p idle v s'(1)] enqueue_fields(2) [OF s'(1)] by (simp add: tquiet_def)
      have q: "tquiet\<^sup>*\<^sup>* ?o (?o\<lparr>tn_rx := z'\<rparr>)" by (rule reorder_quiet) (use s'(2) in simp)
      have "tquiet\<^sup>*\<^sup>* t (?o\<lparr>tn_rx := z'\<rparr>)" using o q by (rule converse_rtranclp_into_rtranclp)
      moreover have "calm (?o\<lparr>tn_rx := z'\<rparr>)"
        using s'(3) rquiet_reach [OF s'(2)] enqueue_fields(2) [OF s'(1)] run by (simp add: calm_def)
      moreover have "length (offered z') = Suc (length (offered (tn_rx t)))" using rquiet_reach [OF s'(2)] by simp
      ultimately show ?thesis using that [of "?o\<lparr>tn_rx := z'\<rparr>"] by simp
    next
      case False
      have "tquiet t (t\<lparr>tn_pending := evs\<rparr>)" using tstep.Other [OF Cons(2) [symmetric] False] by (simp add: tquiet_def)
      then show ?thesis using that [of "t\<lparr>tn_pending := evs\<rparr>"] Cons(4) by (auto simp: calm_def)
    qed
    have "treach n t0 t1" using tquiet_reach [OF t1(1)] Cons(3) by blast
    from Cons(1) [OF t1(2) [symmetric] this t1(3)] obtain t' where t': "tquiet\<^sup>*\<^sup>* t1 t'" "tn_ins t' = tn_ins t1"
      "length (offered (tn_rx t')) \<le> length (offered (tn_rx t1)) + length (tn_pending t1)" "counted_out t' \<or> calm t' \<and> tn_pending t' = []" by blast
    have "length (tn_pending t) = Suc (length evs)" using Cons(2) by (metis length_Cons)
    then show ?thesis using rtranclp_trans [OF t1(1) t'(1)] t1(2,4,5) t'(2-4) by (intro exI [of _ t'] conjI) simp_all
  qed
qed

section \<open>Reading to the end\<close>

definition read_out :: "tunnel \<Rightarrow> nat \<Rightarrow> bool" where
  "read_out t k \<longleftrightarrow> (\<exists>s. tn_ins t k = Some s \<and> is_pos s = length (wire (heap (tn_chan t) ! k)))"

text \<open>Every stream is accepted and is still being read or has been read to its end.\<close>

definition readable :: "tunnel \<Rightarrow> bool" where
  "readable t \<longleftrightarrow> (\<forall>k < length (heap (tn_chan t)). \<exists>s. tn_ins t k = Some s \<and> (is_open s \<or> is_pos s = length (wire (heap (tn_chan t) ! k))))"

lemma stream_read_out:
  assumes r: "treach n t0 t" and c: "calm t" "tn_pending t = []" and k: "k < length (heap (tn_chan t))" and rd: "readable t"
  shows "\<exists>t'. tquiet\<^sup>*\<^sup>* t t' \<and> (counted_out t' \<or> calm t' \<and> tn_pending t' = [] \<and> readable t' \<and> read_out t' k \<and>
     (\<forall>j. j \<noteq> k \<longrightarrow> read_out t j \<longrightarrow> read_out t' j))"
proof (cases "read_out t k")
  case True
  then show ?thesis using c rd by (intro exI [of _ t]) simp
next
  case False
  let ?w = "wire (heap (tn_chan t) ! k)"
  obtain s where s: "tn_ins t k = Some s" "is_open s" "is_pos s \<noteq> length ?w" using rd k False by (auto simp: readable_def read_out_def)
  have "is_pos s \<le> length ?w" using tunnel_inv_reach [OF r] s(1) unfolding tunnel_inv_def instream_ok_def by blast
  then have pos: "is_pos s < length ?w" using s(3) by simp
  obtain evs rb where e: "readFromConnection True (map Inr [drop (is_pos s) ?w] @ [Inl EAGAIN]) (is_slot s) (is_buf s) = (evs, rb)" by fastforce
  let ?s = "s\<lparr>is_buf := rb, is_pos := length ?w\<rparr>"
  let ?t = "t\<lparr>tn_ins := (tn_ins t)(k \<mapsto> ?s), tn_pending := evs\<rparr>"
  have "tstep t ?t"
    using tstep.Read [OF c(2) s(1,2), of "[drop (is_pos s) ?w]" "Inl EAGAIN" False evs rb] pos e by (simp add: RecvTcpDirect_def socket_codes)
  then have q: "tquiet t ?t" by (simp add: tquiet_def)
  then have r1: "treach n t0 ?t" using treach.step [OF r] by (simp add: tquiet_def)
  have "calm ?t" using c(1) by (simp add: calm_def)
  from pending_done [OF r1 this] obtain t' where t': "tquiet\<^sup>*\<^sup>* ?t t'" "tn_ins t' = tn_ins ?t" "counted_out t' \<or> calm t' \<and> tn_pending t' = []" by blast
  have ch: "tn_chan t' = tn_chan t" using tquiet_reach [OF t'(1)] by simp
  have "tquiet\<^sup>*\<^sup>* t t'" using q t'(1) by (rule converse_rtranclp_into_rtranclp)
  moreover have "read_out t' k" "\<forall>j. j \<noteq> k \<longrightarrow> read_out t j \<longrightarrow> read_out t' j" using t'(2) ch by (simp_all add: read_out_def)
  moreover have "readable t'" using rd t'(2) ch by (simp add: readable_def)
  ultimately show ?thesis using t'(3) by (intro exI [of _ t']) simp
qed

lemma streams_read_out:
  assumes "treach n t0 t" and "calm t" "tn_pending t = []" and "readable t" and "m \<le> length (heap (tn_chan t))"
  shows "\<exists>t'. tquiet\<^sup>*\<^sup>* t t' \<and> (counted_out t' \<or> calm t' \<and> tn_pending t' = [] \<and> readable t' \<and> (\<forall>k < m. read_out t' k))"
  using assms(5)
proof (induction m)
  case 0
  then show ?case using assms by (intro exI [of _ t]) simp
next
  case (Suc m)
  then obtain t1 where t1: "tquiet\<^sup>*\<^sup>* t t1" "counted_out t1 \<or> calm t1 \<and> tn_pending t1 = [] \<and> readable t1 \<and> (\<forall>k < m. read_out t1 k)" by auto
  show ?case
  proof (cases "counted_out t1")
    case True
    then show ?thesis using t1(1) by blast
  next
    case False
    have r1: "treach n t0 t1" and ch: "tn_chan t1 = tn_chan t" using tquiet_reach [OF t1(1)] assms(1) by auto
    have m: "m < length (heap (tn_chan t1))" using Suc(2) ch by simp
    have t1': "calm t1" "tn_pending t1 = []" "readable t1" "\<forall>k < m. read_out t1 k" using t1(2) False by blast+
    obtain t' where t': "tquiet\<^sup>*\<^sup>* t1 t'" "counted_out t' \<or> calm t' \<and> tn_pending t' = [] \<and> readable t' \<and> read_out t' m \<and>
     (\<forall>j. j \<noteq> m \<longrightarrow> read_out t1 j \<longrightarrow> read_out t' j)" using stream_read_out [OF r1 t1'(1,2) m t1'(3)] by blast
    have "\<forall>k < Suc m. read_out t' k" if "\<not> counted_out t'" using that t'(2) t1'(4) by (auto simp: less_Suc_eq)
    then show ?thesis using t'(2) rtranclp_trans [OF t1(1) t'(1)] by blast
  qed
qed

lemma calm_rests:
  assumes "opened (tn_chan t)" and "\<forall>p. \<not> waiting (tn_chan t) p" and "\<not> tn_dropped t"
    and "calm t" and "tn_pending t = []" and "\<forall>k < length (heap (tn_chan t)). read_out t k"
  shows "at_rest t"
  using assms by (simp add: at_rest_def all_read_def read_out_def calm_def)

text \<open>The lost wake-up: asleep without a timeout, with messages in the queues.\<close>

definition oversleeps :: "tunnel \<Rightarrow> bool" where
  "oversleeps t \<longleftrightarrow> asleep (tn_rx t) \<and> queued (rx (tn_rx t)) \<noteq> []"

lemma comes_to_calm:
  assumes "treach n t0 t" and "reorderRunning (rx (tn_rx t))"
  shows "\<exists>t'. tquiet\<^sup>*\<^sup>* t t' \<and> tn_ins t' = tn_ins t \<and> (calm t' \<or> oversleeps t')"
proof -
  have r: "rreach n t0 (tn_rx t)" using tunnel_inv_reach [OF assms(1)] by (simp add: tunnel_inv_def)
  obtain z where z: "rquiet\<^sup>*\<^sup>* (tn_rx t) z" "settled z \<or> asleep z" using quiet_settles [OF r assms(2)] by blast
  have rz: "rreach n t0 z" "reorderRunning (rx z)" using rquiet_reach [OF z(1)] r assms(2) by auto
  have "settled z" if "asleep z" "queued (rx z) = []"
    using that waiting_drained [OF rz(1), of False] by (auto simp: settled_def asleep_def)
  then have "calm (t\<lparr>tn_rx := z\<rparr>) \<or> oversleeps (t\<lparr>tn_rx := z\<rparr>)" using z(2) rz(2) by (auto simp: calm_def oversleeps_def)
  then show ?thesis using reorder_quiet [OF z(1)] by (intro exI [of _ "t\<lparr>tn_rx := z\<rparr>"]) simp
qed

section \<open>A run\<close>

text \<open>The channel with one accepted payload of \<open>sent_example\<close>, before the receiver accepts its connections.\<close>

lemma sender_run:
  "sreach s \<Longrightarrow> treach n t0 ((tunnel_init (fst s) n t0)\<lparr>tn_sent := snd s\<rparr>)"
proof (induction rule: sreach.induct)
  case (init fds now now' c)
  then have "tunnel_start n t0 (tunnel_init c n t0)" by (auto simp: tunnel_start_def)
  then show ?case using treach.start by (simp add: tunnel_init_def)
next
  case (step s s')
  then have "tstep ((tunnel_init (fst s) n t0)\<lparr>tn_sent := snd s\<rparr>) ((tunnel_init (fst s') n t0)\<lparr>tn_sent := snd s'\<rparr>)"
    using tstep.Sender [of "(tunnel_init (fst s) n t0)\<lparr>tn_sent := snd s\<rparr>" "fst s'" "snd s'"] by (simp add: tunnel_init_def)
  with step(3) show ?case by (rule treach.step)
qed

lemma example_accepted:
  obtains t where "treach 1 0 t" and "tn_sent t = [[42]]" and "opened (tn_chan t)" and "\<forall>p. \<not> waiting (tn_chan t) p"
    and "length (heap (tn_chan t)) = 2" and "wire (heap (tn_chan t) ! 0) = VCDataPacket_bytes 0 [42]" and "wire (heap (tn_chan t) ! 1) = []"
    and "tn_ins t = (\<lambda>_. None)(0 \<mapsto> \<lparr>is_slot = 0, is_buf = empty_ReadBuffer, is_pos = 0, is_open = True\<rparr>,
        1 \<mapsto> \<lparr>is_slot = 0, is_buf = empty_ReadBuffer, is_pos = 0, is_open = True\<rparr>)"
    and "tn_pending t = []" and "tn_rx t = rsys_init 1 0" and "\<not> tn_dropped t"
proof -
  let ?s = "\<lparr>is_slot = 0, is_buf = empty_ReadBuffer, is_pos = 0, is_open = True\<rparr>"
  obtain c where c: "sreach (c, [[42]])" "opened c" "\<And>p. \<not> waiting c p" "length (heap c) = 2"
    "wire (heap c ! 0) = VCDataPacket_bytes 0 [42]" "wire (heap c ! 1) = []" by (rule sent_example_rest) blast
  define t where "t = (tunnel_init c 1 0)\<lparr>tn_sent := [[42]]\<rparr>"
  have t: "treach 1 0 t" "tn_chan t = c" "tn_sent t = [[42]]" "tn_ins t = (\<lambda>_. None)" "tn_pending t = []" "tn_rx t = rsys_init 1 0" "\<not> tn_dropped t"
    using sender_run [OF c(1), of 1 0] by (simp_all add: t_def tunnel_init_def)
  have q: "length (connReceiveQueues (rx (rsys_init 1 0))) = 1" "connReceiveQueues (rx (rsys_init (Suc 0) 0)) \<noteq> []" by (simp_all add: rsys_init_def reorder_init_def)
  have s1: "treach 1 0 (t\<lparr>tn_ins := (tn_ins t)(0 \<mapsto> ?s)\<rparr>)"
    by (rule treach.step [OF t(1) tstep.Accept]) (use t c(4) q in simp_all)
  have s2: "treach 1 0 (t\<lparr>tn_ins := (tn_ins t)(0 \<mapsto> ?s, 1 \<mapsto> ?s)\<rparr>)"
    using treach.step [OF s1 tstep.Accept [of 1 _ 0]] t c(4) q by simp
  show ?thesis by (rule that [OF s2]) (use t c in simp_all)
qed

lemma example_delivered:
  obtains t where "treach 1 0 t" and "tn_sent t = [[42]]" and "at_rest t" and "\<not> skipped (tn_rx t)"
proof -
  let ?w = "VCDataPacket_bytes 0 [42]"
  obtain t where t: "treach 1 0 t" "tn_sent t = [[42]]" "opened (tn_chan t)" "\<forall>p. \<not> waiting (tn_chan t) p"
    "length (heap (tn_chan t)) = 2" "wire (heap (tn_chan t) ! 0) = ?w" "wire (heap (tn_chan t) ! 1) = []"
    and ins: "tn_ins t = (\<lambda>_. None)(0 \<mapsto> \<lparr>is_slot = 0, is_buf = empty_ReadBuffer, is_pos = 0, is_open = True\<rparr>,
        1 \<mapsto> \<lparr>is_slot = 0, is_buf = empty_ReadBuffer, is_pos = 0, is_open = True\<rparr>)"
    and rest: "tn_pending t = []" "tn_rx t = rsys_init 1 0" "\<not> tn_dropped t" by (rule example_accepted)
  have ev: "fst (io_rounds 0 [[?w]] empty_ReadBuffer) = map (packet_event 0) [PData 0 [42]]"
    by (intro conjunct1 [OF io_rounds_stream]) (simp_all add: VCDataPacket_bytes_def VC_MAX_DATA_PAYLOAD_SIZE_def)
  obtain rb where rb: "readFromConnection True (map Inr [?w] @ [Inl EAGAIN]) 0 empty_ReadBuffer = ([DataCallback 0 [42] 0], rb)"
    using ev by (cases "readFromConnection True (map Inr [?w] @ [Inl EAGAIN]) 0 empty_ReadBuffer") simp
  define t1 where "t1 = t\<lparr>tn_ins := (tn_ins t)(0 \<mapsto> \<lparr>is_slot = 0, is_buf = rb, is_pos = length ?w, is_open = True\<rparr>), tn_pending := [DataCallback 0 [42] 0]\<rparr>"
  have "tstep t t1" using tstep.Read [OF rest(1), of 0 _ "[?w]" "Inl EAGAIN" False "[DataCallback 0 [42] 0]" rb] ins t(6) rb
    by (simp add: t1_def RecvTcpDirect_def socket_codes VCDataPacket_bytes_def)
  then have r1: "treach 1 0 t1" by (rule treach.step [OF t(1)])
  have "calm t1" by (simp add: calm_def t1_def rest(2) settled_def rsys_init_def queued_def reorder_init_def)
  from pending_done [OF r1 this] obtain t2 where t2: "tquiet\<^sup>*\<^sup>* t1 t2" "tn_ins t2 = tn_ins t1"
    "length (offered (tn_rx t2)) \<le> length (offered (tn_rx t1)) + length (tn_pending t1)" "counted_out t2 \<or> calm t2 \<and> tn_pending t2 = []" by blast
  have "\<not> counted_out t2" using t2(3) by (simp add: counted_out_def t1_def rest(2) rsys_init_def)
  then have c2: "calm t2" "tn_pending t2 = []" using t2(4) by blast+
  have r2: "treach 1 0 t2" and same: "tn_chan t2 = tn_chan t" "tn_sent t2 = [[42]]" "tn_dropped t2 = tn_dropped t" "skipped (tn_rx t2) = skipped (tn_rx t)"
    using tquiet_reach [OF t2(1)] r1 t(2) by (auto simp: t1_def)
  have "read_out t2 k" if "k < length (heap (tn_chan t2))" for k
  proof -
    have "k = 0 \<or> k = 1" using that same(1) t(5) by auto
    then show ?thesis using t(6,7) by (auto simp: read_out_def t2(2) same(1)) (auto simp: t1_def ins)
  qed
  then have "at_rest t2" using c2 t(3,4) rest(3) same by (intro calm_rests) simp_all
  then show ?thesis using that r2 same rest(2) by (simp add: rsys_init_def)
qed

end
