(* ===== verification/Socket_Calls.thy ===== *)
theory Socket_Calls
  imports Socket_Ops Diagnostics
begin

text \<open>
  The functions of \<^verbatim>\<open>src/src/common/Socket.cpp\<close> that pass a system call on and log its failure, and
  the start-up of the socket library. What the system call answered is an argument; log lines are part of
  the result.
\<close>

section \<open>Logging the last error\<close>

text \<open>The error number, its text (\<^verbatim>\<open>strerror\<close>, not used on Windows), and the line that is logged.\<close>

definition SocketLogLastError :: "platform \<Rightarrow> int \<Rightarrow> string \<Rightarrow> int \<times> string" where
  "SocketLogLastError pf lastError text =
     (lastError, if pf = Windows then ''Socket log_error: '' @ int_text lastError
                 else ''Socket error: '' @ int_text lastError @ '' - '' @ text)"

section \<open>Standard blocking I/O\<close>

text \<open>An answer of \<^verbatim>\<open>send\<close> or \<^verbatim>\<open>recv\<close> as the return value of the call.\<close>

definition SendTcpData :: "errno + nat \<Rightarrow> int" where
  "SendTcpData answer = (case answer of Inl e \<Rightarrow> -1 | Inr n \<Rightarrow> int n)"

definition SendUdpData :: "errno + nat \<Rightarrow> int" where
  "SendUdpData answer = (case answer of Inl e \<Rightarrow> -1 | Inr n \<Rightarrow> int n)"

definition RecvTcpData :: "errno + bytes \<Rightarrow> int \<times> bytes" where
  "RecvTcpData answer = (case answer of Inl e \<Rightarrow> (-1, []) | Inr bs \<Rightarrow> (int (length bs), bs))"

definition RecvUdpData :: "platform \<Rightarrow> int \<Rightarrow> errno + bytes \<Rightarrow> (int \<times> bytes) \<times> string list" where
  "RecvUdpData pf lastError answer =
     (let (len, bs) = (case answer of Inl e \<Rightarrow> (-1, []) | Inr bs \<Rightarrow> (int (length bs), bs))
      in ((len, bs), if pf = Windows \<and> len = -1 then [''RecvUdpData error, code: '' @ int_text lastError] else []))"

text \<open>
  The standard call tells a failure from the end of the stream, the direct one does not; the direct
  one tells a transient condition from a failure, the standard one does not: its \<open>-1\<close> reads as \<open>would block\<close>
  where the codes of the direct calls are expected.
\<close>

lemma standard_and_direct:
  "fst (RecvTcpData a) > 0 \<longleftrightarrow> fst (RecvTcpDirect a) > 0"
  "fst (RecvTcpData a) > 0 \<Longrightarrow> RecvTcpData a = RecvTcpDirect a"
  "fst (RecvTcpData a) \<le> 0 \<and> fst (RecvTcpDirect a) = SOCKET_ERROR_CLOSED \<longleftrightarrow> a = Inr [] \<or> (\<exists>e. a = Inl e \<and> e \<notin> {EAGAIN, EWOULDBLOCK, EINTR})"
  "fst (RecvTcpData (Inl e)) = SOCKET_ERROR_WOULD_BLOCK"
  "SendTcpData b \<ge> 0 \<Longrightarrow> SendTcpData b = SendTcpDirect b"
  by (auto simp: RecvTcpData_def RecvTcpDirect_def SendTcpData_def SendTcpDirect_def socket_codes split: sum.splits)

section \<open>Socket control\<close>

definition SocketListen :: "int \<Rightarrow> int" where
  "SocketListen answer = answer"

definition SocketClose :: "int \<Rightarrow> int" where
  "SocketClose answer = answer"

definition SocketShutdown :: "int \<Rightarrow> int" where
  "SocketShutdown answer = answer"

definition SocketAccept :: "int \<Rightarrow> int" where
  "SocketAccept answer = answer"

text \<open>The log lines are those of \<^verbatim>\<open>SocketLogLastError\<close>.\<close>

definition SocketConnect :: "platform \<Rightarrow> int \<Rightarrow> string \<Rightarrow> int \<Rightarrow> int \<times> string list" where
  "SocketConnect pf lastError text answer =
     (answer, if answer < 0 then [snd (SocketLogLastError pf lastError text)] else [])"

definition SocketBind :: "platform \<Rightarrow> int \<Rightarrow> string \<Rightarrow> int \<Rightarrow> int \<times> string list" where
  "SocketBind pf lastError text answer =
     (answer, if answer \<noteq> 0 then [snd (SocketLogLastError pf lastError text)] else [])"

text \<open>A failure is logged once, a success not at all, and the line names the error number.\<close>

lemma failure_logged:
  assumes "answer = 0 \<or> answer = -1"
  shows "snd (SocketConnect pf e text answer) = (if fst (SocketConnect pf e text answer) = 0 then [] else [snd (SocketLogLastError pf e text)])"
    and "snd (SocketBind pf e text answer) = (if fst (SocketBind pf e text answer) = 0 then [] else [snd (SocketLogLastError pf e text)])"
  using assms by (auto simp: SocketConnect_def SocketBind_def)

lemma log_line_names_error:
  assumes "snd (SocketLogLastError pf e text) = snd (SocketLogLastError pf e' text')"
  shows "e = e'"
proof -
  have "\<not> is_digit (CHR '' '')" by (simp add: is_digit_def)
  then show ?thesis using assms int_text_cons_inj int_text_inj by (cases pf) (auto simp: SocketLogLastError_def)
qed

section \<open>Starting the socket library\<close>

text \<open>
  On Windows a failed start is logged and ends the process. The message is made with
  \<^verbatim>\<open>std::string(text, result)\<close>, which copies as many characters as the error code says; the literal has 22
  characters and its terminator, reading on is undefined. A negative code, as a size, is too long for a string.
\<close>

definition wsa_literal :: string where
  "wsa_literal = ''WSAStartup failed: %d'' @ [CHR 0x0A, CHR 0x00]"

datatype start_up = Ready | ExitFailure string | ReadsBeyond | LengthError

definition SocketInit :: "platform \<Rightarrow> int \<Rightarrow> start_up" where
  "SocketInit pf result =
     (if pf = Windows \<and> result \<noteq> 0
      then (if result < 0 then LengthError
            else if nat result \<le> length wsa_literal then ExitFailure (take (nat result) wsa_literal) else ReadsBeyond)
      else Ready)"

text \<open>Whether \<^verbatim>\<open>WSACleanup\<close> is called.\<close>

definition SocketClearnup :: "platform \<Rightarrow> bool" where
  "SocketClearnup pf \<longleftrightarrow> pf = Windows"

text \<open>Every error code that \<^verbatim>\<open>WSAStartup\<close> is documented to return is beyond the literal.\<close>

definition WSASTARTUP_ERRORS :: "int list" where
  "WSASTARTUP_ERRORS = [10091, 10092, 10036, 10067, 10014]"

lemma failed_start_reads_beyond: "e \<in> set WSASTARTUP_ERRORS \<Longrightarrow> SocketInit Windows e = ReadsBeyond"
  by (auto simp: WSASTARTUP_ERRORS_def SocketInit_def wsa_literal_def)

lemma start_up_posix: "pf \<noteq> Windows \<Longrightarrow> SocketInit pf result = Ready"
  by (simp add: SocketInit_def)

end
