(* ===== verification/Reports.thy ===== *)
theory Reports
  imports Diagnostics Network_Score Data_Pipeline Read_Thread
begin

text \<open>
  Texts with decimal fractions and the read thread's backlog warning: \<^verbatim>\<open>NetworkScore::format\<close>
  (\<^verbatim>\<open>src/src/common/NetworkScore.cpp\<close>), \<^verbatim>\<open>PerformanceCounter::Report\<close> and the end of a round of
  \<^verbatim>\<open>TcpVCReadThread::run\<close>. \<^verbatim>\<open>std::format\<close> rounds the exact value of a \<^verbatim>\<open>double\<close> to the digits asked for, ties to even.
\<close>

section \<open>Decimal fractions\<close>

text \<open>The format \<^verbatim>\<open>{:.kf}\<close>.\<close>

definition pad_zeros :: "nat \<Rightarrow> string \<Rightarrow> string" where
  "pad_zeros k s = replicate (k - length s) (CHR ''0'') @ s"

definition fixed_text :: "nat \<Rightarrow> rat \<Rightarrow> string" where
  "fixed_text k x =
     (let n = nat (rne (\<bar>x\<bar> * 10 ^ k))
      in (if x < 0 then ''-'' else '''') @ decimal (n div 10 ^ k) @
         (if k = 0 then '''' else ''.'' @ pad_zeros k (decimal (n mod 10 ^ k))))"

lemma abs_scaled:
  fixes a x p :: rat
  assumes "\<bar>a - x * p\<bar> \<le> 1 / 2" and "0 < p"
  shows "\<bar>a / p - x\<bar> \<le> 1 / (2 * p)"
proof -
  have "a / p - x = (a - x * p) / p" using assms(2) by (simp add: diff_divide_distrib)
  then have "\<bar>a / p - x\<bar> = \<bar>a - x * p\<bar> / p" using assms(2) by (simp add: abs_divide)
  also have "\<dots> \<le> 1 / 2 / p" by (rule divide_right_mono) (use assms in simp_all)
  finally show ?thesis by simp
qed

lemma decimal_short: "n < 10 ^ k \<Longrightarrow> 0 < k \<Longrightarrow> length (decimal n) \<le> k"
proof (induction n arbitrary: k rule: decimal.induct)
  case (1 n)
  show ?case
  proof (cases "n < 10")
    case True
    then show ?thesis using 1(3) by (simp add: decimal.simps [of n])
  next
    case False
    then obtain j where j: "k = Suc j" "0 < j" using 1(2,3) by (cases k; cases "k - 1") auto
    then have "n div 10 < 10 ^ j" using 1(2) by (simp add: less_mult_imp_div_less mult.commute)
    then show ?thesis using 1(1) [OF False _ j(2)] False j(1) by (simp add: decimal.simps [of n])
  qed
qed

lemma digits_value_zero: "digits_value (CHR ''0'' # ds) = digits_value ds"
  by (simp add: digits_value_def digit_value_def)

lemma pad_zeros_decimal:
  assumes "n < 10 ^ k" and "0 < k"
  shows "length (pad_zeros k (decimal n)) = k" and "\<forall>c \<in> set (pad_zeros k (decimal n)). is_digit c"
    and "digits_value (pad_zeros k (decimal n)) = n"
proof -
  show "length (pad_zeros k (decimal n)) = k" using decimal_short [OF assms] by (simp add: pad_zeros_def)
  show "\<forall>c \<in> set (pad_zeros k (decimal n)). is_digit c" using decimal_digits [of n] by (auto simp: pad_zeros_def is_digit_def)
  have "digits_value (replicate m (CHR ''0'') @ decimal n) = n" for m
    by (induction m) (simp_all add: digits_value_zero)
  then show "digits_value (pad_zeros k (decimal n)) = n" by (simp add: pad_zeros_def)
qed

text \<open>The text reads back as the value, up to half a unit of the last place.\<close>

lemma fixed_text_value:
  assumes "0 \<le> x"
  shows "\<exists>i f. fixed_text k x = decimal i @ (if k = 0 then '''' else ''.'' @ f) \<and> length f = k \<and> (\<forall>c \<in> set f. is_digit c) \<and>
     \<bar>of_nat i + of_nat (digits_value f) / 10 ^ k - x\<bar> \<le> 1 / (2 * 10 ^ k)"
proof -
  let ?r = "rne (x * 10 ^ k)"
  have "rne 0 \<le> ?r" by (rule rne_mono) (use assms in simp)
  then have r: "0 \<le> ?r" using rne_int [of 0] by simp
  let ?n = "nat ?r" and ?p = "10 ^ k :: nat"
  define f where "f = (if k = 0 then '''' else pad_zeros k (decimal (?n mod ?p)))"
  have f: "length f = k" "\<forall>c \<in> set f. is_digit c" "digits_value f = ?n mod ?p"
    using pad_zeros_decimal [of "?n mod ?p" k] by (auto simp: f_def digits_value_def)
  have "\<bar>of_nat ?n - x * 10 ^ k\<bar> \<le> 1 / 2" using rne_error [of "x * 10 ^ k"] r by simp
  then have "\<bar>of_nat ?n / 10 ^ k - x\<bar> \<le> 1 / (2 * 10 ^ k)" by (rule abs_scaled) simp
  moreover have "of_nat ?n = (of_nat (?n div ?p * ?p + ?n mod ?p) :: rat)" by (simp only: div_mult_mod_eq)
  then have "of_nat ?n = (of_nat (?n div ?p) * 10 ^ k + of_nat (digits_value f) :: rat)"
    by (simp only: f(3) of_nat_add of_nat_mult of_nat_power of_nat_numeral)
  then have "of_nat ?n / 10 ^ k = (of_nat (?n div ?p) + of_nat (digits_value f) / 10 ^ k :: rat)"
    by (simp only: add_divide_distrib) simp
  ultimately have "\<bar>of_nat (?n div ?p) + of_nat (digits_value f) / 10 ^ k - x\<bar> \<le> 1 / (2 * 10 ^ k)" by (simp only:)
  moreover have "fixed_text k x = decimal (?n div ?p) @ (if k = 0 then '''' else ''.'' @ f)"
    using assms by (simp add: fixed_text_def f_def Let_def)
  ultimately show ?thesis using f(1,2) by blast
qed

section \<open>The two reports\<close>

definition NetworkScore_format :: "NetworkScore \<Rightarrow> string" where
  "NetworkScore_format s =
     ''[SCORE] overall='' @ int_text (overall s) @ '' latency='' @ int_text (latency s) @ '' throughput='' @ int_text (throughput s) @
     '' stability='' @ int_text (stability s) @ '' queueHealth='' @ int_text (queueHealth s) @
     '' | rtt='' @ fixed_text 1 (ns_avgRttMs s) @ ''ms cwnd='' @ fixed_text 0 (ns_avgCwndKB s) @ ''KB tx='' @ id_text (nt_tx (ns_totals s)) @
     '' reenq='' @ id_text (nt_reenqueue (ns_totals s)) @ '' degraded='' @ int_text (nt_degraded (ns_totals s)) @
     '' dead='' @ int_text (nt_dead (ns_totals s)) @ '' alive='' @ int_text (nt_alive (ns_totals s)) @ '' qdepth='' @ id_text (ns_sendQueueDepth s)"

definition perf_Report :: "(rat \<Rightarrow> rat) \<Rightarrow> PerformanceCounter \<Rightarrow> string" where
  "perf_Report fl p =
     ''PerformanceCounter Report: Calls: '' @ int_text (GetCallCount p) @ '', Min Time: '' @ fixed_text 6 (GetMinTime p) @
     ''s, Max Time: '' @ fixed_text 6 (GetMaxTime p) @ ''s, Avg Time: '' @ fixed_text 6 (GetAverageTime fl p) @ ''s''"

text \<open>Before the first call the report shows zeros, not the extreme values that the members start with.\<close>

lemma empty_report: "perf_Report fl PerformanceCounter_init =
   ''PerformanceCounter Report: Calls: 0, Min Time: 0.000000s, Max Time: 0.000000s, Avg Time: 0.000000s''"
proof -
  have z: "decimal 0 = ''0''" by code_simp
  have "pad_zeros 6 ''0'' = ''000000''" by code_simp
  moreover have "rne 0 = 0" using rne_int [of 0] by simp
  ultimately have "fixed_text 6 0 = ''0.000000''" by (simp add: fixed_text_def Let_def z)
  moreover have "int_text 0 = ''0''" by (simp add: int_text_def z)
  ultimately show ?thesis
    by (simp add: perf_Report_def PerformanceCounter_init_def GetCallCount_def GetMinTime_def GetMaxTime_def GetAverageTime_def)
qed

section \<open>The backlog warning of the read thread\<close>

text \<open>
  At the end of a round. \<open>lastBacklogWarn\<close> is zero until the first warning; \<open>pending\<close> is what
  \<^verbatim>\<open>SocketBytesAvailable\<close> answers. The head of the buffer is read as a data packet, whatever it is.
\<close>

definition BACKLOG_WARN_INTERVAL :: time where "BACKLOG_WARN_INTERVAL = ms 1000"
definition BACKLOG_BUFVEC_WARN_BYTES :: nat where "BACKLOG_BUFVEC_WARN_BYTES = 64 * 1024"
definition PROCESS_SLOW_WARN_MS :: time where "PROCESS_SLOW_WARN_MS = ms 100"

lemmas backlog_limits = BACKLOG_WARN_INTERVAL_def BACKLOG_BUFVEC_WARN_BYTES_def PROCESS_SLOW_WARN_MS_def

definition backlog_check :: "int \<Rightarrow> int \<Rightarrow> bytes \<Rightarrow> time \<Rightarrow> time \<Rightarrow> time \<Rightarrow> string option \<times> time" where
  "backlog_check connectionIndex pending b processingDur now lastBacklogWarn =
     (let shouldWarn = (length b \<ge> BACKLOG_BUFVEC_WARN_BYTES \<or> processingDur \<ge> PROCESS_SLOW_WARN_MS)
      in if shouldWarn \<and> (lastBacklogWarn = 0 \<or> now - lastBacklogWarn \<ge> BACKLOG_WARN_INTERVAL)
         then let (headMsgId, headLen) = (if length b \<ge> sizeof_VCDataPacket then (pkt_messageId b, pkt_dataLength b) else (0, 0))
              in (Some (''[VC] ReadThread backlog: conn='' @ int_text connectionIndex @ '' bufVec='' @ decimal (length b) @ ''B pendingBytes='' @
                    int_text pending @ '' procMs='' @ int_text (ns_to_ms processingDur) @ '' headMsgId='' @ id_text headMsgId @
                    '' headLen='' @ decimal headLen @ ''B''), now)
         else (None, lastBacklogWarn))"

text \<open>The times of the warnings of a run of rounds, given by buffer, duration and time of the check.\<close>

fun backlog_run :: "(bytes \<times> time \<times> time) list \<Rightarrow> time \<Rightarrow> time list" where
  "backlog_run [] prev = []"
| "backlog_run ((b, dur, now) # rounds) prev =
     (case backlog_check 0 0 b dur now prev of
        (None, prev') \<Rightarrow> backlog_run rounds prev'
      | (Some line, prev') \<Rightarrow> now # backlog_run rounds prev')"

lemma backlog_check_cases:
  "fst (backlog_check i p b dur now prev) = None \<longleftrightarrow> \<not> ((length b \<ge> 65536 \<or> dur \<ge> ms 100) \<and> (prev = 0 \<or> now - prev \<ge> ms 1000))"
  "snd (backlog_check i p b dur now prev) = (if fst (backlog_check i p b dur now prev) = None then prev else now)"
  by (auto simp: backlog_check_def backlog_limits Let_def)

text \<open>At most one warning per second: with a clock that has started, each comes at least a second after the one before.\<close>

lemma backlog_rate:
  assumes "\<forall>(b, dur, now) \<in> set rounds. 0 < now"
  shows "sorted_wrt (\<lambda>a b. a + ms 1000 \<le> b) (backlog_run rounds prev) \<and> (prev > 0 \<longrightarrow> (\<forall>w \<in> set (backlog_run rounds prev). prev + ms 1000 \<le> w))"
  using assms
proof (induction rounds arbitrary: prev)
  case (Cons r rounds)
  obtain b dur now where r: "r = (b, dur, now)" by (cases r)
  have now: "0 < now" using Cons(2) r by simp
  obtain o' prev' where c: "backlog_check 0 0 b dur now prev = (o', prev')" by fastforce
  have l: "prev' = (if o' = None then prev else now)" using backlog_check_cases(2) [of 0 0 b dur now prev] c by simp
  note IH = Cons(1) [of prev']
  show ?case
  proof (cases o')
    case None
    then show ?thesis using IH l Cons(2) by (simp add: r c)
  next
    case (Some line)
    then have due: "prev = 0 \<or> now - prev \<ge> ms 1000" using backlog_check_cases(1) [of 0 0 b dur now prev] c by auto
    have ih: "sorted_wrt (\<lambda>a b. a + ms 1000 \<le> b) (backlog_run rounds now)" "\<forall>w \<in> set (backlog_run rounds now). now + ms 1000 \<le> w"
      using IH l Some now Cons(2) by auto
    have "prev + ms 1000 \<le> w" if "prev > 0" "w \<in> set (backlog_run rounds now)" for w
      using ih(2) that due now by (force simp: ms_def)
    then show ?thesis using ih due Some l by (auto simp: r c)
  qed
qed simp

end
