(* ===== verification/Spec2Isabelle.thy ===== *)
theory Spec2Isabelle
  imports Vc_Socket Uvt_Protocol Io_Parser Blocking_Queue Sent_Cache Send_Status Reorder_Steps Channel_Life Channel_Resend Sender_Complete Server_Clients Client_Props
    Reconnect_System Read_Thread Socket_Ops Connection_Manager Send_Wait Network_Score Command_Line Data_Pipeline Client_System Server_System Diagnostics
    Tunnel_Progress Socket_Calls Reports
begin

text \<open>
  \<^bold>\<open>tcpudp\<close>: UDP datagrams carried over a virtual channel of 32 TCP connections.

  \<^bold>\<open>The program.\<close> A client and a server each own the same channel object (\<^verbatim>\<open>src/src/common\<close>). The
  sending application hands a payload to \<^verbatim>\<open>TcpVirtualChannel::send\<close>, which numbers it, frames it, keeps
  a copy in the sent-data cache and puts it on a blocking queue. The send thread takes packets from the
  queue, rates the data connections and writes each packet whole on one of them; packets asked for
  again travel on connections set apart for that. On the other side the IO thread polls the
  connections, parses their streams and puts each message into the ring buffer of its connection; the
  reorder thread merges the rings, hands the messages to the application in the order of their numbers,
  asks the peer for missing ones and skips a gap after a timeout. Around the channel the server
  (\<^verbatim>\<open>src/src/server\<close>) collects 32 sockets with the same client id into a channel and puts reconnected
  sockets back into their slots, and the client (\<^verbatim>\<open>src/src/client\<close>) opens the sockets, watches them and
  replaces the dead ones.

  \<^bold>\<open>How code becomes definitions.\<close> A class or struct is a record with the source's members, an operation a
  function from the old state to the new one. What the kernel, the clock and other threads answer is an
  argument of the function: return values and error numbers of system calls, the octets that arrive,
  the readings of \<^verbatim>\<open>steady_clock\<close>. Integers have their width (\<open>8 word\<close> to \<open>64 word\<close>), signed arithmetic that
  the sources let overflow is checked or wrapped explicitly. Undefined behaviour and uncaught
  exceptions that the code can reach are values: a function of type \<open>'a outcome\<close> returns \<open>Inl\<close> of a
  \<open>fault\<close>. A call that may still be blocked when the answers run out is \<open>None\<close>; theorems about such
  functions say when the result is \<open>Some\<close>. Connections are shared between the threads, so they live in a
  store (\<open>heap\<close>) and the slots hold references into it. No definition uses fuel: a loop of the code ends
  by a measure, or runs over the list of answers of the kernel. Threads that interleave are step
  relations whose steps are the shared accesses of the code.

  \<^bold>\<open>Theories.\<close>
  \<^item> \<^verbatim>\<open>Vc_Prelude\<close>: machine types, outcomes, little-endian fields, models of \<^verbatim>\<open>std::map\<close> and
    \<^verbatim>\<open>std::unordered_map\<close>. \<^verbatim>\<open>Fifo_Spec\<close>: the locale \<open>fifo\<close>, the contract of a queue between two threads.
  \<^item> \<^verbatim>\<open>Vc_Socket\<close>, \<^verbatim>\<open>Socket_Ops\<close>, \<^verbatim>\<open>Socket_Calls\<close> (\<^verbatim>\<open>Socket.cpp\<close>): classification of \<^verbatim>\<open>send\<close> and \<^verbatim>\<open>recv\<close> results, the blocking
    read loop, polling on the three platforms, connecting with a timeout, blocking mode, keep-alive, the
    calls that are passed on and their error lines.
  \<^item> \<^verbatim>\<open>Uvt_Protocol\<close>, \<^verbatim>\<open>Connection_Manager\<close> (\<^verbatim>\<open>Protocol.h\<close>, \<^verbatim>\<open>Protocol.cpp\<close>): datagram frames with checksum,
    bind messages, the registry of connections. \<^verbatim>\<open>Vc_Protocol\<close> (\<^verbatim>\<open>VcProtocol.h\<close>): packet layouts.
  \<^item> \<^verbatim>\<open>Io_Parser\<close>, \<^verbatim>\<open>Io_Run\<close> (\<^verbatim>\<open>TcpVCIoThread\<close>), \<^verbatim>\<open>Read_Thread\<close> (\<^verbatim>\<open>TcpVCReadThread\<close>): the two receive paths; both
    interpret the locale \<open>packet_reader\<close> of \<^verbatim>\<open>Packet_Reader\<close>, which gives their equivalence.
  \<^item> \<^verbatim>\<open>Spsc_Queue\<close> (\<^verbatim>\<open>SpscQueue.h\<close>) and \<^verbatim>\<open>Blocking_Queue\<close> (\<^verbatim>\<open>BlockingQueue\<close>): the queues, sequentially
    (interpretations of \<open>fifo\<close>) and as two-thread step relations.
  \<^item> \<^verbatim>\<open>Sent_Cache\<close>, \<^verbatim>\<open>Send_Status\<close>: cache of sent packets, message tracker (interpretation of the locale
    \<open>id_map\<close>), degradation of connections, send statistics. \<^verbatim>\<open>Tcp_Connection\<close>, \<^verbatim>\<open>Stopable_Thread\<close>: connection
    state, its seqlock, the thread handle.
  \<^item> \<^verbatim>\<open>Reorder\<close>, \<^verbatim>\<open>Reorder_Gap\<close>, \<^verbatim>\<open>Reorder_Steps\<close>, \<^verbatim>\<open>Reorder_Rounds\<close>: the reorder thread; one iteration in
    detail, its interleaving with the IO thread, and the schedules by which it empties its queues.
  \<^item> \<^verbatim>\<open>Channel\<close>, \<^verbatim>\<open>Channel_Props\<close>, \<^verbatim>\<open>Channel_Resend\<close>, \<^verbatim>\<open>Channel_Life\<close>: the channel object; numbering, resending on
    demand, tearing down and replacing connections.
  \<^item> \<^verbatim>\<open>Send_Thread\<close>, \<^verbatim>\<open>Send_Order\<close>, \<^verbatim>\<open>Send_Framing\<close>, \<^verbatim>\<open>Send_Delivery\<close>, \<^verbatim>\<open>Send_Wait\<close>: one pass of the send thread;
    the order of connections, framing of the streams, fate of each packet, the waits.
    \<^verbatim>\<open>Sender_System\<close>: all actions on the sending side as a transition system.
  \<^item> \<^verbatim>\<open>Double_Rounding\<close>, \<^verbatim>\<open>Network_Score\<close>: double-precision arithmetic (locale \<open>rounding\<close>: exact results
    rounded to 53 bits, ties to even, exponents unbounded, which the magnitudes at hand never leave)
    and the quality score computed with it.
  \<^item> \<^verbatim>\<open>Server\<close>, \<^verbatim>\<open>Server_Props\<close>, \<^verbatim>\<open>Server_Clients\<close>: peers, registry, slot policy, the accept loop; whole
    dialogues with a client. \<^verbatim>\<open>Client\<close>, \<^verbatim>\<open>Client_Props\<close>: the client. \<^verbatim>\<open>Reconnect_System\<close>: both together.
  \<^item> \<^verbatim>\<open>Sender_Complete\<close>: no accepted message is forgotten by the sending side. \<^verbatim>\<open>Client_System\<close>: the client
    program as a transition system around its channel, with the loop of \<^verbatim>\<open>main\<close>. \<^verbatim>\<open>Server_System\<close>: the server program with all its channels,
    UDP threads and the signal handler.
  \<^item> \<^verbatim>\<open>Delivery\<close>: what reaches the receiver stems from the sender. \<^verbatim>\<open>Lossy_Channel\<close>, \<^verbatim>\<open>Tunnel\<close>, \<^verbatim>\<open>Tunnel_Progress\<close>:
    the abstract channels with the locale of refinement mappings, the closed system of sender, connections, IO thread and reorder thread
    that implements them, and the runs that complete a delivery.
  \<^item> \<^verbatim>\<open>Logging\<close> (\<^verbatim>\<open>Log\<close>), \<^verbatim>\<open>Number_Text\<close> (\<^verbatim>\<open>std::stoi\<close>, \<^verbatim>\<open>std::stoul\<close>), \<^verbatim>\<open>Client_Config\<close> (\<^verbatim>\<open>ClientConfiguration\<close>) and
    \<^verbatim>\<open>Command_Line\<close> (the two \<^verbatim>\<open>main.cpp\<close>): log levels and lines, settings from the file and from the
    command line. The JSON value that the third-party parser returns is an argument.
  \<^item> \<^verbatim>\<open>Data_Pipeline\<close>: \<^verbatim>\<open>Counter\<close>, \<^verbatim>\<open>DataNotifier\<close>, \<^verbatim>\<open>QueueManager\<close>, \<^verbatim>\<open>DataProcessorContext\<close>,
    \<^verbatim>\<open>DataProcessorThread\<close>, \<^verbatim>\<open>PerformanceCounter\<close>. \<^verbatim>\<open>Diagnostics\<close>: the texts of the reorder thread's log.
    \<^verbatim>\<open>Reports\<close>: texts with decimal fractions (\<^verbatim>\<open>NetworkScore::format\<close>, \<^verbatim>\<open>PerformanceCounter::Report\<close>), the read thread's backlog warning.

  \<^bold>\<open>What is shown.\<close> The specification of the whole is in \<^verbatim>\<open>Lossy_Channel\<close>: a channel that may lose
  messages but keeps their order, and one that loses none. \<open>tunnel_refines_channel\<close> below shows that the closed system of sender,
  connections and receiver (\<^verbatim>\<open>Tunnel\<close>) refines the first, and the second as long as no gap times out, by interpreting the locale
  \<open>refinement_mapping\<close>. It rests on the framing invariant of the sender
  (\<open>streams_carry_accepted\<close>), the round trip of the parser for arbitrary segmentation and the invariant of
  the reorder thread under all interleavings.
  Completeness is \<open>tunnel_delivery_complete\<close>: once sender and receiver are at rest and no gap was skipped, all
  that was accepted has been handed over, because the sender forgets nothing (\<open>accepted_not_forgotten\<close>); and
  \<open>delivery_can_complete\<close>: the receiver can always get there, except where its lost wake-up keeps it asleep.
  \<open>client_datagrams_delivered\<close> and \<open>server_datagrams_delivered\<close> carry both over to the two programs, with restarts,
  reconnects and many clients; \<open>client_never_dies\<close> and \<open>server_never_faults\<close> show that these go on
  without a fault. Per component there are functional descriptions
  of every branch, invariants, refinements to abstract queues, maps and buffers, termination of the
  retry loops, and bounds. Defects of the code are theorems as well: a lost wake-up of the reorder
  thread, a connection wedged by an oversized header, a channel rebuilt from closed descriptors, a
  torn read of the seqlock, and others.

  \<^bold>\<open>Not modelled.\<close> The texts of log lines other than those of \<^verbatim>\<open>Diagnostics\<close>, \<^verbatim>\<open>Socket_Calls\<close> and \<^verbatim>\<open>Reports\<close>; the
  C++ memory model below the granularity of atomic accesses (mutex-protected sections are atomic
  steps); the network's own timing: octets that were written may arrive at any time or never; the JSON parser
  and the interfaces \<^verbatim>\<open>IDataReader\<close>, \<^verbatim>\<open>IDataProcessor\<close>, \<^verbatim>\<open>DataProcessorState\<close>,
  which have no implementation here: what they answer is an input.
\<close>

section \<open>From one application to the other\<close>







section \<open>Any sender state, any receiver state\<close>

text \<open>
  The same for a sender and a receiver that are not tied together by a run: it is enough that what the receiver
  took stems from the sender's streams.
\<close>

text \<open>
  End to end. The sender accepts the payloads \<open>ds\<close>; its threads, the kernel and the peer's
  requests act in any order, connections fail and are replaced. The receiver's IO and reorder threads
  interleave in any way and take their input from what arrived on the connections. Then what the
  receiving application was handed is a subsequence of \<open>ds\<close>: payloads unchanged, in the order of
  sending, none twice, none invented. If no gap timed out it is an initial part of \<open>ds\<close>: nothing is
  missing in between.
\<close>

theorem end_to_end_delivery:
  assumes "sreach (c, ds)" and "rreach n t z" and "\<forall>it \<in> set (offered z). received_from c it"
  shows "(\<exists>ids. sorted_wrt (<) ids \<and> (\<forall>i \<in> set ids. i < length ds) \<and> map di_data (handed z) = map ((!) ds) ids) \<and>
     (\<not> skipped z \<longrightarrow> map di_data (handed z) = take (length (handed z)) ds)"
  using handed_subsequence [OF assms] handed_prefix(1) [OF assms] by blast

text \<open>
  Nothing is lost. When the sending side has come to rest (the channel is open, its queue is empty
  and the send thread retains nothing), the receiver has read all that was written and its reorder
  thread waits with empty queues, and no gap timed out on the way, then the receiving application has
  been handed exactly the payloads that were accepted, all of them, in order.
\<close>

theorem quiescent_delivery_complete:
  assumes "sreach (c, ds)" and "opened c" and "\<And>p. \<not> waiting c p"
    and "rreach n t z" and "\<forall>it \<in> set (offered z). received_from c it" and "all_received c z"
    and "\<not> skipped z" and "pc z = Check b \<or> pc z = Blocked b" and "queued (rx z) = []"
  shows "map di_data (handed z) = ds"
  by (rule quiescent_handed [OF assms])

theorem end_to_end_delivery_witness:
  "\<exists>c z. sreach (c, [[42]]) \<and> rreach 1 0 z \<and> map di_data (handed z) = [[42]]"
proof -
  obtain c where c: "sreach (c, [[42]])" "length (heap c) = 2" "wire (heap c ! 0) = VCDataPacket_bytes 0 [42]"
    by (rule sent_example_rest)
  obtain z where z: "rreach 1 0 z" "\<not> skipped z" "map di_messageId (handed z) = [0]" "set (offered z) = {msg0}"
    using reach_delivered by metis
  have "\<forall>it \<in> set (offered z). received_from c it" using msg0_received [OF _ c(3)] c(2) by (fastforce simp: z(4))
  from end_to_end_delivery [OF c(1) z(1) this] z(2) have "map di_data (handed z) = take (length (handed z)) [[42]]" by simp
  moreover have "length (handed z) = 1" using z(3) by (metis length_map length_Cons list.size(3) One_nat_def)
  ultimately show ?thesis using c(1) z(1) by auto
qed

theorem quiescent_delivery_complete_witness:
  "\<exists>c z. sreach (c, [[42]]) \<and> rreach 1 0 z \<and> all_received c z \<and> map di_data (handed z) = [[42]]"
proof -
  let ?w = "VCDataPacket_bytes 0 [42]"
  obtain c where c: "sreach (c, [[42]])" "opened c" "\<And>p. \<not> waiting c p" "length (heap c) = 2" "wire (heap c ! 0) = ?w" "wire (heap c ! 1) = []"
    by (rule sent_example_rest) blast
  obtain y q where y: "rreach 1 0 y" "\<not> skipped y" "set (offered y) = {msg0}" "pc y = Loop" "reorderRunning (rx y)"
    "connReceiveQueues (rx y) = [q]" "spsc_invar q" "spsc_contents q = []" "receivedDataMap (rx y) = []"
    using reach_delivered_loop by (elim exE conjE)
  obtain z where z: "rreach 1 0 z" "\<not> skipped z" "set (offered z) = {msg0}" "pc z = Check False" "queued (rx z) = []"
    using idle_round [OF y(1,4-9)] y(2,3) by auto
  have gen: "\<forall>it \<in> set (offered z). received_from c it" using msg0_received [OF _ c(5)] c(4) by (fastforce simp: z(3))
  have "fst (io_rounds 0 [[?w]] empty_ReadBuffer) = map (packet_event 0) [PData 0 [42]]"
    by (intro conjunct1 [OF io_rounds_stream]) (simp_all add: VCDataPacket_bytes_def VC_MAX_DATA_PAYLOAD_SIZE_def)
  then have "all_received c z" unfolding all_received_def
  proof (intro allI impI)
    fix k assume ev: "fst (io_rounds 0 [[?w]] empty_ReadBuffer) = map (packet_event 0) [PData 0 [42]]" and "k < length (heap c)"
    then consider "k = 0" | "k = 1" using c(4) by fastforce
    then show "\<exists>rounds ci. (\<forall>cs \<in> set rounds. [] \<notin> set cs) \<and> concat (concat rounds) = wire (heap c ! k) \<and>
       (\<forall>m d. DataCallback m d ci \<in> set (fst (io_rounds ci rounds empty_ReadBuffer)) \<longrightarrow> (\<exists>it \<in> set (offered z). di_messageId it = m \<and> di_data it = d))"
    proof cases
      case 1
      then show ?thesis using ev c(5) z(3) by (intro exI [of _ "[[?w]]"] exI [of _ 0]) (auto simp: msg0_def VCDataPacket_bytes_def)
    next
      case 2
      then show ?thesis using c(6) by (intro exI [of _ "[]"]) simp
    qed
  qed
  then show ?thesis using quiescent_delivery_complete [OF c(1-3) z(1) gen _ z(2) disjI1 [OF z(4)] z(5)] c(1) z(1)
    by (intro exI [of _ c] exI [of _ z]) simp
qed

section \<open>From one UDP socket to the other\<close>





end
